(* ===== verification/Prelude.thy ===== *)
theory Prelude
  imports Main "HOL-Library.Word" "HOL-Library.Multiset"
begin

text \<open>
  Shared vocabulary of the development: machine integers at their width with the
  saturating, checked and wrapping operations the Rust sources call, the byte encodings
  \<open>to_le_bytes\<close> and \<open>to_be_bytes\<close>, the two result combinators that stand for
  \<open>?\<close> and \<open>ok_or\<close>, and the slice operations of \<open>Vec\<close> and \<open>VecDeque\<close> that the pallets
  use.  The lemmas on them are collected in \<open>word_nat\<close> (words read as naturals) and
  \<open>res_simps\<close> (results), so that the component theories do not unfold them again.
\<close>

unbundle bit_operations_syntax

named_theorems word_nat \<open>the saturating and checked operations read through unat\<close>
named_theorems res_simps \<open>successful results of the combinators on error values\<close>

section \<open>Machine integers\<close>

type_synonym u8 = "8 word"
type_synonym u32 = "32 word"
type_synonym u64 = "64 word"
type_synonym u128 = "128 word"
type_synonym H256 = "256 word"
type_synonym bytes = "u8 list"

definition saturating_add :: "'a::len word \<Rightarrow> 'a word \<Rightarrow> 'a word" where
  "saturating_add a b = (if unat a + unat b < 2 ^ LENGTH('a) then a + b else - 1)"

definition saturating_sub :: "'a::len word \<Rightarrow> 'a word \<Rightarrow> 'a word" where
  "saturating_sub a b = (if b \<le> a then a - b else 0)"

definition saturating_mul :: "'a::len word \<Rightarrow> 'a word \<Rightarrow> 'a word" where
  "saturating_mul a b = (if unat a * unat b < 2 ^ LENGTH('a) then a * b else - 1)"

definition checked_add :: "'a::len word \<Rightarrow> 'a word \<Rightarrow> 'a word option" where
  "checked_add a b = (if unat a + unat b < 2 ^ LENGTH('a) then Some (a + b) else None)"

definition checked_sub :: "'a::len word \<Rightarrow> 'a word \<Rightarrow> 'a word option" where
  "checked_sub a b = (if b \<le> a then Some (a - b) else None)"

definition checked_mul :: "'a::len word \<Rightarrow> 'a word \<Rightarrow> 'a word option" where
  "checked_mul a b = (if unat a * unat b < 2 ^ LENGTH('a) then Some (a * b) else None)"

text \<open>\<open>x.len() as u32\<close> and \<open>x.len() as u64\<close>: the cast truncates.\<close>

definition len32 :: "'a list \<Rightarrow> u32" where
  "len32 xs = of_nat (length xs)"

definition len64 :: "'a list \<Rightarrow> u64" where
  "len64 xs = of_nat (length xs)"

section \<open>Byte encodings\<close>

definition le_bytes :: "nat \<Rightarrow> 'a::len word \<Rightarrow> bytes" where
  "le_bytes n w = map (\<lambda>i. ucast (drop_bit (8 * i) w)) [0..<n]"

definition be_bytes :: "nat \<Rightarrow> 'a::len word \<Rightarrow> bytes" where
  "be_bytes n w = rev (le_bytes n w)"

definition u64_to_le_bytes :: "u64 \<Rightarrow> bytes" where
  "u64_to_le_bytes = le_bytes 8"

definition u64_to_be_bytes :: "u64 \<Rightarrow> bytes" where
  "u64_to_be_bytes = be_bytes 8"

text \<open>\<open>H256::as_bytes\<close>: the 32 bytes of a hash, most significant first.\<close>

definition as_bytes :: "H256 \<Rightarrow> bytes" where
  "as_bytes = be_bytes 32"

section \<open>Results\<close>

text \<open>\<open>e?\<close> inside a function that returns a \<open>Result\<close>, and \<open>Option::ok_or\<close>.\<close>

definition and_then :: "'e + 'a \<Rightarrow> ('a \<Rightarrow> 'e + 'b) \<Rightarrow> 'e + 'b" where
  "and_then r k = (case r of Inl e \<Rightarrow> Inl e | Inr x \<Rightarrow> k x)"

definition ok_or :: "'a option \<Rightarrow> 'e \<Rightarrow> 'e + 'a" where
  "ok_or x e = (case x of None \<Rightarrow> Inl e | Some v \<Rightarrow> Inr v)"

text \<open>\<open>ensure!(b, e)\<close> followed by the rest of the function.\<close>

definition ensure :: "bool \<Rightarrow> 'e \<Rightarrow> 'e + 'a \<Rightarrow> 'e + 'a" where
  "ensure b e r = (if b then r else Inl e)"

section \<open>Slices and queues\<close>

text \<open>\<open>Iterator::position\<close>\<close>

fun position :: "('a \<Rightarrow> bool) \<Rightarrow> 'a list \<Rightarrow> nat option" where
  "position P [] = None"
| "position P (x # xs) = (if P x then Some 0 else map_option Suc (position P xs))"

text \<open>\<open>Vec::swap_remove\<close>: the last element takes the place of the removed one.\<close>

definition swap_remove :: "nat \<Rightarrow> 'a list \<Rightarrow> 'a list" where
  "swap_remove i xs = butlast (xs[i := last xs])"

section \<open>Lemmas\<close>

lemma unat_max_value: "unat (- 1 :: 'a::len word) = 2 ^ LENGTH('a) - 1"
  by (simp add: unsigned_minus_1_eq_mask mask_eq_exp_minus_1)

lemma unat_less_2p: "unat (a :: 'a::len word) < 2 ^ LENGTH('a)"
  by (rule unsigned_less)

lemma unat_saturating_add [word_nat]:
  "unat (saturating_add (a::'a::len word) b) = min (unat a + unat b) (2 ^ LENGTH('a) - 1)"
  unfolding saturating_add_def
  by (auto simp: unat_word_ariths unat_max_value)

lemma unat_saturating_sub [word_nat]:
  "unat (saturating_sub (a::'a::len word) b) = unat a - unat b"
  unfolding saturating_sub_def by (auto simp: unat_sub word_le_nat_alt)

lemma unat_saturating_mul [word_nat]:
  "unat (saturating_mul (a::'a::len word) b) = min (unat a * unat b) (2 ^ LENGTH('a) - 1)"
  unfolding saturating_mul_def
  by (auto simp: unat_word_ariths unat_max_value)

lemma checked_add_Some [word_nat]:
  "checked_add (a::'a::len word) b = Some c \<longleftrightarrow> unat c = unat a + unat b"
proof (cases "unat a + unat b < 2 ^ LENGTH('a)")
  case True
  then show ?thesis by (auto simp: checked_add_def unat_word_ariths word_unat_eq_iff)
next
  case False
  with unat_less_2p [of c] have "unat c \<noteq> unat a + unat b" by metis
  with False show ?thesis by (simp add: checked_add_def)
qed

lemma word_less_add_1: "unat (b::'a::len word) + 1 < 2 ^ LENGTH('a) \<Longrightarrow> a \<le> b \<Longrightarrow> a < b + 1"
  by (simp add: word_less_nat_alt word_le_nat_alt unat_word_ariths)

lemma checked_add_SomeI:
  "checked_add (a::'a::len word) b = Some c \<longleftrightarrow> c = a + b \<and> unat a + unat b < 2 ^ LENGTH('a)"
  by (auto simp: checked_add_def)

lemma checked_sub_Some [word_nat]:
  "checked_sub (a::'a::len word) b = Some c \<longleftrightarrow> unat a = unat c + unat b"
  unfolding checked_sub_def
  by (auto simp: unat_sub word_le_nat_alt word_unat_eq_iff)

lemma checked_mul_Some [word_nat]:
  "checked_mul (a::'a::len word) b = Some c \<longleftrightarrow> unat c = unat a * unat b"
proof (cases "unat a * unat b < 2 ^ LENGTH('a)")
  case True
  then show ?thesis by (auto simp: checked_mul_def unat_word_ariths word_unat_eq_iff)
next
  case False
  with unat_less_2p [of c] have "unat c \<noteq> unat a * unat b" by metis
  with False show ?thesis by (simp add: checked_mul_def)
qed

lemma unat_len32 [word_nat]: "length xs < 2 ^ 32 \<Longrightarrow> unat (len32 xs) = length xs"
  by (simp add: len32_def unat_of_nat)

lemma unat_len64 [word_nat]: "length xs < 2 ^ 64 \<Longrightarrow> unat (len64 xs) = length xs"
  by (simp add: len64_def unat_of_nat)

subsection \<open>Byte encodings are injective at the full width\<close>

lemma length_le_bytes [simp]: "length (le_bytes n w) = n"
  by (simp add: le_bytes_def)

lemma length_be_bytes [simp]: "length (be_bytes n w) = n"
  by (simp add: be_bytes_def)

lemma length_u64_to_le_bytes [simp]: "length (u64_to_le_bytes w) = 8"
  by (simp add: u64_to_le_bytes_def)

lemma length_u64_to_be_bytes [simp]: "length (u64_to_be_bytes w) = 8"
  by (simp add: u64_to_be_bytes_def)

lemma length_as_bytes [simp]: "length (as_bytes h) = 32"
  by (simp add: as_bytes_def)

lemma bit_of_le_bytes:
  fixes w :: "'a::len word"
  assumes "k < 8 * n"
  shows "bit (le_bytes n w ! (k div 8)) (k mod 8) = bit w k"
proof -
  have "k div 8 < n" using assms by simp
  then show ?thesis
    by (auto simp: le_bytes_def bit_simps ac_simps)
qed

lemma le_bytes_inject:
  fixes w v :: "'a::len word"
  assumes "LENGTH('a) \<le> 8 * n"
  shows "le_bytes n w = le_bytes n v \<longleftrightarrow> w = v"
proof
  assume eq: "le_bytes n w = le_bytes n v"
  show "w = v"
  proof (rule bit_word_eqI)
    fix k assume "k < LENGTH('a)"
    with assms have "k < 8 * n" by simp
    then show "bit w k = bit v k"
      using bit_of_le_bytes [of k n w] bit_of_le_bytes [of k n v] eq by simp
  qed
qed simp

lemma u64_to_le_bytes_inject [simp]: "u64_to_le_bytes a = u64_to_le_bytes b \<longleftrightarrow> a = b"
  by (simp add: u64_to_le_bytes_def le_bytes_inject)

lemma u64_to_be_bytes_inject [simp]: "u64_to_be_bytes a = u64_to_be_bytes b \<longleftrightarrow> a = b"
  by (simp add: u64_to_be_bytes_def be_bytes_def le_bytes_inject)

lemma as_bytes_inject [simp]: "as_bytes a = as_bytes b \<longleftrightarrow> a = b"
  by (simp add: as_bytes_def be_bytes_def le_bytes_inject)

subsection \<open>Results\<close>

lemma and_then_Inr [res_simps]: "and_then r k = Inr y \<longleftrightarrow> (\<exists>x. r = Inr x \<and> k x = Inr y)"
  by (cases r) (auto simp: and_then_def)

lemma and_then_Inl [res_simps]:
  "and_then r k = Inl e \<longleftrightarrow> r = Inl e \<or> (\<exists>x. r = Inr x \<and> k x = Inl e)"
  by (cases r) (auto simp: and_then_def)

lemma and_then_simps [simp]: "and_then (Inl e) k = Inl e" "and_then (Inr x) k = k x"
  by (simp_all add: and_then_def)

lemma ok_or_Inr [res_simps]: "ok_or x e = Inr v \<longleftrightarrow> x = Some v"
  by (cases x) (auto simp: ok_or_def)

lemma ok_or_Inl [res_simps]: "ok_or x e = Inl e' \<longleftrightarrow> x = None \<and> e' = e"
  by (cases x) (auto simp: ok_or_def)

lemma ok_or_simps [simp]: "ok_or None e = Inl e" "ok_or (Some v) e = Inr v"
  by (simp_all add: ok_or_def)

lemma ensure_Inr [res_simps]: "ensure b e r = Inr x \<longleftrightarrow> b \<and> r = Inr x"
  by (simp add: ensure_def)

lemma ensure_Inl [res_simps]: "ensure b e r = Inl e' \<longleftrightarrow> (\<not> b \<and> e' = e) \<or> (b \<and> r = Inl e')"
  by (auto simp: ensure_def)

lemma ensure_simps [simp]: "ensure True e r = r" "ensure False e r = Inl e"
  by (simp_all add: ensure_def)

subsection \<open>Slices\<close>

lemma position_Some:
  "position P xs = Some i \<Longrightarrow> i < length xs \<and> P (xs ! i) \<and> (\<forall>j<i. \<not> P (xs ! j))"
  by (induction xs arbitrary: i) (auto split: if_splits simp: less_Suc_eq_0_disj)

lemma position_None: "position P xs = None \<longleftrightarrow> (\<forall>x\<in>set xs. \<not> P x)"
  by (induction xs) auto

lemma mset_swap_remove:
  assumes "i < length xs"
  shows "mset (swap_remove i xs) = mset xs - {#xs ! i#}"
proof (cases xs rule: rev_cases)
  case Nil
  with assms show ?thesis by simp
next
  case (snoc ys y)
  show ?thesis
  proof (cases "i < length ys")
    case True
    then have "mset (ys[i := y]) = add_mset y (mset ys - {#ys ! i#})"
      by (rule mset_update)
    moreover have "ys ! i \<in># mset ys" using True by simp
    ultimately show ?thesis using True snoc
      by (simp add: swap_remove_def list_update_append nth_append)
  next
    case False
    with assms snoc have "i = length ys" by simp
    with snoc show ?thesis by (simp add: swap_remove_def)
  qed
qed

lemma distinct_swap_remove:
  assumes "distinct xs" and "i < length xs"
  shows "distinct (swap_remove i xs)" and "set (swap_remove i xs) = set xs - {xs ! i}"
proof -
  have m: "mset (swap_remove i xs) = mset xs - {#xs ! i#}"
    using assms(2) by (rule mset_swap_remove)
  then have e: "mset (swap_remove i xs) = mset (remove1 (xs ! i) xs)"
    by (simp only: mset_remove1)
  from assms(1) have "distinct (remove1 (xs ! i) xs)" by (rule distinct_remove1)
  with mset_eq_imp_distinct_iff [OF e] show "distinct (swap_remove i xs)" by simp
  from e have "set (swap_remove i xs) = set (remove1 (xs ! i) xs)"
    by (rule mset_eq_setD)
  then show "set (swap_remove i xs) = set xs - {xs ! i}"
    using assms(1) by simp
qed

end
