(* ===== verification/Primitives.thy ===== *)
theory Primitives
  imports Prelude
begin

text \<open>
  The crate \<open>primitives/attestor\<close>: attestors and attestations, the quorum arithmetic, the
  attestation digest, and the continuity proofs of \<open>block.rs\<close>.  Keccak-256 (the crate
  \<open>sha3\<close>) is the parameter \<open>kc\<close> of every definition that hashes.  Additions of block
  numbers wrap, as the release profile compiles them.  \<open>usize\<close> has \<open>w\<close> bits: the same
  crate is compiled for the wasm32 runtime and for 64-bit hosts, so a cast to \<open>usize\<close>
  reduces modulo \<open>2 ^ w\<close>.
\<close>

section \<open>Data\<close>

type_synonym ChainId = u64
type_synonym ChainKey = u64
type_synonym ChainAttestationIntervalType = u64
type_synonym Digest = H256
type_synonym Height = u64
type_synonym Round = "ChainKey \<times> Height"
type_synonym BlsPublicKey = "384 word"
type_synonym BlsSignature = "768 word"
type_synonym AccountId = "256 word"
type_synonym keccak = "bytes \<Rightarrow> H256"

datatype AttestorStatus = Active | Idle | Waiting | Leaving

definition is_active :: "AttestorStatus \<Rightarrow> bool" where
  "is_active st = (case st of Active \<Rightarrow> True | _ \<Rightarrow> False)"

record Attestor =
  bls_public_key :: "BlsPublicKey option"
  status :: AttestorStatus
  stash :: AccountId

datatype ChainEncodingVersion = V1

record AttestationData =
  att_chain_key :: ChainKey
  att_header_number :: Height
  att_header_hash :: Digest
  att_root :: H256
  att_prev_digest :: "Digest option"

record AttestationCheckpoint =
  cp_block_number :: Height
  cp_digest :: Digest

record Block =
  blk_number :: u64
  blk_root :: H256
  blk_prev_digest :: H256
  blk_digest :: H256

datatype BlockError = BlockNumberMismatch u64 | Empty u64

record BlockSerializable =
  bs_block_number :: u64
  bs_root :: H256

record ContinuityBlock =
  merkle_root :: H256
  cb_digest :: H256

record ContinuityProof =
  lower_endpoint_digest :: H256
  roots :: "H256 list"

record SignedAttestation =
  attestation :: AttestationData
  signature :: BlsSignature
  attestors :: "AccountId list"
  continuity_proof :: ContinuityProof

record AttestationChainConfiguration =
  cfg_chain_key :: ChainKey
  cfg_attestation_interval :: ChainAttestationIntervalType
  cfg_attestations_per_checkpoint :: u32
  cfg_target_sample_size :: u32
  cfg_checkpoints :: "AttestationCheckpoint list"

section \<open>Casts to usize\<close>

definition as_usize :: "nat \<Rightarrow> u64 \<Rightarrow> nat" where
  "as_usize w x = unat x mod 2 ^ w"

section \<open>Quorum\<close>

definition calculate_threshold :: "u32 \<Rightarrow> u32" where
  "calculate_threshold active_attestors = saturating_mul active_attestors 2 div 3 + 1"

definition calculate_quorum :: "u32 \<Rightarrow> u32" where
  "calculate_quorum active_attestors = calculate_threshold active_attestors"

section \<open>Digests and messages\<close>

definition compute_digest_for :: "keccak \<Rightarrow> u64 \<Rightarrow> H256 \<Rightarrow> H256 option \<Rightarrow> H256" where
  "compute_digest_for kc n r p =
     kc (u64_to_be_bytes n @ as_bytes r @ (case p of None \<Rightarrow> [] | Some d \<Rightarrow> as_bytes d))"

definition att_serialize :: "AttestationData \<Rightarrow> bytes" where
  "att_serialize d =
     u64_to_le_bytes (att_chain_key d) @ u64_to_le_bytes (att_header_number d)
     @ as_bytes (att_header_hash d) @ as_bytes (att_root d)
     @ (case att_prev_digest d of None \<Rightarrow> [] | Some p \<Rightarrow> as_bytes p)"

definition att_digest :: "keccak \<Rightarrow> AttestationData \<Rightarrow> Digest" where
  "att_digest kc d = compute_digest_for kc (att_header_number d) (att_root d) (att_prev_digest d)"

definition att_round :: "AttestationData \<Rightarrow> Round" where
  "att_round d = (att_chain_key d, att_header_number d)"

definition sa_chain_key :: "SignedAttestation \<Rightarrow> ChainKey" where
  "sa_chain_key a = att_chain_key (attestation a)"

definition sa_header_number :: "SignedAttestation \<Rightarrow> Height" where
  "sa_header_number a = att_header_number (attestation a)"

definition sa_digest :: "keccak \<Rightarrow> SignedAttestation \<Rightarrow> Digest" where
  "sa_digest kc a = att_digest kc (attestation a)"

definition sa_prev_digest :: "SignedAttestation \<Rightarrow> Digest option" where
  "sa_prev_digest a = att_prev_digest (attestation a)"

text \<open>The ASCII bytes of \<open>CC3:ATTESTOR:POP:v1\<close>.\<close>

definition POP_DOMAIN_V1 :: bytes where
  "POP_DOMAIN_V1 =
     [67, 67, 51, 58, 65, 84, 84, 69, 83, 84, 79, 82, 58, 80, 79, 80, 58, 118, 49]"

definition proof_of_possession_message :: "ChainKey \<Rightarrow> bytes \<Rightarrow> BlsPublicKey \<Rightarrow> bytes" where
  "proof_of_possession_message ck attestor_id key =
     POP_DOMAIN_V1 @ u64_to_le_bytes ck @ attestor_id @ be_bytes 48 key"

section \<open>Blocks\<close>

definition hash_payload :: "keccak \<Rightarrow> u64 \<Rightarrow> H256 \<Rightarrow> H256 \<Rightarrow> H256" where
  "hash_payload kc n r prev = compute_digest_for kc n r (Some prev)"

definition Block_new_from_prev_digest :: "keccak \<Rightarrow> u64 \<Rightarrow> H256 \<Rightarrow> H256 \<Rightarrow> Block" where
  "Block_new_from_prev_digest kc n r prev =
     \<lparr>blk_number = n, blk_root = r, blk_prev_digest = prev, blk_digest = hash_payload kc n r prev\<rparr>"

definition Block_new :: "keccak \<Rightarrow> u64 \<Rightarrow> H256 \<Rightarrow> Block" where
  "Block_new kc n r =
     \<lparr>blk_number = n, blk_root = r, blk_prev_digest = 0, blk_digest = hash_payload kc n r 0\<rparr>"

definition Block_new_from_digest :: "u64 \<Rightarrow> H256 \<Rightarrow> H256 \<Rightarrow> Block" where
  "Block_new_from_digest n r d =
     \<lparr>blk_number = n, blk_root = 0, blk_prev_digest = 0, blk_digest = d\<rparr>"

definition try_from_previous :: "keccak \<Rightarrow> Block \<Rightarrow> Block \<Rightarrow> BlockError + Block" where
  "try_from_previous kc prev b =
     (if blk_number b \<noteq> blk_number prev + 1 then Inl (BlockNumberMismatch (blk_number b))
      else Inr \<lparr>blk_number = blk_number b, blk_root = blk_root b,
                blk_prev_digest = blk_digest prev,
                blk_digest = hash_payload kc (blk_number b) (blk_root b) (blk_digest prev)\<rparr>)"

definition created_from_empty :: "Block \<Rightarrow> bool" where
  "created_from_empty b \<longleftrightarrow> blk_root b = 0"

definition to_serializable :: "Block \<Rightarrow> BlockSerializable" where
  "to_serializable b = \<lparr>bs_block_number = blk_number b, bs_root = blk_root b\<rparr>"

definition from_serializable_with_prev :: "keccak \<Rightarrow> BlockSerializable \<Rightarrow> H256 \<Rightarrow> Block" where
  "from_serializable_with_prev kc v prev =
     \<lparr>blk_number = bs_block_number v, blk_root = bs_root v, blk_prev_digest = prev,
      blk_digest = hash_payload kc (bs_block_number v) (bs_root v) prev\<rparr>"

definition to_continuity_block :: "keccak \<Rightarrow> BlockSerializable \<Rightarrow> H256 \<Rightarrow> ContinuityBlock" where
  "to_continuity_block kc v prev =
     \<lparr>merkle_root = bs_root v, cb_digest = hash_payload kc (bs_block_number v) (bs_root v) prev\<rparr>"

section \<open>Continuity proofs\<close>

definition digest_at :: "keccak \<Rightarrow> ContinuityProof \<Rightarrow> u64 \<Rightarrow> nat \<Rightarrow> H256 option" where
  "digest_at kc p start index =
     (if length (roots p) \<le> index then None
      else Some (fold (\<lambda>i prev. hash_payload kc (start + of_nat i) (roots p ! i) prev)
                   [0..<Suc index] (lower_endpoint_digest p)))"

definition digest_for_block ::
  "nat \<Rightarrow> keccak \<Rightarrow> ContinuityProof \<Rightarrow> u64 \<Rightarrow> u64 \<Rightarrow> H256 option" where
  "digest_for_block w kc p start n =
     (if n < start then None else digest_at kc p start (as_usize w (n - start)))"

definition from_blocks :: "Block list \<Rightarrow> ContinuityProof" where
  "from_blocks bs =
     (case bs of
        [] \<Rightarrow> \<lparr>lower_endpoint_digest = 0, roots = []\<rparr>
      | b # _ \<Rightarrow> \<lparr>lower_endpoint_digest = blk_prev_digest b, roots = map blk_root bs\<rparr>)"

fun to_blocks_loop :: "keccak \<Rightarrow> u64 \<Rightarrow> nat \<Rightarrow> H256 \<Rightarrow> H256 list \<Rightarrow> Block list" where
  "to_blocks_loop kc start idx prev [] = []"
| "to_blocks_loop kc start idx prev (r # rs) =
     (let n = start + of_nat idx; d = hash_payload kc n r prev
      in \<lparr>blk_number = n, blk_root = r, blk_prev_digest = prev, blk_digest = d\<rparr>
         # to_blocks_loop kc start (Suc idx) d rs)"

definition to_blocks :: "keccak \<Rightarrow> ContinuityProof \<Rightarrow> u64 \<Rightarrow> Block list" where
  "to_blocks kc p start = to_blocks_loop kc start 0 (lower_endpoint_digest p) (roots p)"

definition compute_continuity_digest :: "keccak \<Rightarrow> ContinuityProof \<Rightarrow> u64 \<Rightarrow> H256" where
  "compute_continuity_digest kc p start =
     fold (\<lambda>(i, r) d. hash_payload kc (start + of_nat i) r d)
       (List.enumerate 0 (roots p)) (lower_endpoint_digest p)"

definition start_block_number :: "ContinuityProof \<Rightarrow> u64 \<Rightarrow> u64" where
  "start_block_number p header = saturating_sub header (len64 (roots p))"

definition tail_prev_digest :: "ContinuityProof \<Rightarrow> H256 option" where
  "tail_prev_digest p = (if roots p = [] then None else Some (lower_endpoint_digest p))"

fun block_digests_loop ::
  "keccak \<Rightarrow> u64 \<Rightarrow> nat \<Rightarrow> H256 \<Rightarrow> H256 list \<Rightarrow> (u64 \<rightharpoonup> H256) \<Rightarrow> (u64 \<rightharpoonup> H256)" where
  "block_digests_loop kc start i prev [] m = m"
| "block_digests_loop kc start i prev (r # rs) m =
     (let n = start + of_nat i; d = hash_payload kc n r prev
      in block_digests_loop kc start (Suc i) d rs (m(n \<mapsto> d)))"

definition block_digests :: "keccak \<Rightarrow> ContinuityProof \<Rightarrow> u64 \<Rightarrow> (u64 \<rightharpoonup> H256)" where
  "block_digests kc p start =
     block_digests_loop kc start 0 (lower_endpoint_digest p) (roots p) Map.empty"

definition find_query_block_index ::
  "nat \<Rightarrow> ContinuityProof \<Rightarrow> u64 \<Rightarrow> u64 \<Rightarrow> nat option" where
  "find_query_block_index w p start q =
     (if roots p = [] then None
      else let first = start; last = start + of_nat (length (roots p) - 1)
           in if first \<le> q \<and> q \<le> last
              then let index = as_usize w (q - first)
                   in if index < length (roots p) then Some index else None
              else None)"


section \<open>Quorum rules\<close>

text \<open>
  What the pallet and the attestor node both rely on: a rule that turns the size of the
  committee into a number of signers that is reachable and more than two thirds.
\<close>

locale quorum_rule =
  fixes thr :: "nat \<Rightarrow> nat" and bound :: nat
  assumes two_thirds: "n \<le> bound \<Longrightarrow> 2 * n < 3 * thr n"
    and reachable: "0 < n \<Longrightarrow> n \<le> bound \<Longrightarrow> thr n \<le> n"
begin

lemma overlap_exceeds_third:
  assumes "finite S" and "card S \<le> bound" and "A \<subseteq> S" and "B \<subseteq> S"
    and "thr (card S) \<le> card A" and "thr (card S) \<le> card B"
  shows "card S < 3 * card (A \<inter> B)"
proof -
  have fin: "finite A" "finite B" using assms(1,3,4) by (auto intro: finite_subset)
  have "card (A \<union> B) \<le> card S" using assms(1,3,4) by (simp add: card_mono)
  moreover have "card A + card B = card (A \<union> B) + card (A \<inter> B)"
    using fin by (rule card_Un_Int)
  moreover have "2 * card S < 3 * thr (card S)" using assms(2) by (rule two_thirds)
  ultimately show ?thesis using assms(5,6) by linarith
qed

lemma quorum_nonempty: "n \<le> bound \<Longrightarrow> 0 < thr n"
  using two_thirds [of n] by simp

end

lemma unat_calculate_threshold:
  "unat (calculate_threshold n) = min (2 * unat n) (2 ^ 32 - 1) div 3 + 1"
proof -
  have "unat (saturating_mul n 2 div 3) = min (2 * unat n) (2 ^ 32 - 1) div 3"
    by (simp add: unat_div unat_saturating_mul mult.commute)
  moreover have "min (2 * unat n) (2 ^ 32 - 1) div 3 + 1 < 2 ^ 32" by simp
  ultimately show ?thesis
    by (simp add: calculate_threshold_def unat_word_ariths)
qed

interpretation chain_quorum: quorum_rule "\<lambda>n. unat (calculate_quorum (of_nat n))" "2 ^ 31 - 1"
proof (unfold_locales, goal_cases)
  case (1 n)
  then have "unat (of_nat n :: u32) = n" by (simp add: unat_of_nat)
  with 1 show ?case
    by (simp add: calculate_quorum_def unat_calculate_threshold)
next
  case (2 n)
  then have "unat (of_nat n :: u32) = n" by (simp add: unat_of_nat)
  with 2 show ?case
    by (simp add: calculate_quorum_def unat_calculate_threshold)
qed

section \<open>Digest chains\<close>

text \<open>
  The specification of the several loops over the roots of a proof: the digest that follows
  from \<open>d\<close> when the blocks \<open>n\<close>, \<open>n + 1\<close>, \dots carry the given roots.
\<close>

fun digest_chain :: "keccak \<Rightarrow> u64 \<Rightarrow> H256 \<Rightarrow> H256 list \<Rightarrow> H256" where
  "digest_chain kc n d [] = d"
| "digest_chain kc n d (r # rs) = digest_chain kc (n + 1) (hash_payload kc n r d) rs"

definition payload :: "u64 \<Rightarrow> H256 \<Rightarrow> H256 \<Rightarrow> bytes" where
  "payload n r d = u64_to_be_bytes n @ as_bytes r @ as_bytes d"

text \<open>The byte strings that Keccak is applied to along a chain.\<close>

fun chain_inputs :: "keccak \<Rightarrow> u64 \<Rightarrow> H256 \<Rightarrow> H256 list \<Rightarrow> bytes set" where
  "chain_inputs kc n d [] = {}"
| "chain_inputs kc n d (r # rs) =
     insert (payload n r d) (chain_inputs kc (n + 1) (hash_payload kc n r d) rs)"

lemma hash_payload_alt: "hash_payload kc n r d = kc (payload n r d)"
  by (simp add: hash_payload_def compute_digest_for_def payload_def)

lemma payload_inject [simp]: "payload n r d = payload n' r' d' \<longleftrightarrow> n = n' \<and> r = r' \<and> d = d'"
  by (auto simp: payload_def)

lemma digest_chain_append:
  "digest_chain kc n d (xs @ ys) =
     digest_chain kc (n + of_nat (length xs)) (digest_chain kc n d xs) ys"
  by (induction xs arbitrary: n d) (simp_all add: ac_simps)

lemma chain_inputs_append:
  "chain_inputs kc n d (xs @ ys) =
     chain_inputs kc n d xs \<union>
     chain_inputs kc (n + of_nat (length xs)) (digest_chain kc n d xs) ys"
  by (induction xs arbitrary: n d) (simp_all add: ac_simps)

lemma fold_enumerate_chain:
  "fold (\<lambda>(i, r) d. hash_payload kc (start + of_nat i) r d) (List.enumerate k rs) d =
     digest_chain kc (start + of_nat k) d rs"
  by (induction rs arbitrary: k d) (simp_all add: ac_simps)

lemma compute_continuity_digest_chain:
  "compute_continuity_digest kc p start =
     digest_chain kc start (lower_endpoint_digest p) (roots p)"
  using fold_enumerate_chain [where k = 0] by (simp add: compute_continuity_digest_def)

lemma fold_upt_chain:
  "m \<le> length rs \<Longrightarrow>
     fold (\<lambda>i prev. hash_payload kc (start + of_nat i) (rs ! i) prev) [0..<m] d =
     digest_chain kc start d (take m rs)"
  by (induction m) (simp_all add: take_Suc_conv_app_nth digest_chain_append)

lemma digest_at_chain:
  "i < length (roots p) \<Longrightarrow>
     digest_at kc p start i =
     Some (digest_chain kc start (lower_endpoint_digest p) (take (Suc i) (roots p)))"
  by (simp only: digest_at_def fold_upt_chain [symmetric] not_le [symmetric] if_False Suc_leI)

lemma digest_at_None: "digest_at kc p start i = None \<longleftrightarrow> length (roots p) \<le> i"
  by (simp add: digest_at_def)

text \<open>Two chains of the same length with the same end have the same roots and start.\<close>

lemma digest_chain_inject:
  assumes "length rs = length rs'"
    and "digest_chain kc n d rs = digest_chain kc n d' rs'"
    and "inj_on kc (chain_inputs kc n d rs \<union> chain_inputs kc n d' rs')"
  shows "rs = rs' \<and> d = d'"
  using assms
proof (induction rs rs' arbitrary: n d d' rule: list_induct2)
  case Nil
  then show ?case by simp
next
  case (Cons r rs r' rs')
  let ?e = "hash_payload kc n r d" and ?e' = "hash_payload kc n r' d'"
  have "inj_on kc (chain_inputs kc (n + 1) ?e rs \<union> chain_inputs kc (n + 1) ?e' rs')"
    using Cons.prems(2) by (rule inj_on_subset) auto
  with Cons.IH Cons.prems(1) have "rs = rs'" and "?e = ?e'" by simp_all
  moreover have "payload n r d = payload n r' d'"
    using Cons.prems(2) \<open>?e = ?e'\<close> unfolding hash_payload_alt by (rule inj_onD) simp_all
  ultimately show ?case by simp
qed

text \<open>Of two chains with the same end, the shorter one is the end of the longer one.\<close>

lemma digest_chain_suffix:
  assumes "length rs \<le> length rs'" and "digest_chain kc n d rs = digest_chain kc n' d' rs'"
    and "inj_on kc (chain_inputs kc n d rs \<union> chain_inputs kc n' d' rs')"
  shows "rs = drop (length rs' - length rs) rs' \<and> d = digest_chain kc n' d' (take (length rs' - length rs) rs') \<and>
    (rs \<noteq> [] \<longrightarrow> n = n' + of_nat (length rs' - length rs))"
  using assms
proof (induction rs arbitrary: rs' rule: rev_induct)
  case (snoc r rs)
  obtain ys y where y: "rs' = ys @ [y]" using snoc.prems(1) by (cases rs' rule: rev_cases) simp_all
  have le: "length rs \<le> length ys" using snoc.prems(1) y by simp
  let ?m = "length ys - length rs"
  have inj: "inj_on kc (chain_inputs kc n d rs \<union> chain_inputs kc n' d' ys)"
    using snoc.prems(3) unfolding y by (rule inj_on_subset) (auto simp: chain_inputs_append)
  have "payload (n + of_nat (length rs)) r (digest_chain kc n d rs) = payload (n' + of_nat (length ys)) y (digest_chain kc n' d' ys)"
    using snoc.prems(2) unfolding y digest_chain_append digest_chain.simps hash_payload_alt
    by (rule inj_onD [OF snoc.prems(3)]) (simp_all add: y chain_inputs_append)
  then have e: "n + of_nat (length rs) = n' + of_nat (length ys)" "r = y" "digest_chain kc n d rs = digest_chain kc n' d' ys"
    by simp_all
  have "n = n' + of_nat ?m" using e(1) le by (simp add: of_nat_diff algebra_simps)
  then show ?case using snoc.IH [OF le e(3) inj] e(2) le y by simp
qed simp

section \<open>Blocks of a proof\<close>

text \<open>A list of blocks numbered from \<open>n\<close> in which every digest follows from the one before.\<close>

fun linked :: "keccak \<Rightarrow> u64 \<Rightarrow> H256 \<Rightarrow> Block list \<Rightarrow> bool" where
  "linked kc n d [] = True"
| "linked kc n d (b # bs) =
     (blk_number b = n \<and> blk_prev_digest b = d \<and>
      blk_digest b = hash_payload kc n (blk_root b) d \<and> linked kc (n + 1) (blk_digest b) bs)"

lemma to_blocks_loop_linked:
  "linked kc (start + of_nat i) d (to_blocks_loop kc start i d rs)"
proof (induction rs arbitrary: i d)
  case (Cons r rs)
  have "linked kc (start + of_nat (Suc i)) (hash_payload kc (start + of_nat i) r d)
          (to_blocks_loop kc start (Suc i) (hash_payload kc (start + of_nat i) r d) rs)"
    by (rule Cons.IH)
  then show ?case by (simp add: Let_def ac_simps)
qed simp

lemma map_root_to_blocks_loop [simp]: "map blk_root (to_blocks_loop kc start i d rs) = rs"
  by (induction rs arbitrary: i d) (simp_all add: Let_def)

lemma length_to_blocks_loop [simp]: "length (to_blocks_loop kc start i d rs) = length rs"
  by (induction rs arbitrary: i d) (simp_all add: Let_def)

lemma linked_to_blocks_loop:
  "linked kc (start + of_nat i) d bs \<Longrightarrow> to_blocks_loop kc start i d (map blk_root bs) = bs"
proof (induction bs arbitrary: i d)
  case (Cons b bs)
  then have "linked kc (start + of_nat (Suc i)) (blk_digest b) bs" by (auto simp: ac_simps)
  from Cons.IH [OF this] Cons.prems show ?case by (simp add: Let_def)
qed simp

lemma nth_to_blocks_loop_digest:
  "j < length rs \<Longrightarrow>
     blk_digest (to_blocks_loop kc start i d rs ! j) =
     digest_chain kc (start + of_nat i) d (take (Suc j) rs)"
proof (induction rs arbitrary: i d j)
  case (Cons r rs)
  then show ?case
  proof (cases j)
    case (Suc k)
    with Cons.prems have "k < length rs" by simp
    from Cons.IH [OF this, of "Suc i"] Suc show ?thesis by (simp add: Let_def ac_simps)
  qed (simp add: Let_def)
qed simp

lemma block_digests_loop_other:
  "(\<And>j. j < length rs \<Longrightarrow> n \<noteq> start + of_nat (i + j)) \<Longrightarrow>
     block_digests_loop kc start i d rs m n = m n"
proof (induction rs arbitrary: i d m)
  case (Cons r rs)
  have "n \<noteq> start + of_nat i" using Cons.prems [of 0] by simp
  moreover have "n \<noteq> start + of_nat (Suc i + j)" if "j < length rs" for j
    using Cons.prems [of "Suc j"] that by (simp add: ac_simps)
  ultimately show ?case using Cons.IH [of "Suc i"] by (simp add: Let_def)
qed simp

lemma of_nat_u64_inject:
  "a < 2 ^ 64 \<Longrightarrow> b < 2 ^ 64 \<Longrightarrow> (of_nat a :: u64) = of_nat b \<longleftrightarrow> a = b"
  by (metis len64_def unat_len64 length_replicate)

lemma block_digests_loop_at:
  "j < length rs \<Longrightarrow> i + length rs \<le> 2 ^ 64 \<Longrightarrow>
     block_digests_loop kc start i d rs m (start + of_nat (i + j)) =
     Some (digest_chain kc (start + of_nat i) d (take (Suc j) rs))"
proof (induction rs arbitrary: i d j m)
  case (Cons r rs)
  show ?case
  proof (cases j)
    case 0
    have "(of_nat i :: u64) \<noteq> of_nat (Suc i + k)" if "k < length rs" for k
      using Cons.prems(2) that of_nat_u64_inject [of i "Suc i + k"] by simp
    then show ?thesis using 0
      by (simp only: block_digests_loop.simps Let_def add_0_right)
        (subst block_digests_loop_other, auto)
  next
    case (Suc k)
    with Cons.prems have "k < length rs" "Suc i + length rs \<le> 2 ^ 64" by simp_all
    from Cons.IH [OF this] Suc show ?thesis by (simp add: Let_def ac_simps)
  qed
qed simp


lemma unat_find_query_range:
  fixes start q :: u64
  assumes "0 < n" and "n \<le> 2 ^ 64" and "unat start + n \<le> 2 ^ 64"
  shows "start \<le> q \<and> q \<le> start + of_nat (n - 1) \<longleftrightarrow> unat start \<le> unat q \<and> unat q < unat start + n"
proof -
  obtain m where m: "n = Suc m" using assms(1) by (cases n) auto
  have "unat (of_nat m :: u64) = m" using assms(2) m by (simp add: unat_of_nat)
  then have "unat (start + of_nat m) = unat start + m"
    using assms(3) m by (simp add: unat_word_ariths)
  then show ?thesis using m by (auto simp: word_le_nat_alt)
qed

section \<open>Properties\<close>

text \<open>C8: Two sets of attestors that each reach the quorum of the same committee share more
  than a third of the committee, for every committee of fewer than \<open>2 ^ 31\<close> members; and the
  quorum of a non-empty committee is reachable by it.\<close>

theorem calculate_quorum_overlap:
  assumes "finite S" and "0 < card S" and "card S < 2 ^ 31" and "A \<subseteq> S" and "B \<subseteq> S"
    and "unat (calculate_quorum (of_nat (card S))) \<le> card A"
    and "unat (calculate_quorum (of_nat (card S))) \<le> card B"
  shows "card S < 3 * card (A \<inter> B) \<and> unat (calculate_quorum (of_nat (card S))) \<le> card S"
  using chain_quorum.overlap_exceeds_third [of S A B] chain_quorum.reachable [of "card S"] assms
  by simp

theorem calculate_quorum_overlap_witness:
  "card {1, 2, 3, 4::nat} < 3 * card ({1, 2, 3} \<inter> {2, 3, 4::nat}) \<and>
   unat (calculate_quorum (of_nat (card {1, 2, 3, 4::nat}))) \<le> card {1, 2, 3, 4::nat}"
  by (rule calculate_quorum_overlap)
    (simp_all add: calculate_quorum_def unat_calculate_threshold)

text \<open>C9: A continuity digest binds the end of the proof.  If two proofs, of any lengths and from any
  start blocks, reach the same digest, and Keccak does not collide on the payloads hashed on the
  way, then the shorter one is the end of the longer one: its roots are the last roots of the
  other, its lower endpoint is the digest that the other has reached there, and unless it is empty
  it starts at that block.  Proofs of the same length are therefore equal.\<close>

theorem continuity_digest_binds_roots:
  assumes "length (roots p) \<le> length (roots q)" and "m = length (roots q) - length (roots p)"
    and "compute_continuity_digest kc p start = compute_continuity_digest kc q start'"
    and "inj_on kc (chain_inputs kc start (lower_endpoint_digest p) (roots p) \<union>
                    chain_inputs kc start' (lower_endpoint_digest q) (roots q))"
  shows "roots p = drop m (roots q) \<and>
    lower_endpoint_digest p = compute_continuity_digest kc (q\<lparr>roots := take m (roots q)\<rparr>) start' \<and>
    (roots p \<noteq> [] \<longrightarrow> start = start' + of_nat m) \<and>
    (length (roots p) = length (roots q) \<longrightarrow> p = q)"
proof -
  have e: "roots p = drop m (roots q) \<and>
      lower_endpoint_digest p = digest_chain kc start' (lower_endpoint_digest q) (take m (roots q)) \<and>
      (roots p \<noteq> [] \<longrightarrow> start = start' + of_nat m)"
    using digest_chain_suffix [OF assms(1) _ assms(4)] assms(2,3) by (simp add: compute_continuity_digest_chain)
  moreover have "p = q" if "length (roots p) = length (roots q)"
  proof -
    have "m = 0" using that assms(2) by simp
    then show ?thesis using e by (intro ContinuityProof.equality) simp_all
  qed
  ultimately show ?thesis by (simp add: compute_continuity_digest_chain)
qed

theorem continuity_digest_binds_roots_witness:
  "\<exists>p q kc. compute_continuity_digest kc p 10 = compute_continuity_digest kc q 9 \<and> length (roots p) < length (roots q) \<and>
    roots p = drop 1 (roots q) \<and> lower_endpoint_digest p = compute_continuity_digest kc (q\<lparr>roots := take 1 (roots q)\<rparr>) 9"
proof -
  define kc :: keccak where "kc = (\<lambda>bs. if bs = payload 9 5 7 then 1 else 2)"
  let ?p = "\<lparr>lower_endpoint_digest = 1, roots = [6]\<rparr>" and ?q = "\<lparr>lower_endpoint_digest = 7, roots = [5, 6]\<rparr>"
  have c: "compute_continuity_digest kc ?p 10 = compute_continuity_digest kc ?q 9"
    by (simp add: compute_continuity_digest_chain hash_payload_alt kc_def)
  have "inj_on kc (chain_inputs kc 10 (lower_endpoint_digest ?p) (roots ?p) \<union>
      chain_inputs kc 9 (lower_endpoint_digest ?q) (roots ?q))"
    by (simp add: hash_payload_alt kc_def inj_on_def)
  from continuity_digest_binds_roots [OF _ _ c this, of 1] c show ?thesis
    by (intro exI [of _ ?p] exI [of _ ?q] exI [of _ kc]) simp
qed

text \<open>Proofs and block lists convert into each other without loss.  The blocks computed
  from a proof form an unbroken chain from its start, reading a non-empty proof back from them
  gives the proof, and rebuilding any unbroken chain of blocks from its proof gives the same
  blocks.\<close>

theorem continuity_proof_blocks_roundtrip:
  "linked kc start (lower_endpoint_digest p) (to_blocks kc p start) \<and>
   (roots p \<noteq> [] \<longrightarrow> from_blocks (to_blocks kc p start) = p) \<and>
   (bs \<noteq> [] \<and> linked kc n d bs \<longrightarrow> to_blocks kc (from_blocks bs) n = bs)"
proof (intro conjI impI)
  show "linked kc start (lower_endpoint_digest p) (to_blocks kc p start)"
    using to_blocks_loop_linked [of kc start 0] by (simp add: to_blocks_def)
  show "from_blocks (to_blocks kc p start) = p" if "roots p \<noteq> []"
    using that by (cases "roots p") (auto simp: to_blocks_def from_blocks_def Let_def)
  show "to_blocks kc (from_blocks bs) n = bs" if "bs \<noteq> [] \<and> linked kc n d bs"
    using that linked_to_blocks_loop [of kc n 0 d bs]
    by (cases bs) (auto simp: to_blocks_def from_blocks_def)
qed

theorem continuity_proof_blocks_roundtrip_witness:
  "from_blocks (to_blocks (\<lambda>_. 3) \<lparr>lower_endpoint_digest = 7, roots = [5, 6]\<rparr> 9) =
     \<lparr>lower_endpoint_digest = 7, roots = [5, 6]\<rparr> \<and>
   to_blocks (\<lambda>_. 3) (from_blocks (to_blocks (\<lambda>_. 3) \<lparr>lower_endpoint_digest = 7, roots = [5, 6]\<rparr> 9)) 9 =
     to_blocks (\<lambda>_. 3) \<lparr>lower_endpoint_digest = 7, roots = [5, 6]\<rparr> 9"
  using continuity_proof_blocks_roundtrip
      [of "\<lambda>_. 3" 9 "\<lparr>lower_endpoint_digest = 7, roots = [5, 6]\<rparr>"
        "to_blocks (\<lambda>_. 3) \<lparr>lower_endpoint_digest = 7, roots = [5, 6]\<rparr> 9" 9 7]
  by (simp add: to_blocks_def Let_def)

text \<open>The four ways the code computes a block's digest from a proof agree: for the block
  at index \<open>i\<close> of a proof that does not run past the last block number, \<open>digest_at\<close>,
  \<open>digest_for_block\<close>, the map of \<open>block_digests\<close> and the block list of \<open>to_blocks\<close> hold
  the same digest, and the whole proof's \<open>compute_continuity_digest\<close> is the one of the last
  index.\<close>

theorem continuity_digests_agree:
  assumes "i < length (roots p)" and "unat start + length (roots p) \<le> 2 ^ 64"
    and "length (roots p) \<le> 2 ^ w"
  shows "digest_at kc p start i = Some (blk_digest (to_blocks kc p start ! i)) \<and>
    digest_for_block w kc p start (start + of_nat i) = digest_at kc p start i \<and>
    block_digests kc p start (start + of_nat i) = digest_at kc p start i \<and>
    digest_at kc p start (length (roots p) - 1) = Some (compute_continuity_digest kc p start)"
proof (intro conjI)
  have lt: "i < 2 ^ 64" and un: "unat (of_nat i :: u64) = i"
    using assms(1,2) by (simp_all add: unat_of_nat)
  have ge: "\<not> start + of_nat i < start"
    using un assms(1,2) by (simp add: word_less_nat_alt unat_word_ariths)
  have us: "as_usize w (start + of_nat i - start) = i"
    using un assms(1,3) by (simp add: as_usize_def)
  show "digest_at kc p start i = Some (blk_digest (to_blocks kc p start ! i))"
    using assms(1) nth_to_blocks_loop_digest [of i "roots p" kc start 0]
    by (simp add: digest_at_chain to_blocks_def)
  show "digest_for_block w kc p start (start + of_nat i) = digest_at kc p start i"
    using ge us by (simp add: digest_for_block_def)
  show "block_digests kc p start (start + of_nat i) = digest_at kc p start i"
    using assms(1,2) block_digests_loop_at [of i "roots p" 0]
    by (simp add: digest_at_chain block_digests_def)
  show "digest_at kc p start (length (roots p) - 1) = Some (compute_continuity_digest kc p start)"
    using assms(1) by (simp add: digest_at_chain compute_continuity_digest_chain)
qed

theorem continuity_digests_agree_witness:
  "digest_for_block 32 (\<lambda>bs. of_nat (length bs)) \<lparr>lower_endpoint_digest = 7, roots = [5, 6]\<rparr> 9 10
     = Some 72"
  using continuity_digests_agree [THEN conjunct2,
      of 1 "\<lparr>lower_endpoint_digest = 7, roots = [5, 6]\<rparr>" 9 32 "\<lambda>bs. of_nat (length bs)"]
  by (simp add: compute_continuity_digest_chain hash_payload_alt payload_def)

text \<open>What attestors sign identifies what they attest to.  Two attestations with the same
  serialisation are equal, and two proof-of-possession messages for 32-byte account ids are
  equal only for the same chain, the same claimant and the same key.\<close>

theorem signed_messages_inject:
  "(att_serialize a = att_serialize b \<longleftrightarrow> a = b) \<and>
   (proof_of_possession_message ck (as_bytes x) key = proof_of_possession_message ck' (as_bytes y) key'
      \<longleftrightarrow> ck = ck' \<and> x = y \<and> key = key')"
proof
  show "att_serialize a = att_serialize b \<longleftrightarrow> a = b"
    by (cases a; cases b)
      (auto simp: att_serialize_def split: option.splits dest: arg_cong [where f = length])
  show "proof_of_possession_message ck (as_bytes x) key =
      proof_of_possession_message ck' (as_bytes y) key' \<longleftrightarrow> ck = ck' \<and> x = y \<and> key = key'"
    by (auto simp: proof_of_possession_message_def be_bytes_def le_bytes_inject)
qed

lemma find_query_block_index_iff:
  assumes "unat start + length (roots p) \<le> 2 ^ 64" and "length (roots p) \<le> 2 ^ w"
  shows "find_query_block_index w p start q = Some i \<longleftrightarrow>
    i < length (roots p) \<and> unat q = unat start + i"
proof (cases "roots p = []")
  case False
  let ?n = "length (roots p)"
  have r: "start \<le> q \<and> q \<le> start + of_nat (?n - 1) \<longleftrightarrow> unat start \<le> unat q \<and> unat q < unat start + ?n"
    using False assms(1) by (intro unat_find_query_range) auto
  have "as_usize w (q - start) = unat q - unat start"
    if "unat start \<le> unat q" "unat q < unat start + ?n"
    using that assms(2) by (simp add: as_usize_def unat_sub word_le_nat_alt)
  with False r show ?thesis
    by (auto simp: find_query_block_index_def Let_def)
qed (simp add: find_query_block_index_def)

text \<open>\<open>find_query_block_index\<close> returns the position of the query height exactly when the
  height is one of the proof's blocks, provided the proof does not run past the last block
  number.\<close>

theorem find_query_block_index_correct:
  assumes "unat start + length (roots p) \<le> 2 ^ 64" and "length (roots p) \<le> 2 ^ w"
  shows "find_query_block_index w p start q = Some i \<longleftrightarrow>
    i < length (roots p) \<and> unat q = unat start + i"
  using assms by (rule find_query_block_index_iff)

theorem find_query_block_index_correct_witness:
  "find_query_block_index 32 \<lparr>lower_endpoint_digest = 7, roots = [5, 6]\<rparr> 9 10 = Some 1"
  using find_query_block_index_correct
      [of 9 "\<lparr>lower_endpoint_digest = 7, roots = [5, 6]\<rparr>" 32 10 1]
  by simp

end
