(* ===== verification/Merkle.thy ===== *)
theory Merkle
  imports Primitives
begin

text \<open>The transaction Merkle tree of \<open>common/merkle\<close>: leaf and inner hashing with their domain
  separation bytes (\<open>keccak.rs\<close>), the level-by-level construction of the tree and the
  extraction of an inclusion proof (\<open>keccak_merkle_tree.rs\<close>), and the verification of a proof
  (\<open>proof.rs\<close>).  The keccak function is a parameter.

  The properties are that every generated proof verifies, that a proof that verifies against the
  root of a tree is the generated proof of one of its leaves (as long as the hash does not
  collide on the values actually hashed and none of them hashes to the zero padding), and that
  an index out of range is the only error.\<close>

section \<open>Hashing\<close>

definition LEAF_HASH_PREPEND_VALUE :: u8 where
  "LEAF_HASH_PREPEND_VALUE = 0"

definition INNER_HASH_PREPEND_VALUE :: u8 where
  "INNER_HASH_PREPEND_VALUE = 1"

definition hash_leaf :: "keccak \<Rightarrow> bytes \<Rightarrow> H256" where
  "hash_leaf kc input = kc (LEAF_HASH_PREPEND_VALUE # input)"

definition hash_inner :: "keccak \<Rightarrow> bytes \<Rightarrow> bytes \<Rightarrow> H256" where
  "hash_inner kc left right = kc (INNER_HASH_PREPEND_VALUE # left @ right)"

section \<open>Proofs\<close>

record MerkleProofEntry =
  me_hash :: H256
  is_left :: bool

record TransactionMerkleProof =
  mp_root :: H256
  siblings :: "MerkleProofEntry list"

text \<open>One round of the loop of \<open>verify\<close>: the sibling on its side of the current hash.\<close>

definition climb :: "keccak \<Rightarrow> H256 \<Rightarrow> MerkleProofEntry \<Rightarrow> H256" where
  "climb kc current_hash entry =
    (let (left, right) =
       (if is_left entry then (as_bytes (me_hash entry), as_bytes current_hash)
        else (as_bytes current_hash, as_bytes (me_hash entry)))
     in hash_inner kc left right)"

definition verify :: "keccak \<Rightarrow> TransactionMerkleProof \<Rightarrow> bytes \<Rightarrow> bool" where
  "verify kc p tx_data = (foldl (climb kc) (hash_leaf kc tx_data) (siblings p) = mp_root p)"

definition mp_levels :: "TransactionMerkleProof \<Rightarrow> nat" where
  "mp_levels p = length (siblings p)"

definition is_single_transaction :: "TransactionMerkleProof \<Rightarrow> bool" where
  "is_single_transaction p = (siblings p = [])"

section \<open>The tree\<close>

datatype MerkleTreeError = IndexOutOfRange (index: nat) (max_index: nat)

record KeccakMerkleTree =
  levels :: "H256 list list"

definition PAD_HASH :: H256 where
  "PAD_HASH = 0"

text \<open>\<open>get_or_pad\<close> is \<open>level.get(i).unwrap_or(&PAD_HASH)\<close>.\<close>

definition get_or_pad :: "H256 list \<Rightarrow> nat \<Rightarrow> H256" where
  "get_or_pad level i = (if i < length level then level ! i else PAD_HASH)"

definition next_level :: "keccak \<Rightarrow> H256 list \<Rightarrow> H256 list" where
  "next_level kc current_level =
    (let current_len = length current_level in
     if current_len > 1 then
       map (\<lambda>i. hash_inner kc (as_bytes (current_level ! i)) (as_bytes (get_or_pad current_level (i + 1))))
         (map (\<lambda>k. 2 * k) [0..<(current_len + 1) div 2])
     else [])"

lemma length_next_level:
  "length (next_level kc l) = (if length l > 1 then (length l + 1) div 2 else 0)"
  by (simp add: next_level_def Let_def)

function build_levels :: "keccak \<Rightarrow> H256 list \<Rightarrow> H256 list list" where
  "build_levels kc current_level =
    (if current_level = [] then []
     else current_level # build_levels kc (next_level kc current_level))"
  by auto
termination
  by (relation "measure (length \<circ> snd)") (auto simp: length_next_level)

declare build_levels.simps [simp del]

definition tree_new :: "keccak \<Rightarrow> bytes list \<Rightarrow> KeccakMerkleTree" where
  "tree_new kc items = \<lparr>levels = build_levels kc (map (hash_leaf kc) items)\<rparr>"

text \<open>The root is the first entry of the last level; both \<open>last()\<close> and \<open>first()\<close> may be
  absent.\<close>

definition tree_root :: "KeccakMerkleTree \<Rightarrow> H256" where
  "tree_root t =
    (if levels t = [] then 0
     else (case last (levels t) of [] \<Rightarrow> 0 | h # _ \<Rightarrow> h))"

text \<open>\<open>heap_bytes\<close> saturates at the largest \<open>usize\<close> of \<open>w\<close> bits; \<open>vec_size\<close> is the size of a
  \<open>Vec\<close> header on the target.\<close>

definition heap_bytes :: "nat \<Rightarrow> nat \<Rightarrow> KeccakMerkleTree \<Rightarrow> nat" where
  "heap_bytes w vec_size t =
    (let sat = (\<lambda>n. min n (2 ^ w - 1)); headers = sat (vec_size * length (levels t)) in
     foldl (\<lambda>acc level. sat (acc + sat (32 * length level))) headers (levels t))"

fun proof_path :: "H256 list list \<Rightarrow> nat \<Rightarrow> MerkleProofEntry list" where
  "proof_path [] current_index = []"
| "proof_path (level # rest) current_index =
    (let sibling_offset = 1 - current_index mod 2;
         sibling_index = current_index + 2 * sibling_offset - 1 in
     \<lparr>me_hash = get_or_pad level sibling_index, is_left = (sibling_offset = 0)\<rparr> #
       proof_path rest (current_index div 2))"

definition generate_proof ::
  "KeccakMerkleTree \<Rightarrow> nat \<Rightarrow> MerkleTreeError + TransactionMerkleProof" where
  "generate_proof t leaf_index =
    (let leaf_count = (case levels t of [] \<Rightarrow> 0 | level # _ \<Rightarrow> length level) in
     if leaf_index \<ge> leaf_count then Inl (IndexOutOfRange leaf_index (leaf_count - 1))
     else Inr \<lparr>mp_root = tree_root t, siblings = proof_path (butlast (levels t)) leaf_index\<rparr>)"

section \<open>Shape of the levels\<close>

lemma build_levels_Nil [simp]: "build_levels kc [] = []"
  by (simp add: build_levels.simps)

lemma build_levels_eq_Nil [simp]: "build_levels kc l = [] \<longleftrightarrow> l = []"
  by (subst build_levels.simps) simp

lemma build_levels_single [simp]: "build_levels kc [h] = [[h]]"
  by (subst build_levels.simps) (simp add: next_level_def)

lemma next_level_eq_Nil: "next_level kc l = [] \<longleftrightarrow> length l \<le> 1"
  using length_next_level [of kc l] by (auto simp flip: length_0_conv split: if_splits)

lemma build_levels_step:
  "length l > 1 \<Longrightarrow> build_levels kc l = l # build_levels kc (next_level kc l)"
  by (subst build_levels.simps) auto

lemma build_levels_Cons_tl: "l \<noteq> [] \<Longrightarrow> build_levels kc l = l # tl (build_levels kc l)"
  by (subst (1 2) build_levels.simps) simp

lemma nth_next_level:
  assumes "i < length l" and "length l > 1"
  shows "next_level kc l ! (i div 2) =
    hash_inner kc (as_bytes (l ! (2 * (i div 2)))) (as_bytes (get_or_pad l (2 * (i div 2) + 1)))"
  using assms by (simp add: next_level_def Let_def)

lemma half_less_next_level: "i < length l \<Longrightarrow> length l > 1 \<Longrightarrow> i div 2 < length (next_level kc l)"
  by (auto simp: length_next_level)

text \<open>The hash a level leads to.\<close>

definition level_root :: "keccak \<Rightarrow> H256 list \<Rightarrow> H256" where
  "level_root kc l = tree_root \<lparr>levels = build_levels kc l\<rparr>"

definition level_path :: "keccak \<Rightarrow> H256 list \<Rightarrow> nat \<Rightarrow> MerkleProofEntry list" where
  "level_path kc l i = proof_path (butlast (build_levels kc l)) i"

lemma level_root_single [simp]: "level_root kc [h] = h"
  by (simp add: level_root_def tree_root_def)

lemma level_path_single [simp]: "level_path kc [h] i = []"
  by (simp add: level_path_def)

lemma level_root_step: "length l > 1 \<Longrightarrow> level_root kc l = level_root kc (next_level kc l)"
  by (simp add: level_root_def tree_root_def build_levels_step next_level_eq_Nil)

definition sibling :: "H256 list \<Rightarrow> nat \<Rightarrow> MerkleProofEntry" where
  "sibling l i = \<lparr>me_hash = get_or_pad l (if even i then i + 1 else i - 1), is_left = odd i\<rparr>"

lemma level_path_step:
  "length l > 1 \<Longrightarrow> level_path kc l i = sibling l i # level_path kc (next_level kc l) (i div 2)"
  by (cases "even i") (auto simp: level_path_def build_levels_step next_level_eq_Nil sibling_def
      Let_def mod_2_eq_odd)

lemma climb_sibling:
  assumes "i < length l" and "length l > 1"
  shows "climb kc (l ! i) (sibling l i) = next_level kc l ! (i div 2)"
proof (cases "even i")
  case True
  then have "2 * (i div 2) = i" by simp
  with True assms show ?thesis by (simp add: nth_next_level climb_def sibling_def)
next
  case False
  then have "2 * (i div 2) + 1 = i" by presburger
  then have "2 * (i div 2) = i - 1" and "get_or_pad l (2 * (i div 2) + 1) = l ! i"
    using assms by (simp_all add: get_or_pad_def)
  moreover have "i - 1 < length l" using assms(1) by simp
  ultimately show ?thesis using False assms
    by (simp add: nth_next_level climb_def sibling_def get_or_pad_def)
qed

text \<open>Case distinction and induction over the levels: a level of one hash is the root, a longer
  one leads to the next.\<close>

lemma level_induct [consumes 1, case_names single step]:
  assumes "l \<noteq> []"
    and "\<And>h. P [h]"
    and "\<And>l. length l > 1 \<Longrightarrow> P (next_level kc l) \<Longrightarrow> P l"
  shows "P l"
  using assms(1)
proof (induction "length l" arbitrary: l rule: less_induct)
  case less
  show ?case
  proof (cases "length l > 1")
    case True
    then have "P (next_level kc l)"
      using less by (auto simp: length_next_level next_level_eq_Nil)
    with True show ?thesis by (rule assms(3))
  next
    case False
    with less.prems obtain h where "l = [h]" by (cases l) auto
    then show ?thesis using assms(2) by simp
  qed
qed

lemma climb_level_path:
  assumes "l \<noteq> []" and "i < length l"
  shows "foldl (climb kc) (l ! i) (level_path kc l i) = level_root kc l"
  using assms
proof (induction l arbitrary: i rule: level_induct [where kc = kc])
  case (step l)
  have "i div 2 < length (next_level kc l)"
    using step by (intro half_less_next_level)
  from step.IH [OF this] step.hyps step.prems show ?case
    by (simp add: level_path_step level_root_step climb_sibling)
qed simp

section \<open>Soundness\<close>

text \<open>The byte strings hashed while climbing a proof and while building a tree.\<close>

definition leaf_input :: "bytes \<Rightarrow> bytes" where
  "leaf_input d = LEAF_HASH_PREPEND_VALUE # d"

definition inner_input :: "H256 \<Rightarrow> H256 \<Rightarrow> bytes" where
  "inner_input a b = INNER_HASH_PREPEND_VALUE # as_bytes a @ as_bytes b"

definition climb_input :: "H256 \<Rightarrow> MerkleProofEntry \<Rightarrow> bytes" where
  "climb_input h e = (if is_left e then inner_input (me_hash e) h else inner_input h (me_hash e))"

fun path_inputs :: "keccak \<Rightarrow> H256 \<Rightarrow> MerkleProofEntry list \<Rightarrow> bytes set" where
  "path_inputs kc h [] = {}"
| "path_inputs kc h (e # es) = insert (climb_input h e) (path_inputs kc (climb kc h e) es)"

definition level_inputs :: "H256 list \<Rightarrow> bytes set" where
  "level_inputs l = (\<lambda>i. climb_input (l ! i) (sibling l i)) ` {0..<length l}"

lemma level_inputs_pair: "level_inputs [a, b] = {inner_input a b}"
  by (auto simp: level_inputs_def climb_input_def sibling_def get_or_pad_def atLeast0_lessThan_Suc)

definition tree_inputs :: "keccak \<Rightarrow> bytes list \<Rightarrow> bytes set" where
  "tree_inputs kc items = leaf_input ` set items \<union>
    (\<Union>l \<in> set (butlast (build_levels kc (map (hash_leaf kc) items))). level_inputs l)"

definition proof_inputs :: "keccak \<Rightarrow> TransactionMerkleProof \<Rightarrow> bytes \<Rightarrow> bytes set" where
  "proof_inputs kc p d = insert (leaf_input d) (path_inputs kc (hash_leaf kc d) (siblings p))"

lemma hash_leaf_input: "hash_leaf kc d = kc (leaf_input d)"
  by (simp add: hash_leaf_def leaf_input_def)

lemma hash_inner_input: "hash_inner kc (as_bytes a) (as_bytes b) = kc (inner_input a b)"
  by (simp add: hash_inner_def inner_input_def)

lemma climb_climb_input: "climb kc h e = kc (climb_input h e)"
  by (simp add: climb_def hash_inner_def climb_input_def inner_input_def)

lemma inner_input_inject [simp]: "inner_input a b = inner_input c d \<longleftrightarrow> a = c \<and> b = d"
  by (simp add: inner_input_def)

lemma leaf_input_inject [simp]: "leaf_input c = leaf_input d \<longleftrightarrow> c = d"
  by (simp add: leaf_input_def)

lemma leaf_neq_climb [simp]: "leaf_input d \<noteq> climb_input h e"
  by (simp add: leaf_input_def climb_input_def inner_input_def LEAF_HASH_PREPEND_VALUE_def
      INNER_HASH_PREPEND_VALUE_def)

lemma leaf_neq_inner [simp]: "leaf_input d \<noteq> inner_input a b" "inner_input a b \<noteq> leaf_input d"
  by (simp_all add: leaf_input_def inner_input_def LEAF_HASH_PREPEND_VALUE_def
      INNER_HASH_PREPEND_VALUE_def)

lemma leaf_hash_neq_climb:
  "inj_on kc A \<Longrightarrow> leaf_input d \<in> A \<Longrightarrow> climb_input h e \<in> A \<Longrightarrow> hash_leaf kc d \<noteq> kc (climb_input h e)"
  by (simp add: hash_leaf_input inj_on_eq_iff)

lemma path_inputs_append:
  "path_inputs kc h (xs @ ys) = path_inputs kc h xs \<union> path_inputs kc (foldl (climb kc) h xs) ys"
  by (induction xs arbitrary: h) auto

text \<open>A node of the next level has a unique decomposition: whoever climbs into it comes from one
  of its two children with the other as sibling, or from the padding.\<close>

lemma climb_into_next_level:
  assumes "j < length (next_level kc l)" and "length l > 1"
    and "climb kc h e = next_level kc l ! j"
    and "inj_on kc A" and "climb_input h e \<in> A" and "level_inputs l \<subseteq> A"
    and "h \<noteq> PAD_HASH"
  shows "\<exists>i < length l. i div 2 = j \<and> h = l ! i \<and> e = sibling l i"
proof -
  have j: "2 * j < length l" using assms(1,2) by (auto simp: length_next_level)
  have "next_level kc l ! j = kc (climb_input (l ! (2 * j)) (sibling l (2 * j)))"
    using climb_sibling [OF j assms(2), of kc] by (simp add: climb_climb_input)
  moreover have "climb_input (l ! (2 * j)) (sibling l (2 * j)) \<in> A"
    using assms(6) j by (auto simp: level_inputs_def)
  ultimately have eq: "climb_input h e = climb_input (l ! (2 * j)) (sibling l (2 * j))"
    using assms(3,4,5) by (auto simp: climb_climb_input dest: inj_onD)
  show ?thesis
  proof (cases "is_left e")
    case False
    with eq have "h = l ! (2 * j)" "e = sibling l (2 * j)"
      by (auto simp: climb_input_def sibling_def)
    with j show ?thesis by (intro exI [of _ "2 * j"]) simp
  next
    case True
    with eq have h: "h = get_or_pad l (2 * j + 1)" and e: "me_hash e = l ! (2 * j)"
      by (auto simp: climb_input_def sibling_def)
    then have j1: "2 * j + 1 < length l" using assms(7) by (auto simp: get_or_pad_def split: if_splits)
    moreover have "e = sibling l (2 * j + 1)"
      using True e j1 by (auto simp: sibling_def get_or_pad_def)
    ultimately show ?thesis using h by (intro exI [of _ "2 * j + 1"]) (auto simp: get_or_pad_def)
  qed
qed

text \<open>A hash of a level above \<open>l\<close> is the hash of an inner node.\<close>

lemma upper_level_is_climb:
  assumes "l \<noteq> []" and "x \<in> (\<Union>m \<in> set (tl (build_levels kc l)). set m)"
  shows "\<exists>m \<in> set (butlast (build_levels kc l)). \<exists>b \<in> level_inputs m. x = kc b"
  using assms
proof (induction l rule: level_induct [where kc = kc])
  case (step l)
  let ?n = "next_level kc l"
  have n: "?n \<noteq> []" using step.hyps by (simp add: next_level_eq_Nil)
  from step.prems step.hyps n obtain m where m: "m \<in> set (build_levels kc ?n)" "x \<in> set m"
    by (auto simp: build_levels_step)
  show ?case
  proof (cases "m \<in> set (tl (build_levels kc ?n))")
    case True
    with step.IH m(2) n step.hyps show ?thesis by (fastforce simp: build_levels_step)
  next
    case False
    with m(1) have "m = ?n" using n by (subst (asm) (1 2) build_levels.simps) auto
    with m(2) obtain j where j: "j < length ?n" "x = ?n ! j" by (auto simp: in_set_conv_nth)
    then have j2: "2 * j < length l" using step.hyps by (auto simp: length_next_level)
    then have "x = kc (climb_input (l ! (2 * j)) (sibling l (2 * j)))"
      using climb_sibling [OF j2 step.hyps, of kc] j by (simp add: climb_climb_input)
    with j2 step.hyps n show ?thesis by (auto simp: build_levels_step level_inputs_def)
  qed
qed simp

text \<open>Reading a verified path from the root downwards: at every level either the start hash is a
  node above it, or the rest of the path is the one of a node of the level.\<close>

lemma climbed_not_pad:
  assumes "h \<noteq> PAD_HASH" and "path_inputs kc h ss \<subseteq> A" and "PAD_HASH \<notin> kc ` A"
  shows "foldl (climb kc) h ss \<noteq> PAD_HASH"
  using assms(1,2)
proof (induction ss arbitrary: h)
  case (Cons e ss)
  have "climb kc h e \<in> kc ` A" using Cons.prems(2) by (simp add: climb_climb_input)
  then have "climb kc h e \<noteq> PAD_HASH" using assms(3) by metis
  then show ?case using Cons by simp
qed simp

lemma verified_path_descends:
  assumes "l \<noteq> []"
    and "foldl (climb kc) h ss = level_root kc l"
    and "inj_on kc A" and "PAD_HASH \<notin> kc ` A" and "h \<noteq> PAD_HASH"
    and "path_inputs kc h ss \<subseteq> A"
    and "(\<Union>m \<in> set (butlast (build_levels kc l)). level_inputs m) \<subseteq> A"
  shows "h \<in> (\<Union>m \<in> set (tl (build_levels kc l)). set m) \<or>
    (\<exists>ss0 i. i < length l \<and> foldl (climb kc) h ss0 = l ! i \<and> ss = ss0 @ level_path kc l i)"
  using assms(1,2,7)
proof (induction l rule: level_induct [where kc = kc])
  case (single r)
  then show ?case by auto
next
  case (step l)
  let ?n = "next_level kc l"
  have n: "?n \<noteq> []" using step.hyps by (simp add: next_level_eq_Nil)
  then have lv: "butlast (build_levels kc l) = l # butlast (build_levels kc ?n)"
    and tl: "tl (build_levels kc l) = ?n # tl (build_levels kc ?n)"
    using step.hyps build_levels_Cons_tl [of ?n kc] by (simp_all add: build_levels_step)
  consider (above) "h \<in> (\<Union>m \<in> set (tl (build_levels kc ?n)). set m)"
    | (path) ss0 j where "j < length ?n" "foldl (climb kc) h ss0 = ?n ! j"
        "ss = ss0 @ level_path kc ?n j"
    using step.IH step.prems step.hyps by (auto simp: level_root_step lv)
  then show ?case
  proof cases
    case above
    then show ?thesis by (auto simp: tl)
  next
    case path
    show ?thesis
    proof (cases ss0 rule: rev_cases)
      case Nil
      with path(1,2) have "h \<in> set ?n" by simp
      then show ?thesis by (auto simp: tl)
    next
      case (snoc ss1 e)
      let ?h = "foldl (climb kc) h ss1"
      have ins: "path_inputs kc h ss1 \<subseteq> A" "climb_input ?h e \<in> A"
        using assms(6) path(3) snoc by (auto simp: path_inputs_append)
      obtain i where "i < length l" "i div 2 = j" "?h = l ! i" "e = sibling l i"
        using climb_into_next_level [OF path(1) step.hyps _ assms(3) ins(2)] path(2) snoc
          climbed_not_pad [OF assms(5) ins(1) assms(4)] step.prems(2) by (auto simp: lv)
      then show ?thesis using path(3) snoc step.hyps
        by (intro disjI2 exI [of _ ss1] exI [of _ i]) (simp add: level_path_step)
    qed
  qed
qed

section \<open>Properties\<close>

lemma generate_proof_tree_new:
  "generate_proof (tree_new kc items) i =
    (if i < length items
     then Inr \<lparr>mp_root = tree_root (tree_new kc items),
       siblings = level_path kc (map (hash_leaf kc) items) i\<rparr>
     else Inl (IndexOutOfRange i (length items - 1)))"
proof (cases "items = []")
  case False
  then have "\<exists>ls. build_levels kc (map (hash_leaf kc) items) = map (hash_leaf kc) items # ls"
    by (subst build_levels.simps) simp
  then show ?thesis by (auto simp: generate_proof_def tree_new_def level_path_def)
qed (simp add: generate_proof_def tree_new_def)

lemma tree_root_tree_new:
  "tree_root (tree_new kc items) = level_root kc (map (hash_leaf kc) items)"
  by (simp add: tree_new_def level_root_def)

text \<open>C39: Every leaf index of a tree has a proof, the proof carries the root of the tree and
  verifies the item it was generated for; every other index is refused with the error that
  names it.\<close>

theorem generated_proof_verifies:
  "if i < length items
   then \<exists>p. generate_proof (tree_new kc items) i = Inr p \<and> mp_root p = tree_root (tree_new kc items)
      \<and> verify kc p (items ! i)
   else generate_proof (tree_new kc items) i = Inl (IndexOutOfRange i (length items - 1))"
proof (cases "i < length items")
  case True
  then have "foldl (climb kc) (hash_leaf kc (items ! i)) (level_path kc (map (hash_leaf kc) items) i)
      = level_root kc (map (hash_leaf kc) items)"
    using climb_level_path [of "map (hash_leaf kc) items" i kc] by (cases "items = []") auto
  with True show ?thesis by (simp add: generate_proof_tree_new verify_def tree_root_tree_new)
qed (simp add: generate_proof_tree_new)

lemma accepted_proof_is_generated:
  assumes "verify kc p d" and "mp_root p = tree_root (tree_new kc items)"
    and "inj_on kc (tree_inputs kc items \<union> proof_inputs kc p d)"
    and "PAD_HASH \<notin> kc ` (tree_inputs kc items \<union> proof_inputs kc p d)"
  shows "\<exists>i < length items. d = items ! i \<and> generate_proof (tree_new kc items) i = Inr p"
proof -
  let ?l = "map (hash_leaf kc) items" and ?A = "tree_inputs kc items \<union> proof_inputs kc p d"
  let ?h = "hash_leaf kc d"
  have hp: "?h \<noteq> PAD_HASH" using assms(4) by (auto simp: hash_leaf_input proof_inputs_def)
  have ins: "path_inputs kc ?h (siblings p) \<subseteq> ?A" by (auto simp: proof_inputs_def)
  have lev: "(\<Union>m \<in> set (butlast (build_levels kc ?l)). level_inputs m) \<subseteq> ?A"
    by (auto simp: tree_inputs_def)
  have rt: "foldl (climb kc) ?h (siblings p) = level_root kc ?l"
    using assms(1,2) by (simp add: verify_def tree_root_tree_new)
  have ne: "?l \<noteq> []"
    using climbed_not_pad [OF hp ins assms(4)] rt
    by (auto simp: level_root_def tree_root_def PAD_HASH_def)
  have dA: "leaf_input d \<in> ?A" by (simp add: proof_inputs_def)
  have noclimb: "?h \<noteq> kc b" if bm: "b \<in> level_inputs m" "m \<in> set (butlast (build_levels kc ?l))" for m b
  proof -
    obtain h e where b: "b = climb_input h e" using bm(1) by (auto simp: level_inputs_def)
    have "b \<in> ?A" using bm lev by blast
    with b show ?thesis using leaf_hash_neq_climb [OF assms(3) dA, of h e] by simp
  qed
  have "?h \<notin> (\<Union>m \<in> set (tl (build_levels kc ?l)). set m)"
    using upper_level_is_climb [OF ne, of ?h kc] noclimb by blast
  with verified_path_descends [OF ne rt assms(3,4) hp ins lev]
  obtain ss0 i where i: "i < length items" "foldl (climb kc) ?h ss0 = ?l ! i"
      "siblings p = ss0 @ level_path kc ?l i" by auto
  have li: "?l ! i = kc (leaf_input (items ! i))" "leaf_input (items ! i) \<in> ?A"
    using i(1) by (auto simp: hash_leaf_input tree_inputs_def)
  have "ss0 = []"
  proof (cases ss0 rule: rev_cases)
    case (snoc ss1 e)
    then have "climb_input (foldl (climb kc) ?h ss1) e \<in> ?A"
      using ins i(3) by (auto simp: path_inputs_append)
    from leaf_hash_neq_climb [OF assms(3) li(2) this] i(2) li(1) snoc show ?thesis
      by (simp add: climb_climb_input hash_leaf_input)
  qed simp
  then have "kc (leaf_input d) = kc (leaf_input (items ! i))"
    using i(2) li(1) by (simp only: foldl.simps hash_leaf_input)
  from inj_onD [OF assms(3) this dA li(2)] have "d = items ! i" by simp
  moreover have "generate_proof (tree_new kc items) i = Inr p"
    using i(1,3) \<open>ss0 = []\<close> assms(2) by (cases p) (simp add: generate_proof_tree_new)
  ultimately show ?thesis using i(1) by blast
qed

text \<open>C10: A proof is accepted only for what the tree holds.  When the hash does not collide on
  the byte strings hashed by the tree and by the verification, and none of them hashes to the
  zero padding, a proof that verifies some data against the root of a tree is the proof
  generated for a leaf, and the data is that leaf.\<close>

theorem verified_proof_is_generated:
  assumes "verify kc p d" and "mp_root p = tree_root (tree_new kc items)"
    and "inj_on kc (tree_inputs kc items \<union> proof_inputs kc p d)"
    and "PAD_HASH \<notin> kc ` (tree_inputs kc items \<union> proof_inputs kc p d)"
  shows "\<exists>i < length items. d = items ! i \<and> generate_proof (tree_new kc items) i = Inr p"
  using assms by (rule accepted_proof_is_generated)

theorem verified_proof_is_generated_witness:
  "\<exists>i < length [[1], [2::u8]]. [2::u8] = [[1], [2]] ! i \<and>
     generate_proof
       (tree_new (\<lambda>bs. if bs = leaf_input [1] then 1 else if bs = leaf_input [2] then 2 else 3) [[1], [2]]) i =
       Inr \<lparr>mp_root = 3, siblings = [\<lparr>me_hash = 1, is_left = True\<rparr>]\<rparr>"
proof -
  let ?kc = "\<lambda>bs. if bs = leaf_input [1] then 1 else if bs = leaf_input [2] then 2 else (3::H256)"
  have l: "map (hash_leaf ?kc) [[1], [2]] = [1, 2]" by (simp add: hash_leaf_input)
  have n: "next_level ?kc [1, 2] = [3]"
    by (simp add: next_level_def get_or_pad_def hash_inner_input)
  have t: "tree_root (tree_new ?kc [[1], [2]]) = 3"
    unfolding tree_root_tree_new l by (simp add: level_root_step n)
  have ti: "tree_inputs ?kc [[1], [2]] = {leaf_input [1], leaf_input [2], inner_input 1 2}"
    unfolding tree_inputs_def l by (auto simp: build_levels_step n level_inputs_pair)
  have pi: "proof_inputs ?kc \<lparr>mp_root = 3, siblings = [\<lparr>me_hash = 1, is_left = True\<rparr>]\<rparr> [2] =
      {leaf_input [2], inner_input 1 2}"
    by (simp add: proof_inputs_def climb_input_def hash_leaf_input)
  have "verify ?kc \<lparr>mp_root = 3, siblings = [\<lparr>me_hash = 1, is_left = True\<rparr>]\<rparr> [2]"
    by (simp add: verify_def hash_leaf_input climb_climb_input climb_input_def)
  then show ?thesis
    by (rule verified_proof_is_generated) (simp_all only: t ti pi, simp_all add: inj_on_def PAD_HASH_def)
qed

end
