(* ===== verification/Frame.thy ===== *)
theory Frame
  imports Primitives
begin

text \<open>What the pallets use of the FRAME runtime framework, which is a dependency and not part of
  the sources: the origin of a call, the error a dispatchable returns, the enumeration order of
  a storage map, and the fact that a failing dispatchable leaves the storage as it was.  The
  enumeration order is a parameter with its documented contract (every key once); it is a
  locale, so that a component that enumerates a map is verified for every order.

  The theory also holds the reachability argument all pallets share: an invariant that holds at
  genesis and is kept by every operation holds in every reachable state.\<close>

section \<open>Calls and errors\<close>

datatype Origin = Root | Signed AccountId | NoOrigin

datatype 'e DispatchError = BadOrigin | Module 'e | Other string

type_synonym ('e, 'a) dispatch = "'e DispatchError + 'a"

text \<open>A dispatchable is transactional: on an error every write it made is rolled back.\<close>

definition commit :: "'s \<Rightarrow> 'e + 's \<Rightarrow> 's" where
  "commit s r = (case r of Inl _ \<Rightarrow> s | Inr s' \<Rightarrow> s')"

lemma commit_simps [simp]: "commit s (Inl e) = s" "commit s (Inr s') = s'"
  by (simp_all add: commit_def)

section \<open>Storage maps with a default\<close>

text \<open>A \<open>ValueQuery\<close> map answers a missing key with its default.\<close>

definition map_get :: "'v \<Rightarrow> ('k \<rightharpoonup> 'v) \<Rightarrow> 'k \<Rightarrow> 'v" where
  "map_get d m k = (case m k of Some v \<Rightarrow> v | None \<Rightarrow> d)"

lemma map_get_simps [simp]:
  "map_get d (m(k \<mapsto> v)) k' = (if k' = k then v else map_get d m k')"
  "map_get d (m(k := None)) k' = (if k' = k then d else map_get d m k')"
  "map_get d Map.empty k = d"
  by (simp_all add: map_get_def)

section \<open>Between the pallets\<close>

text \<open>The arguments \<open>register_chain\<close> hands through to the registration handler.\<close>

record RegistrationParams =
  rp_target_sample_size :: "u32 option"
  rp_chain_attestation_interval :: "u64 option"
  rp_attestation_checkpoint_interval :: "u32 option"
  rp_max_attestors :: "u32 option"
  rp_max_invulnerables :: "u32 option"
  rp_attestation_chain_genesis_block_number :: "u64 option"

type_synonym 's registration_handler =
  "ChainKey \<Rightarrow> ChainId \<Rightarrow> bytes \<Rightarrow> RegistrationParams \<Rightarrow> ChainEncodingVersion \<Rightarrow> 's \<Rightarrow> string + 's"

section \<open>Enumeration of storage maps\<close>

locale storage_iteration =
  fixes iter :: "'k set \<Rightarrow> 'k list"
  assumes set_iter: "finite A \<Longrightarrow> set (iter A) = A"
    and distinct_iter: "finite A \<Longrightarrow> distinct (iter A)"
begin

lemma length_iter: "finite A \<Longrightarrow> length (iter A) = card A"
  using set_iter distinct_iter distinct_card by metis

lemma in_set_iter: "finite A \<Longrightarrow> x \<in> set (iter A) \<longleftrightarrow> x \<in> A"
  by (simp add: set_iter)

end

text \<open>Maps keyed by a chain; there are finitely many keys.\<close>

locale chain_iteration = storage_iteration iter for iter :: "ChainKey set \<Rightarrow> ChainKey list"
begin

lemma set_chain_iter [simp]: "set (iter A) = A"
  by (simp add: set_iter)

lemma distinct_chain_iter [simp]: "distinct (iter A)"
  by (simp add: distinct_iter)

end

interpretation chain_key_order: chain_iteration "sorted_list_of_set :: ChainKey set \<Rightarrow> ChainKey list"
  by unfold_locales simp_all

section \<open>Invariants of transition systems\<close>

locale invariant_system =
  fixes init :: "'s \<Rightarrow> bool" and step :: "'s \<Rightarrow> 's \<Rightarrow> bool" and inv :: "'s \<Rightarrow> bool"
  assumes init_inv: "init s \<Longrightarrow> inv s"
    and step_inv: "inv s \<Longrightarrow> step s t \<Longrightarrow> inv t"
begin

lemma steps_inv: "step\<^sup>*\<^sup>* s t \<Longrightarrow> inv s \<Longrightarrow> inv t"
  by (induction rule: rtranclp_induct) (auto intro: step_inv)

lemma reachable_inv: "init s \<Longrightarrow> step\<^sup>*\<^sup>* s t \<Longrightarrow> inv t"
  by (blast intro: steps_inv init_inv)

lemma steps_preserve:
  assumes "step\<^sup>*\<^sup>* s t" and "inv s" and "P s"
    and "\<And>u v. inv u \<Longrightarrow> P u \<Longrightarrow> step u v \<Longrightarrow> P v"
  shows "P t"
proof -
  have "inv t \<and> P t"
    using assms(1,2,3) by (induction rule: rtranclp_induct) (auto intro: step_inv assms(4))
  then show ?thesis ..
qed

end

end
