(* ===== verification/SupportedChains.thy ===== *)
theory SupportedChains
  imports Frame
begin

text \<open>The registry of source chains: the pallet \<open>pallets/supported-chains\<close> and the maturity
  strategies of \<open>primitives/supported-chains\<close>.

  A Rust string is its list of Unicode code points; a chain name, of which the pallet only ever
  takes \<open>as_bytes\<close>, is its list of bytes.  \<open>str::trim\<close>, \<open>str::strip_prefix\<close> and \<open>u64::from_str\<close>
  are modelled as far as the code uses them.  The handlers the pallet notifies on registration
  and removal are parameters here; the runtime instantiates them with the attestation pallet.

  The properties are the invariant of the registry (the reverse index is a bijection, the
  counter counts, keys are below the next key), that a key is never reused, and that the
  strategy validation accepts exactly the strings that parse.\<close>

section \<open>Strings\<close>

type_synonym ustring = "nat list"

definition ustr :: "string \<Rightarrow> ustring" where
  "ustr s = map of_char s"

text \<open>The code points with the Unicode property \<open>White_Space\<close>.\<close>

definition is_whitespace :: "nat \<Rightarrow> bool" where
  "is_whitespace c = (9 \<le> c \<and> c \<le> 13 \<or> c = 32 \<or> c = 0x85 \<or> c = 0xA0 \<or> c = 0x1680
     \<or> 0x2000 \<le> c \<and> c \<le> 0x200A \<or> c = 0x2028 \<or> c = 0x2029 \<or> c = 0x202F \<or> c = 0x205F \<or> c = 0x3000)"

definition trim :: "ustring \<Rightarrow> ustring" where
  "trim s = rev (dropWhile is_whitespace (rev (dropWhile is_whitespace s)))"

definition strip_prefix :: "ustring \<Rightarrow> ustring \<Rightarrow> ustring option" where
  "strip_prefix p s = (if take (length p) s = p then Some (drop (length p) s) else None)"

definition starts_with :: "ustring \<Rightarrow> ustring \<Rightarrow> bool" where
  "starts_with p s = (take (length p) s = p)"

definition digit :: "nat \<Rightarrow> u64 option" where
  "digit c = (if 48 \<le> c \<and> c \<le> 57 then Some (of_nat (c - 48)) else None)"

text \<open>\<open>parse::<u64>\<close>: an optional plus sign, at least one digit, and no overflow.\<close>

fun parse_digits :: "u64 \<Rightarrow> ustring \<Rightarrow> u64 option" where
  "parse_digits acc [] = Some acc"
| "parse_digits acc (c # cs) =
    (case digit c of None \<Rightarrow> None
     | Some d \<Rightarrow> (case checked_mul acc 10 of None \<Rightarrow> None
       | Some m \<Rightarrow> (case checked_add m d of None \<Rightarrow> None
         | Some n \<Rightarrow> parse_digits n cs)))"

definition parse_u64 :: "ustring \<Rightarrow> u64 option" where
  "parse_u64 s =
    (let digits = (case s of c # cs \<Rightarrow> if c = 43 \<and> cs \<noteq> [] then cs else s | [] \<Rightarrow> [])
     in if digits = [] then None else parse_digits 0 digits)"

section \<open>Maturity strategies\<close>

datatype StrategyError = NoDelayFoundForStrategy ustring | InvalidFixedDelay ustring
  | InvalidStrategy ustring

datatype MaturityStrategy = EvmFinalized | EvmSafe | EvmLatest | FixedDelay u64 | RpcSafe | RpcFinalized

datatype RpcBlockTag = Safe | Finalized

definition tag_as_str :: "RpcBlockTag \<Rightarrow> ustring" where
  "tag_as_str t = (case t of Safe \<Rightarrow> ustr ''safe'' | Finalized \<Rightarrow> ustr ''finalized'')"

definition MATURITY_EVM_FINALIZED :: ustring where "MATURITY_EVM_FINALIZED = ustr ''EvmFinalized''"

definition MATURITY_EVM_SAFE :: ustring where "MATURITY_EVM_SAFE = ustr ''EvmSafe''"

definition MATURITY_EVM_LATEST :: ustring where "MATURITY_EVM_LATEST = ustr ''EvmLatest''"

definition MATURITY_FIXED_DELAY :: ustring where "MATURITY_FIXED_DELAY = ustr ''FixedDelay:''"

definition MATURITY_RPC_SAFE :: ustring where "MATURITY_RPC_SAFE = ustr ''RpcSafe''"

definition MATURITY_RPC_FINALIZED :: ustring where "MATURITY_RPC_FINALIZED = ustr ''RpcFinalized''"

fun maturity_delay :: "MaturityStrategy \<Rightarrow> u64 option" where
  "maturity_delay EvmFinalized = Some 64"
| "maturity_delay EvmSafe = Some 32"
| "maturity_delay EvmLatest = Some 0"
| "maturity_delay (FixedDelay n) = Some n"
| "maturity_delay RpcSafe = None"
| "maturity_delay RpcFinalized = None"

fun rpc_tag :: "MaturityStrategy \<Rightarrow> RpcBlockTag option" where
  "rpc_tag RpcSafe = Some Safe"
| "rpc_tag RpcFinalized = Some Finalized"
| "rpc_tag EvmFinalized = None"
| "rpc_tag EvmSafe = None"
| "rpc_tag EvmLatest = None"
| "rpc_tag (FixedDelay n) = None"

definition strategy_try_from :: "ustring \<Rightarrow> StrategyError + MaturityStrategy" where
  "strategy_try_from s =
    (if s = MATURITY_EVM_FINALIZED then Inr EvmFinalized
     else if s = MATURITY_EVM_SAFE then Inr EvmSafe
     else if s = MATURITY_EVM_LATEST then Inr EvmLatest
     else if s = MATURITY_RPC_SAFE then Inr RpcSafe
     else if s = MATURITY_RPC_FINALIZED then Inr RpcFinalized
     else case strip_prefix MATURITY_FIXED_DELAY s of
       Some rest \<Rightarrow> (case parse_u64 (trim rest) of
           Some delay \<Rightarrow> Inr (FixedDelay delay)
         | None \<Rightarrow> Inl (InvalidFixedDelay s))
     | None \<Rightarrow> Inl (InvalidStrategy s))"

definition is_valid_maturity_strategy :: "ustring \<Rightarrow> bool" where
  "is_valid_maturity_strategy s =
    (if s = MATURITY_EVM_FINALIZED \<or> s = MATURITY_EVM_SAFE \<or> s = MATURITY_EVM_LATEST
        \<or> s = MATURITY_RPC_SAFE \<or> s = MATURITY_RPC_FINALIZED then True
     else if starts_with MATURITY_FIXED_DELAY s then
       (case strip_prefix MATURITY_FIXED_DELAY s of
          Some num_str \<Rightarrow> parse_u64 (trim num_str) \<noteq> None
        | None \<Rightarrow> False)
     else False)"

section \<open>State, events and errors\<close>

record SupportedChain =
  chain_id :: ChainId
  chain_name :: bytes
  chain_encoding :: ChainEncodingVersion
  maturity_strategy :: ustring

datatype ChainsEvent =
    ChainRegistered ChainKey ChainId bytes ChainEncodingVersion ustring
  | ChainRemoved ChainKey ChainId bytes ChainEncodingVersion ustring
  | MaturityStrategySet ChainKey ChainId ustring
  | ChainNameSet ChainKey ChainId bytes bytes

datatype ChainsError = ChainAlreadyRegistered | ChainNotSupported | Arithmetic
  | InvalidMaturityStrategy | MaturityStrategyUnchanged | ChainNameUnchanged | TooManyChains

record ChainsState =
  SupportedChains :: "ChainKey \<rightharpoonup> SupportedChain"
  SupportedChainsCount :: u32
  ChainIdAndNameToUniqKey :: "ChainId \<Rightarrow> bytes \<Rightarrow> ChainKey option"
  ChainKeyValue :: ChainKey
  chains_events :: "ChainsEvent list"

record ChainsConfig =
  DefaultMaturityStrategy :: ustring
  OperatorsOrigin :: "Origin \<Rightarrow> bool"
  MaxSupportedChains :: u32

definition GENESIS_CHAIN_KEY :: ChainKey where
  "GENESIS_CHAIN_KEY = 1"

definition chains_default :: ChainsState where
  "chains_default = \<lparr>SupportedChains = Map.empty, SupportedChainsCount = 0,
     ChainIdAndNameToUniqKey = (\<lambda>_ _. None), ChainKeyValue = GENESIS_CHAIN_KEY, chains_events = []\<rparr>"

definition deposit_chain_event :: "ChainsEvent \<Rightarrow> ChainsState \<Rightarrow> ChainsState" where
  "deposit_chain_event e s = s\<lparr>chains_events := chains_events s @ [e]\<rparr>"

definition index_insert ::
  "ChainId \<Rightarrow> bytes \<Rightarrow> ChainKey \<Rightarrow> (ChainId \<Rightarrow> bytes \<Rightarrow> ChainKey option) \<Rightarrow> ChainId \<Rightarrow> bytes \<Rightarrow> ChainKey option" where
  "index_insert i n k idx = idx(i := (idx i)(n := Some k))"

definition index_remove ::
  "ChainId \<Rightarrow> bytes \<Rightarrow> (ChainId \<Rightarrow> bytes \<Rightarrow> ChainKey option) \<Rightarrow> ChainId \<Rightarrow> bytes \<Rightarrow> ChainKey option" where
  "index_remove i n idx = idx(i := (idx i)(n := None))"

section \<open>Genesis\<close>

text \<open>\<open>None\<close> is a panic of the genesis builder.\<close>

type_synonym genesis_chain = "ChainId \<times> bytes \<times> ChainEncodingVersion \<times> ustring"

fun genesis_loop :: "genesis_chain list \<Rightarrow> ChainKey \<Rightarrow> ChainsState \<Rightarrow> (ChainKey \<times> ChainsState) option" where
  "genesis_loop [] key s = Some (key, s)"
| "genesis_loop ((i, n, enc, ms) # cs) key s =
    (let s1 = s\<lparr>SupportedChains := (SupportedChains s)(key \<mapsto>
         \<lparr>chain_id = i, chain_name = n, chain_encoding = enc, maturity_strategy = ms\<rparr>)\<rparr> in
     if ChainIdAndNameToUniqKey s1 i n \<noteq> None then None
     else let s2 = s1\<lparr>ChainIdAndNameToUniqKey := index_insert i n key (ChainIdAndNameToUniqKey s1)\<rparr> in
       case checked_add key 1 of None \<Rightarrow> None | Some key' \<Rightarrow> genesis_loop cs key' s2)"

definition genesis_build :: "ChainsConfig \<Rightarrow> genesis_chain list \<Rightarrow> ChainsState option" where
  "genesis_build cfg cs =
    (if \<not> len32 cs \<le> MaxSupportedChains cfg then None
     else case genesis_loop cs 1 chains_default of None \<Rightarrow> None
       | Some (key, s) \<Rightarrow> Some (s\<lparr>ChainKeyValue := key, SupportedChainsCount := len32 cs\<rparr>))"

section \<open>Calls\<close>

definition register_chain ::
  "ChainsConfig \<Rightarrow> 's registration_handler \<Rightarrow> Origin \<Rightarrow> ChainId \<Rightarrow> bytes \<Rightarrow> RegistrationParams \<Rightarrow>
   ChainEncodingVersion \<Rightarrow> ustring option \<Rightarrow> ChainsState \<times> 's \<Rightarrow> (ChainsError, ChainsState \<times> 's) dispatch" where
  "register_chain cfg on_register origin i name params encoding strategy st =
    (let (s, other) = st in
     if \<not> OperatorsOrigin cfg origin then Inl BadOrigin
     else if ChainIdAndNameToUniqKey s i name \<noteq> None then Inl (Module ChainAlreadyRegistered)
     else let chains_count = SupportedChainsCount s in
     if \<not> chains_count < MaxSupportedChains cfg then Inl (Module TooManyChains)
     else if (case strategy of Some m \<Rightarrow> \<not> is_valid_maturity_strategy m | None \<Rightarrow> False)
       then Inl (Module InvalidMaturityStrategy)
     else let ms = (case strategy of Some m \<Rightarrow> m | None \<Rightarrow> DefaultMaturityStrategy cfg);
              key = ChainKeyValue s;
              s1 = s\<lparr>SupportedChains := (SupportedChains s)(key \<mapsto>
                \<lparr>chain_id = i, chain_name = name, chain_encoding = encoding, maturity_strategy = ms\<rparr>),
                ChainIdAndNameToUniqKey := index_insert i name key (ChainIdAndNameToUniqKey s)\<rparr>
     in case checked_add key 1 of None \<Rightarrow> Inl (Module Arithmetic)
     | Some next_key \<Rightarrow>
       (let s2 = s1\<lparr>ChainKeyValue := next_key,
              SupportedChainsCount := saturating_add chains_count 1\<rparr>
        in case on_register key i name params encoding other of
          Inl e \<Rightarrow> Inl (Other e)
        | Inr other' \<Rightarrow> Inr (deposit_chain_event (ChainRegistered key i name encoding ms) s2, other')))"

definition remove_chain ::
  "ChainsConfig \<Rightarrow> (ChainKey \<Rightarrow> bool \<Rightarrow> 's \<Rightarrow> 's) \<Rightarrow> Origin \<Rightarrow> ChainKey \<Rightarrow> bool \<Rightarrow>
   ChainsState \<times> 's \<Rightarrow> (ChainsError, ChainsState \<times> 's) dispatch" where
  "remove_chain cfg on_removed origin key remove_checkpoints st =
    (let (s, other) = st in
     if \<not> OperatorsOrigin cfg origin then Inl BadOrigin
     else case SupportedChains s key of None \<Rightarrow> Inl (Module ChainNotSupported)
     | Some item \<Rightarrow>
       (let s1 = s\<lparr>ChainIdAndNameToUniqKey :=
              index_remove (chain_id item) (chain_name item) (ChainIdAndNameToUniqKey s),
              SupportedChains := (SupportedChains s)(key := None),
              SupportedChainsCount := saturating_sub (SupportedChainsCount s) 1\<rparr>;
            other' = on_removed key remove_checkpoints other
        in Inr (deposit_chain_event (ChainRemoved key (chain_id item) (chain_name item)
             (chain_encoding item) (maturity_strategy item)) s1, other')))"

definition set_maturity_strategy ::
  "ChainsConfig \<Rightarrow> Origin \<Rightarrow> ChainKey \<Rightarrow> ustring \<Rightarrow> ChainsState \<Rightarrow> (ChainsError, ChainsState) dispatch" where
  "set_maturity_strategy cfg origin key strategy s =
    (if \<not> OperatorsOrigin cfg origin then Inl BadOrigin
     else if \<not> is_valid_maturity_strategy strategy then Inl (Module InvalidMaturityStrategy)
     else case SupportedChains s key of None \<Rightarrow> Inl (Module ChainNotSupported)
     | Some chain \<Rightarrow>
       if maturity_strategy chain = strategy then Inl (Module MaturityStrategyUnchanged)
       else Inr (deposit_chain_event (MaturityStrategySet key (chain_id chain) strategy)
         (s\<lparr>SupportedChains := (SupportedChains s)(key \<mapsto> chain\<lparr>maturity_strategy := strategy\<rparr>)\<rparr>)))"

definition set_chain_name ::
  "ChainsConfig \<Rightarrow> Origin \<Rightarrow> ChainKey \<Rightarrow> bytes \<Rightarrow> ChainsState \<Rightarrow> (ChainsError, ChainsState) dispatch" where
  "set_chain_name cfg origin key new_name s =
    (if \<not> OperatorsOrigin cfg origin then Inl BadOrigin
     else case SupportedChains s key of None \<Rightarrow> Inl (Module ChainNotSupported)
     | Some chain \<Rightarrow>
       if chain_name chain = new_name then Inl (Module ChainNameUnchanged)
       else if ChainIdAndNameToUniqKey s (chain_id chain) new_name \<noteq> None
         then Inl (Module ChainAlreadyRegistered)
       else let i = chain_id chain; old_chain_name = chain_name chain in
         Inr (deposit_chain_event (ChainNameSet key i old_chain_name new_name)
           (s\<lparr>ChainIdAndNameToUniqKey :=
                index_insert i new_name key (index_remove i old_chain_name (ChainIdAndNameToUniqKey s)),
              SupportedChains := (SupportedChains s)(key \<mapsto> chain\<lparr>chain_name := new_name\<rparr>)\<rparr>)))"

section \<open>Queries and the counter migration\<close>

definition is_chain_supported :: "ChainsState \<Rightarrow> ChainKey \<Rightarrow> bool" where
  "is_chain_supported s key = (SupportedChains s key \<noteq> None)"

definition supported_chains :: "(ChainKey set \<Rightarrow> ChainKey list) \<Rightarrow> ChainsState \<Rightarrow> ChainKey list" where
  "supported_chains iter s = iter (dom (SupportedChains s))"

definition chain_key_by_chain_id_and_name :: "ChainsState \<Rightarrow> ChainId \<Rightarrow> bytes \<Rightarrow> ChainKey option" where
  "chain_key_by_chain_id_and_name s i n = ChainIdAndNameToUniqKey s i n"

definition get_supported_chain :: "ChainsState \<Rightarrow> ChainKey \<Rightarrow> SupportedChain option" where
  "get_supported_chain s key = SupportedChains s key"

definition supported_chains_count :: "ChainsState \<Rightarrow> u32" where
  "supported_chains_count s = SupportedChainsCount s"

definition init_supported_chains_count :: "(ChainKey set \<Rightarrow> ChainKey list) \<Rightarrow> ChainsState \<Rightarrow> ChainsState" where
  "init_supported_chains_count iter s =
    (let actual = len32 (iter (dom (SupportedChains s))) in
     if SupportedChainsCount s = actual then s else s\<lparr>SupportedChainsCount := actual\<rparr>)"

section \<open>The registry invariant\<close>

text \<open>The two maps are inverse to each other, the counter is the number of chains, and every key
  in use is below the next one.\<close>

definition index_agrees ::
  "(ChainKey \<rightharpoonup> SupportedChain) \<Rightarrow> (ChainId \<Rightarrow> bytes \<Rightarrow> ChainKey option) \<Rightarrow> bool" where
  "index_agrees m idx \<longleftrightarrow>
    (\<forall>i n k. idx i n = Some k \<longleftrightarrow> (\<exists>c. m k = Some c \<and> chain_id c = i \<and> chain_name c = n))"

definition chains_inv :: "ChainsConfig \<Rightarrow> ChainsState \<Rightarrow> bool" where
  "chains_inv cfg s \<longleftrightarrow>
    index_agrees (SupportedChains s) (ChainIdAndNameToUniqKey s) \<and>
    finite (dom (SupportedChains s)) \<and>
    unat (SupportedChainsCount s) = card (dom (SupportedChains s)) \<and>
    SupportedChainsCount s \<le> MaxSupportedChains cfg \<and>
    (\<forall>k \<in> dom (SupportedChains s). k < ChainKeyValue s)"

lemma chains_invI:
  assumes "index_agrees (SupportedChains s) (ChainIdAndNameToUniqKey s)"
    and "finite (dom (SupportedChains s))"
    and "unat (SupportedChainsCount s) = card (dom (SupportedChains s))"
    and "SupportedChainsCount s \<le> MaxSupportedChains cfg"
    and "\<And>k. k \<in> dom (SupportedChains s) \<Longrightarrow> k < ChainKeyValue s"
  shows "chains_inv cfg s"
  using assms by (simp add: chains_inv_def)

lemma index_agreesD: "index_agrees m idx \<Longrightarrow> idx i n = Some k \<Longrightarrow> \<exists>c. m k = Some c \<and> chain_id c = i \<and> chain_name c = n"
  by (simp add: index_agrees_def)

lemma index_agrees_unique:
  "index_agrees m idx \<Longrightarrow> m k = Some c \<Longrightarrow> m k' = Some c' \<Longrightarrow> chain_id c = chain_id c' \<Longrightarrow>
    chain_name c = chain_name c' \<Longrightarrow> k = k'"
  unfolding index_agrees_def by (metis option.inject)

lemma index_agrees_insert:
  assumes "index_agrees m idx" and "m k = None" and "idx (chain_id c) (chain_name c) = None"
  shows "index_agrees (m(k \<mapsto> c)) (index_insert (chain_id c) (chain_name c) k idx)"
proof -
  have "idx (chain_id c') (chain_name c') = Some k'" if "m k' = Some c'" for k' c'
    using assms(1) that by (auto simp: index_agrees_def)
  with assms(2,3) have "chain_id c' \<noteq> chain_id c \<or> chain_name c' \<noteq> chain_name c"
    if "m k' = Some c'" for k' c' using that by fastforce
  with assms show ?thesis unfolding index_agrees_def index_insert_def by (auto split: if_splits)
qed

lemma index_agrees_remove:
  assumes "index_agrees m idx" and "m k = Some c"
  shows "index_agrees (m(k := None)) (index_remove (chain_id c) (chain_name c) idx)"
  unfolding index_agrees_def
proof (intro allI)
  fix i n k'
  have idx: "idx i n = Some k' \<longleftrightarrow> (\<exists>c'. m k' = Some c' \<and> chain_id c' = i \<and> chain_name c' = n)"
    using assms(1) by (simp add: index_agrees_def)
  show "index_remove (chain_id c) (chain_name c) idx i n = Some k' \<longleftrightarrow>
      (\<exists>c'. (m(k := None)) k' = Some c' \<and> chain_id c' = i \<and> chain_name c' = n)"
  proof (cases "i = chain_id c \<and> n = chain_name c")
    case True
    then show ?thesis using index_agrees_unique [OF assms(1,2), of k']
      by (auto simp: index_remove_def)
  next
    case False
    then have "index_remove (chain_id c) (chain_name c) idx i n = idx i n"
      by (auto simp: index_remove_def)
    then show ?thesis using False assms(2) idx by auto
  qed
qed

lemma index_agrees_rename:
  assumes "index_agrees m idx" and "m k = Some c" and "idx (chain_id c) n = None"
  shows "index_agrees (m(k \<mapsto> c\<lparr>chain_name := n\<rparr>))
    (index_insert (chain_id c) n k (index_remove (chain_id c) (chain_name c) idx))"
proof -
  have "index_agrees (m(k := None)) (index_remove (chain_id c) (chain_name c) idx)"
    using assms(1,2) by (rule index_agrees_remove)
  moreover have "index_remove (chain_id c) (chain_name c) idx (chain_id c) n = None"
    using assms(3) by (simp add: index_remove_def)
  ultimately show ?thesis
    using index_agrees_insert [of "m(k := None)" "index_remove (chain_id c) (chain_name c) idx" k
        "c\<lparr>chain_name := n\<rparr>"] by simp
qed

lemma index_agrees_same_key:
  "index_agrees m idx \<Longrightarrow> m k = Some c \<Longrightarrow> index_agrees (m(k \<mapsto> c\<lparr>maturity_strategy := ms\<rparr>)) idx"
  unfolding index_agrees_def by (auto split: if_splits)

lemma chains_inv_deposit [simp]: "chains_inv cfg (deposit_chain_event e s) = chains_inv cfg s"
  by (simp add: chains_inv_def deposit_chain_event_def)

lemma deposit_chain_event_simps [simp]:
  "SupportedChains (deposit_chain_event e s) = SupportedChains s"
  "ChainKeyValue (deposit_chain_event e s) = ChainKeyValue s"
  "SupportedChainsCount (deposit_chain_event e s) = SupportedChainsCount s"
  "ChainIdAndNameToUniqKey (deposit_chain_event e s) = ChainIdAndNameToUniqKey s"
  "chains_events (deposit_chain_event e s) = chains_events s @ [e]"
  by (simp_all add: deposit_chain_event_def)

text \<open>What a successful call did.\<close>

lemma register_chain_Inr:
  assumes "register_chain cfg h origin i n ps enc strat (s, x) = Inr (s', x')"
  obtains key ms where "key = ChainKeyValue s" and "ChainIdAndNameToUniqKey s i n = None"
    and "SupportedChainsCount s < MaxSupportedChains cfg"
    and "unat key + 1 < 2 ^ 64"
    and "h key i n ps enc x = Inr x'"
    and "s' = deposit_chain_event (ChainRegistered key i n enc ms)
      (s\<lparr>SupportedChains := (SupportedChains s)(key \<mapsto>
           \<lparr>chain_id = i, chain_name = n, chain_encoding = enc, maturity_strategy = ms\<rparr>),
         ChainIdAndNameToUniqKey := index_insert i n key (ChainIdAndNameToUniqKey s),
         ChainKeyValue := key + 1, SupportedChainsCount := saturating_add (SupportedChainsCount s) 1\<rparr>)"
  using assms
  by (auto simp: register_chain_def Let_def checked_add_SomeI split: if_splits option.splits sum.splits)

lemma remove_chain_Inr:
  assumes "remove_chain cfg l origin key rc (s, x) = Inr (s', x')"
  obtains item where "SupportedChains s key = Some item" and "x' = l key rc x"
    and "s' = deposit_chain_event (ChainRemoved key (chain_id item) (chain_name item)
        (chain_encoding item) (maturity_strategy item))
      (s\<lparr>ChainIdAndNameToUniqKey :=
           index_remove (chain_id item) (chain_name item) (ChainIdAndNameToUniqKey s),
         SupportedChains := (SupportedChains s)(key := None),
         SupportedChainsCount := saturating_sub (SupportedChainsCount s) 1\<rparr>)"
  using assms by (auto simp: remove_chain_def split: if_splits option.splits)

lemma set_maturity_strategy_Inr:
  assumes "set_maturity_strategy cfg origin key ms s = Inr s'"
  obtains c where "SupportedChains s key = Some c" and "maturity_strategy c \<noteq> ms"
    and "s' = deposit_chain_event (MaturityStrategySet key (chain_id c) ms)
      (s\<lparr>SupportedChains := (SupportedChains s)(key \<mapsto> c\<lparr>maturity_strategy := ms\<rparr>)\<rparr>)"
  using assms by (auto simp: set_maturity_strategy_def split: if_splits option.splits)

lemma set_chain_name_Inr:
  assumes "set_chain_name cfg origin key n s = Inr s'"
  obtains c where "SupportedChains s key = Some c" and "ChainIdAndNameToUniqKey s (chain_id c) n = None"
    and "s' = deposit_chain_event (ChainNameSet key (chain_id c) (chain_name c) n)
      (s\<lparr>ChainIdAndNameToUniqKey := index_insert (chain_id c) n key
             (index_remove (chain_id c) (chain_name c) (ChainIdAndNameToUniqKey s)),
         SupportedChains := (SupportedChains s)(key \<mapsto> c\<lparr>chain_name := n\<rparr>)\<rparr>)"
  using assms by (auto simp: set_chain_name_def Let_def split: if_splits option.splits)

lemma register_chain_inv:
  assumes "chains_inv cfg s" and "register_chain cfg h origin i n ps enc strat (s, x) = Inr (s', x')"
  shows "chains_inv cfg s'"
  using assms(2)
proof (rule register_chain_Inr)
  fix key ms
  assume key: "key = ChainKeyValue s" and fresh: "ChainIdAndNameToUniqKey s i n = None"
    and count: "SupportedChainsCount s < MaxSupportedChains cfg" and lim: "unat key + 1 < 2 ^ 64"
    and s': "s' = deposit_chain_event (ChainRegistered key i n enc ms)
      (s\<lparr>SupportedChains := (SupportedChains s)(key \<mapsto>
           \<lparr>chain_id = i, chain_name = n, chain_encoding = enc, maturity_strategy = ms\<rparr>),
         ChainIdAndNameToUniqKey := index_insert i n key (ChainIdAndNameToUniqKey s),
         ChainKeyValue := key + 1, SupportedChainsCount := saturating_add (SupportedChainsCount s) 1\<rparr>)"
  have inv: "index_agrees (SupportedChains s) (ChainIdAndNameToUniqKey s)"
    "finite (dom (SupportedChains s))"
    "unat (SupportedChainsCount s) = card (dom (SupportedChains s))"
    "\<forall>k \<in> dom (SupportedChains s). k < key"
    using assms(1) key by (simp_all add: chains_inv_def)
  have new: "SupportedChains s key = None" using inv(4) by (auto simp: domIff)
  have "unat (SupportedChainsCount s) + 1 \<le> unat (MaxSupportedChains cfg)"
    using count by (simp add: word_less_nat_alt)
  moreover have "unat (saturating_add (SupportedChainsCount s) 1) = unat (SupportedChainsCount s) + 1"
    using calculation unat_less_2p [of "MaxSupportedChains cfg"] by (simp add: unat_saturating_add)
  moreover have "k < key + 1" if "k \<in> insert key (dom (SupportedChains s))" for k
    using that inv(4) lim by (intro word_less_add_1) (auto dest: bspec)
  moreover have "key \<notin> dom (SupportedChains s)" using new by (simp add: domIff)
  ultimately show ?thesis
    using index_agrees_insert [OF inv(1) new, of
        "\<lparr>chain_id = i, chain_name = n, chain_encoding = enc, maturity_strategy = ms\<rparr>"] inv(2,3) fresh
    unfolding s' chains_inv_deposit
    by (intro chains_invI) (simp_all add: word_le_nat_alt)
qed

lemma remove_chain_inv:
  assumes "chains_inv cfg s" and "remove_chain cfg l origin key rc (s, x) = Inr (s', x')"
  shows "chains_inv cfg s'"
  using assms(2)
proof (rule remove_chain_Inr)
  fix item
  assume item: "SupportedChains s key = Some item"
    and s': "s' = deposit_chain_event (ChainRemoved key (chain_id item) (chain_name item)
        (chain_encoding item) (maturity_strategy item))
      (s\<lparr>ChainIdAndNameToUniqKey :=
           index_remove (chain_id item) (chain_name item) (ChainIdAndNameToUniqKey s),
         SupportedChains := (SupportedChains s)(key := None),
         SupportedChainsCount := saturating_sub (SupportedChainsCount s) 1\<rparr>)"
  have inv: "index_agrees (SupportedChains s) (ChainIdAndNameToUniqKey s)"
    "finite (dom (SupportedChains s))"
    "unat (SupportedChainsCount s) = card (dom (SupportedChains s))"
    "\<forall>k \<in> dom (SupportedChains s). k < ChainKeyValue s"
    "unat (SupportedChainsCount s) \<le> unat (MaxSupportedChains cfg)"
    using assms(1) by (simp_all add: chains_inv_def word_le_nat_alt)
  have "card (dom (SupportedChains s) - {key}) = card (dom (SupportedChains s)) - 1"
    using item by (intro card_Diff_singleton) auto
  then show ?thesis
    using inv(2-5) index_agrees_remove [OF inv(1) item] unfolding s' chains_inv_deposit
    by (intro chains_invI) (simp_all add: word_le_nat_alt unat_saturating_sub)
qed

lemma set_maturity_strategy_inv:
  assumes "chains_inv cfg s" and "set_maturity_strategy cfg origin key ms s = Inr s'"
  shows "chains_inv cfg s'"
  using assms(2)
  by (rule set_maturity_strategy_Inr) (use assms(1) in
    \<open>auto simp: chains_inv_def insert_absorb domIff intro: index_agrees_same_key\<close>)

lemma set_chain_name_inv:
  assumes "chains_inv cfg s" and "set_chain_name cfg origin key n s = Inr s'"
  shows "chains_inv cfg s'"
  using assms(2)
  by (rule set_chain_name_Inr) (use assms(1) in
    \<open>auto simp: chains_inv_def insert_absorb domIff intro: index_agrees_rename\<close>)

lemma genesis_loop_inv:
  assumes "genesis_loop cs key s = Some (key', s')"
    and "index_agrees (SupportedChains s) (ChainIdAndNameToUniqKey s)"
    and "finite (dom (SupportedChains s))"
    and "\<forall>k \<in> dom (SupportedChains s). k < key"
  shows "index_agrees (SupportedChains s') (ChainIdAndNameToUniqKey s') \<and>
    finite (dom (SupportedChains s')) \<and> (\<forall>k \<in> dom (SupportedChains s'). k < key') \<and>
    card (dom (SupportedChains s')) = card (dom (SupportedChains s)) + length cs"
  using assms
proof (induction cs arbitrary: key s)
  case (Cons c cs)
  obtain i n enc ms where c: "c = (i, n, enc, ms)" by (cases c)
  let ?c = "\<lparr>chain_id = i, chain_name = n, chain_encoding = enc, maturity_strategy = ms\<rparr>"
  let ?s = "s\<lparr>SupportedChains := (SupportedChains s)(key \<mapsto> ?c),
    ChainIdAndNameToUniqKey := index_insert i n key (ChainIdAndNameToUniqKey s)\<rparr>"
  have fresh: "ChainIdAndNameToUniqKey s i n = None" and lim: "unat key + 1 < 2 ^ 64"
    and loop: "genesis_loop cs (key + 1) ?s = Some (key', s')"
    using Cons.prems(1) c by (auto simp: Let_def checked_add_SomeI split: if_splits option.splits)
  have new: "SupportedChains s key = None" using Cons.prems(4) by (auto simp: domIff)
  have less: "k < key + 1" if "k \<le> key" for k using that lim by (intro word_less_add_1) auto
  have agr: "index_agrees (SupportedChains ?s) (ChainIdAndNameToUniqKey ?s)"
    using index_agrees_insert [OF Cons.prems(2) new, of ?c] fresh by simp
  have bnd: "\<forall>k \<in> dom (SupportedChains ?s). k < key + 1"
    using Cons.prems(4) less by (auto dest: bspec)
  have fin: "finite (dom (SupportedChains ?s))" using Cons.prems(3) by simp
  have crd: "card (dom (SupportedChains ?s)) = card (dom (SupportedChains s)) + 1"
    using Cons.prems(3) new by (simp add: card_insert_if domIff)
  from Cons.IH [OF loop agr fin bnd] show ?case unfolding crd by simp
qed simp

section \<open>Runs of the registry\<close>

text \<open>Any sequence of successful calls, interleaved with whatever the other pallets do with their
  own state.\<close>

inductive chains_step ::
  "ChainsConfig \<Rightarrow> 's registration_handler \<Rightarrow> (ChainKey \<Rightarrow> bool \<Rightarrow> 's \<Rightarrow> 's) \<Rightarrow>
   ChainsState \<times> 's \<Rightarrow> ChainsState \<times> 's \<Rightarrow> bool" for cfg h l where
  register: "register_chain cfg h origin i n ps enc strat st = Inr st' \<Longrightarrow> chains_step cfg h l st st'"
| remove: "remove_chain cfg l origin key rc st = Inr st' \<Longrightarrow> chains_step cfg h l st st'"
| strategy: "set_maturity_strategy cfg origin key ms s = Inr s' \<Longrightarrow> chains_step cfg h l (s, x) (s', x)"
| rename: "set_chain_name cfg origin key n s = Inr s' \<Longrightarrow> chains_step cfg h l (s, x) (s', x)"
| elsewhere: "chains_step cfg h l (s, x) (s, x')"

definition chains_genesis :: "ChainsConfig \<Rightarrow> ChainsState \<Rightarrow> bool" where
  "chains_genesis cfg s \<longleftrightarrow> (\<exists>cs. length cs < 2 ^ 32 \<and> genesis_build cfg cs = Some s)"

lemma chains_genesis_inv: "chains_genesis cfg s \<Longrightarrow> chains_inv cfg s"
proof -
  assume "chains_genesis cfg s"
  then obtain cs key s0 where cs: "length cs < 2 ^ 32" "len32 cs \<le> MaxSupportedChains cfg"
      "genesis_loop cs 1 chains_default = Some (key, s0)"
    and s: "s = s0\<lparr>ChainKeyValue := key, SupportedChainsCount := len32 cs\<rparr>"
    by (auto simp: chains_genesis_def genesis_build_def split: if_splits option.splits)
  from genesis_loop_inv [OF cs(3)] have
    "index_agrees (SupportedChains s0) (ChainIdAndNameToUniqKey s0)"
    "finite (dom (SupportedChains s0))" "\<forall>k \<in> dom (SupportedChains s0). k < key"
    "card (dom (SupportedChains s0)) = length cs"
    by (simp_all add: chains_default_def index_agrees_def)
  then show ?thesis using cs(1,2) s by (simp add: chains_inv_def unat_len32)
qed

lemma chains_step_inv:
  "chains_inv cfg (fst st) \<Longrightarrow> chains_step cfg h l st st' \<Longrightarrow> chains_inv cfg (fst st')"
  by (cases st; cases st') (auto elim!: chains_step.cases intro: register_chain_inv remove_chain_inv
      set_maturity_strategy_inv set_chain_name_inv)

interpretation chains_sys: invariant_system "\<lambda>st. chains_genesis cfg (fst st)"
  "chains_step cfg h l" "\<lambda>st. chains_inv cfg (fst st)" for cfg h l
  by unfold_locales (auto intro: chains_genesis_inv chains_step_inv)

text \<open>A key below the next key that is not in use stays out of use.\<close>

definition retired_key :: "ChainKey \<Rightarrow> ChainsState \<Rightarrow> bool" where
  "retired_key k s \<longleftrightarrow> SupportedChains s k = None \<and> k < ChainKeyValue s"

lemma retired_key_step:
  assumes "retired_key k (fst st)" and "chains_step cfg h l st st'"
  shows "retired_key k (fst st')"
  using assms(2,1)
proof cases
  case (register origin i n ps enc strat)
  then have "register_chain cfg h origin i n ps enc strat (fst st, snd st) = Inr (fst st', snd st')"
    by simp
  then show ?thesis
    by (rule register_chain_Inr)
      (use assms(1) in \<open>auto simp: retired_key_def intro!: word_less_add_1\<close>)
next
  case (remove origin key rc)
  then have "remove_chain cfg l origin key rc (fst st, snd st) = Inr (fst st', snd st')" by simp
  then show ?thesis by (rule remove_chain_Inr) (use assms(1) in \<open>auto simp: retired_key_def\<close>)
next
  case (strategy origin key ms s s' x)
  from strategy(3) show ?thesis
    by (rule set_maturity_strategy_Inr) (use assms(1) strategy in \<open>auto simp: retired_key_def\<close>)
next
  case (rename origin key n s s' x)
  from rename(3) show ?thesis
    by (rule set_chain_name_Inr) (use assms(1) rename in \<open>auto simp: retired_key_def\<close>)
qed simp

text \<open>The next key never decreases.\<close>

lemma next_key_mono:
  assumes "chains_step cfg h l st st'"
  shows "ChainKeyValue (fst st) \<le> ChainKeyValue (fst st')"
  using assms
proof cases
  case (register origin i n ps enc strat)
  then have "register_chain cfg h origin i n ps enc strat (fst st, snd st) = Inr (fst st', snd st')" by simp
  then show ?thesis by (rule register_chain_Inr) (auto intro: less_imp_le [OF word_less_add_1])
next
  case (remove origin key rc)
  then have "remove_chain cfg l origin key rc (fst st, snd st) = Inr (fst st', snd st')" by simp
  then show ?thesis by (rule remove_chain_Inr) auto
next
  case (strategy origin key ms s s' x)
  from strategy(3) show ?thesis by (rule set_maturity_strategy_Inr) (use strategy in auto)
next
  case (rename origin key n s s' x)
  from rename(3) show ?thesis by (rule set_chain_name_Inr) (use rename in auto)
qed simp

text \<open>The registry as the provider other pallets see: for every enumeration order of the storage
  map, the list of supported chains holds each supported chain once and its length is the
  counter.\<close>

locale chains_provider =
  fixes inv :: "'s \<Rightarrow> bool" and is_supported :: "'s \<Rightarrow> ChainKey \<Rightarrow> bool"
    and listing :: "'s \<Rightarrow> ChainKey list" and count :: "'s \<Rightarrow> u32"
  assumes listing_complete: "inv s \<Longrightarrow> set (listing s) = {k. is_supported s k}"
    and listing_distinct: "inv s \<Longrightarrow> distinct (listing s)"
    and listing_count: "inv s \<Longrightarrow> length (listing s) = unat (count s)"
begin

lemma count_card: "inv s \<Longrightarrow> unat (count s) = card {k. is_supported s k}"
  using listing_complete listing_distinct listing_count distinct_card by metis

text \<open>A state update for every listed chain that only touches its own chain is an update of
  exactly the supported chains.\<close>

lemma fold_listing:
  assumes "inv s" and "\<And>k m. f k m = (m :: ChainKey \<Rightarrow> 'v)(k := g k (m k))"
  shows "fold f (listing s) m k = (if is_supported s k then g k (m k) else m k)"
proof -
  have "fold f ks m k = (if k \<in> set ks then g k (m k) else m k)" if "distinct ks" for ks
    using that by (induction ks arbitrary: m) (auto simp: assms(2))
  from this [OF listing_distinct [OF assms(1)]] show ?thesis
    using listing_complete [OF assms(1)] by auto
qed

end

sublocale chain_iteration \<subseteq> chains: chains_provider "chains_inv cfg" is_chain_supported
  "supported_chains iter" supported_chains_count for cfg
  by unfold_locales (auto simp: chains_inv_def supported_chains_def supported_chains_count_def
      is_chain_supported_def set_iter distinct_iter length_iter)

section \<open>Properties\<close>

text \<open>A configuration, a handler that accepts every registration, and one registration, for the
  examples.\<close>

definition example_config :: ChainsConfig where
  "example_config = \<lparr>DefaultMaturityStrategy = MATURITY_EVM_SAFE, OperatorsOrigin = (\<lambda>x. x = Root),
     MaxSupportedChains = 5\<rparr>"

definition accept_all :: "unit registration_handler" where
  "accept_all key i n params enc x = Inr x"

definition example_register :: "ChainsState \<times> unit \<Rightarrow> ChainsState \<times> unit" where
  "example_register st = commit st (register_chain example_config accept_all Root 7 [65]
     \<lparr>rp_target_sample_size = None, rp_chain_attestation_interval = None,
      rp_attestation_checkpoint_interval = None, rp_max_attestors = None, rp_max_invulnerables = None,
      rp_attestation_chain_genesis_block_number = None\<rparr> V1 None st)"

lemma example_genesis: "chains_genesis example_config chains_default"
  unfolding chains_genesis_def
  by (rule exI [of _ "[]"])
    (simp add: genesis_build_def chains_default_def example_config_def GENESIS_CHAIN_KEY_def len32_def)

lemma example_register_step:
  "chains_step example_config accept_all l st (example_register st)"
  unfolding example_register_def
  by (cases "register_chain example_config accept_all Root 7 [65]
     \<lparr>rp_target_sample_size = None, rp_chain_attestation_interval = None,
      rp_attestation_checkpoint_interval = None, rp_max_attestors = None, rp_max_invulnerables = None,
      rp_attestation_chain_genesis_block_number = None\<rparr> V1 None st"; cases st)
    (auto intro: chains_step.elsewhere chains_step.register)

text \<open>C28: In every state a run of the registry can reach from genesis, the index from chain id
  and name to key and the map of chains are inverse to each other, the counter is the number of
  registered chains and within its limit, and every key in use is below the next one.\<close>

theorem chains_registry_invariant:
  assumes "chains_genesis cfg (fst st0)" and "(chains_step cfg h l)\<^sup>*\<^sup>* st0 st"
  shows "chains_inv cfg (fst st)"
  using assms by (rule chains_sys.reachable_inv)

theorem chains_registry_invariant_witness:
  "chains_inv example_config (fst (example_register (chains_default, ())))"
  by (rule chains_registry_invariant [where h = accept_all and l = "\<lambda>_ _ x. x" and
        ?st0.0 = "(chains_default, ())"])
    (simp_all add: example_genesis example_register_step r_into_rtranclp)

text \<open>C29: A chain key is never reused.  After any run from genesis, if a key is in use, then at some
  later point is not in use, because its chain was removed, it is not in use at any point after
  that, whatever is registered, removed or changed in between.\<close>

theorem chain_key_never_reused:
  assumes "chains_genesis cfg (fst st0)" and "(chains_step cfg h l)\<^sup>*\<^sup>* st0 st1" and "is_chain_supported (fst st1) k"
    and "(chains_step cfg h l)\<^sup>*\<^sup>* st1 st2" and "\<not> is_chain_supported (fst st2) k"
    and "(chains_step cfg h l)\<^sup>*\<^sup>* st2 st3"
  shows "\<not> is_chain_supported (fst st3) k"
proof -
  have "k < ChainKeyValue (fst st1)"
    using chains_sys.reachable_inv [OF assms(1,2)] assms(3) by (auto simp: chains_inv_def is_chain_supported_def domIff)
  with assms(4) have "k < ChainKeyValue (fst st2)"
    by (induction rule: rtranclp_induct) (auto intro: less_le_trans next_key_mono)
  then have "retired_key k (fst st2)" using assms(5) by (simp add: retired_key_def is_chain_supported_def)
  with assms(6) have "retired_key k (fst st3)" by (induction rule: rtranclp_induct) (auto intro: retired_key_step)
  then show ?thesis by (simp add: retired_key_def is_chain_supported_def)
qed

text \<open>A chain is registered, removed and registered again: the second registration has another key.\<close>

definition example_remove :: "ChainsState \<times> unit \<Rightarrow> ChainsState \<times> unit" where
  "example_remove st = commit st (remove_chain example_config (\<lambda>_ _ x. x) Root 1 False st)"

lemma example_remove_step: "chains_step example_config accept_all (\<lambda>_ _ x. x) st (example_remove st)"
  unfolding example_remove_def
  by (cases "remove_chain example_config (\<lambda>_ _ x. x) Root 1 False st"; cases st)
    (auto intro: chains_step.elsewhere chains_step.remove)

lemmas example_run_defs = example_register_def example_remove_def register_chain_def remove_chain_def chains_default_def
  example_config_def accept_all_def is_chain_supported_def checked_add_def Let_def GENESIS_CHAIN_KEY_def index_insert_def index_remove_def
  saturating_add_def saturating_sub_def deposit_chain_event_def

theorem chain_key_never_reused_witness:
  "is_chain_supported (fst (example_register (chains_default, ()))) 1 \<and>
   \<not> is_chain_supported (fst (example_remove (example_register (chains_default, ())))) 1 \<and>
   \<not> is_chain_supported (fst (example_register (example_remove (example_register (chains_default, ()))))) 1 \<and>
   is_chain_supported (fst (example_register (example_remove (example_register (chains_default, ()))))) 2"
proof -
  let ?r = "example_register (chains_default, ())"
  have s: "is_chain_supported (fst ?r) 1" by (simp add: example_run_defs)
  have r: "\<not> is_chain_supported (fst (example_remove ?r)) 1" by (simp add: example_run_defs)
  have n: "is_chain_supported (fst (example_register (example_remove ?r))) 2" by (simp add: example_run_defs)
  have "\<not> is_chain_supported (fst (example_register (example_remove ?r))) 1"
    by (rule chain_key_never_reused [where cfg = example_config and h = accept_all and l = "\<lambda>_ _ x. x" and
          ?st0.0 = "(chains_default, ())", OF _ r_into_rtranclp s r_into_rtranclp r r_into_rtranclp])
      (use example_genesis in simp, rule example_register_step, rule example_remove_step, rule example_register_step)
  with s r n show ?thesis by simp
qed

text \<open>The validation of a maturity strategy accepts exactly the strings the off-chain
  components can parse.\<close>

theorem valid_strategy_iff_parses:
  "is_valid_maturity_strategy s \<longleftrightarrow> (\<exists>m. strategy_try_from s = Inr m)"
  by (auto simp: is_valid_maturity_strategy_def strategy_try_from_def starts_with_def
      strip_prefix_def split: option.splits)

text \<open>Registering a chain and removing it again restores the maps and the counter of a
  well-formed registry; only the next key stays advanced.\<close>

theorem register_remove_roundtrip:
  assumes "chains_inv cfg s"
    and "register_chain cfg h o1 i n ps enc strat (s, x) = Inr (s1, x1)"
    and "OperatorsOrigin cfg o2"
  shows "\<exists>s2 x2. remove_chain cfg l o2 (ChainKeyValue s) rc (s1, x1) = Inr (s2, x2) \<and>
    SupportedChains s2 = SupportedChains s \<and>
    ChainIdAndNameToUniqKey s2 = ChainIdAndNameToUniqKey s \<and>
    SupportedChainsCount s2 = SupportedChainsCount s \<and>
    ChainKeyValue s2 = ChainKeyValue s + 1"
  using assms(2)
proof (rule register_chain_Inr)
  fix key ms
  assume key: "key = ChainKeyValue s" and fresh: "ChainIdAndNameToUniqKey s i n = None"
    and count: "SupportedChainsCount s < MaxSupportedChains cfg"
    and s1: "s1 = deposit_chain_event (ChainRegistered key i n enc ms)
      (s\<lparr>SupportedChains := (SupportedChains s)(key \<mapsto>
           \<lparr>chain_id = i, chain_name = n, chain_encoding = enc, maturity_strategy = ms\<rparr>),
         ChainIdAndNameToUniqKey := index_insert i n key (ChainIdAndNameToUniqKey s),
         ChainKeyValue := key + 1, SupportedChainsCount := saturating_add (SupportedChainsCount s) 1\<rparr>)"
  have "SupportedChains s key = None" using assms(1) key by (auto simp: chains_inv_def)
  moreover have "saturating_sub (saturating_add (SupportedChainsCount s) 1) 1 = SupportedChainsCount s"
    using count by (simp add: word_unat_eq_iff unat_saturating_sub unat_saturating_add word_less_nat_alt)
      (use unat_less_2p [of "MaxSupportedChains cfg"] in simp)
  moreover have "index_remove i n (index_insert i n key idx) = idx"
    if "idx i n = None" for idx using that by (auto simp: index_remove_def index_insert_def fun_eq_iff)
  ultimately show ?thesis
    using s1 key fresh assms(3) by (simp add: remove_chain_def fun_upd_idem)
qed

theorem register_remove_roundtrip_witness:
  "\<exists>s2 x2. remove_chain example_config (\<lambda>_ _ x. x) Root 1 False
      (example_register (chains_default, ())) = Inr (s2, x2) \<and> SupportedChains s2 = Map.empty"
proof -
  obtain s1 where s1: "example_register (chains_default, ()) = (s1, ())"
    "register_chain example_config accept_all Root 7 [65]
     \<lparr>rp_target_sample_size = None, rp_chain_attestation_interval = None,
      rp_attestation_checkpoint_interval = None, rp_max_attestors = None, rp_max_invulnerables = None,
      rp_attestation_chain_genesis_block_number = None\<rparr> V1 None (chains_default, ()) = Inr (s1, ())"
    by (simp add: example_register_def register_chain_def example_config_def chains_default_def
        checked_add_def accept_all_def GENESIS_CHAIN_KEY_def)
  from register_remove_roundtrip [OF chains_genesis_inv [OF example_genesis] s1(2), of Root "\<lambda>_ _ x. x" False]
  show ?thesis unfolding s1(1) by (auto simp: example_config_def chains_default_def GENESIS_CHAIN_KEY_def)
qed

end
