(* ===== verification/Randomness.thy ===== *)
theory Randomness
  imports Frame
begin

text \<open>The pallet \<open>pallets/randomness\<close>, which records the randomness of every epoch and notifies its
  listeners at an epoch boundary.  The epoch index and the randomness of the BABE pallet are
  arguments of the hook.  The bounded ordered map is the list of its entries in key order.

  The property is a refinement: after any sequence of blocks the map holds the most recent
  entries of the full history of epoch changes, as many as its bound allows.\<close>

section \<open>Bounded ordered maps\<close>

text \<open>\<open>BoundedBTreeMap::try_insert\<close> replaces an existing key or inserts a new one, and fails when
  the map would outgrow its bound.\<close>

fun btree_insert :: "u64 \<Rightarrow> 'v \<Rightarrow> (u64 \<times> 'v) list \<Rightarrow> (u64 \<times> 'v) list" where
  "btree_insert k v [] = [(k, v)]"
| "btree_insert k v ((a, b) # m) =
    (if k < a then (k, v) # (a, b) # m
     else if k = a then (k, v) # m
     else (a, b) # btree_insert k v m)"

definition try_insert :: "nat \<Rightarrow> u64 \<Rightarrow> 'v \<Rightarrow> (u64 \<times> 'v) list \<Rightarrow> (u64 \<times> 'v) list option" where
  "try_insert bound k v m =
    (if length m < bound \<or> k \<in> fst ` set m then Some (btree_insert k v m) else None)"

definition btree_remove :: "u64 \<Rightarrow> (u64 \<times> 'v) list \<Rightarrow> (u64 \<times> 'v) list" where
  "btree_remove k m = filter (\<lambda>e. fst e \<noteq> k) m"

section \<open>The pallet\<close>

type_synonym Randomness = "256 word"

datatype RandomnessEvent = StoreRandomnessForEpoch u64 Randomness

record RandomnessState =
  LastSeenEpochIndex :: u64
  RandomnessByEpochIndex :: "(u64 \<times> Randomness) list"
  randomness_events :: "RandomnessEvent list"

definition randomness_default :: RandomnessState where
  "randomness_default = \<lparr>LastSeenEpochIndex = 0, RandomnessByEpochIndex = [], randomness_events = []\<rparr>"

definition store_epoch_randomness :: "u32 \<Rightarrow> u64 \<Rightarrow> Randomness \<Rightarrow> RandomnessState \<Rightarrow> RandomnessState" where
  "store_epoch_randomness max_entries epoch_index randomness s =
    (let m = RandomnessByEpochIndex s;
         m1 = (if length m \<ge> unat max_entries
               then (case m of [] \<Rightarrow> m | (oldest, _) # _ \<Rightarrow> btree_remove oldest m) else m);
         m2 = (case try_insert (unat max_entries) epoch_index randomness m1 of Some m' \<Rightarrow> m' | None \<Rightarrow> m1)
     in s\<lparr>LastSeenEpochIndex := epoch_index, RandomnessByEpochIndex := m2,
          randomness_events := randomness_events s @ [StoreRandomnessForEpoch epoch_index randomness]\<rparr>)"

text \<open>The hook: BABE's epoch index and randomness are read from that pallet.\<close>

definition randomness_on_initialize ::
  "u32 \<Rightarrow> (u64 \<Rightarrow> Randomness \<Rightarrow> 's \<Rightarrow> 's) \<Rightarrow> u64 \<Rightarrow> Randomness \<Rightarrow> RandomnessState \<times> 's \<Rightarrow> RandomnessState \<times> 's" where
  "randomness_on_initialize max_entries on_new_epoch_randomness babe_epoch babe_randomness st =
    (let (s, other) = st in
     if babe_epoch > LastSeenEpochIndex s
     then (store_epoch_randomness max_entries babe_epoch babe_randomness s,
           on_new_epoch_randomness babe_epoch babe_randomness other)
     else (s, other))"

definition randomness_by_epoch_id :: "RandomnessState \<Rightarrow> u64 \<Rightarrow> Randomness" where
  "randomness_by_epoch_id s epoch_id =
    (case map_of (RandomnessByEpochIndex s) epoch_id of Some r \<Rightarrow> r | None \<Rightarrow> 0)"

section \<open>Refinement of the full history\<close>

text \<open>The epoch changes among the blocks after an epoch \<open>seen\<close>.\<close>

fun history :: "u64 \<Rightarrow> (u64 \<times> Randomness) list \<Rightarrow> (u64 \<times> Randomness) list" where
  "history seen [] = []"
| "history seen ((e, r) # bs) = (if e > seen then (e, r) # history e bs else history seen bs)"

definition latest :: "nat \<Rightarrow> 'a list \<Rightarrow> 'a list" where
  "latest n xs = drop (length xs - n) xs"

lemma latest_snoc:
  "latest n (xs @ [x]) =
    (if n = 0 then [] else if length (latest n xs) < n then latest n xs @ [x] else tl (latest n xs) @ [x])"
  by (auto simp: latest_def tl_drop Suc_diff_le simp flip: drop_Suc)

lemma latest_small: "length xs \<le> n \<Longrightarrow> latest n xs = xs"
  by (simp add: latest_def)

lemma btree_insert_snoc:
  "\<forall>(a, b) \<in> set m. a < k \<Longrightarrow> btree_insert k v m = m @ [(k, v)]"
  by (induction m) auto

lemma btree_remove_first:
  "sorted_wrt (\<lambda>x y. fst x < fst y) ((a, b) # m) \<Longrightarrow> btree_remove a ((a, b) # m) = m"
  by (auto simp: btree_remove_def intro: filter_True)

text \<open>The abstraction relation: the map is the latest part of the history, which is sorted and
  ends at or before the last seen epoch.\<close>

definition keeps_history :: "u32 \<Rightarrow> (u64 \<times> Randomness) list \<Rightarrow> RandomnessState \<Rightarrow> bool" where
  "keeps_history n h s \<longleftrightarrow> RandomnessByEpochIndex s = latest (unat n) h \<and>
    sorted_wrt (\<lambda>x y. fst x < fst y) h \<and> (\<forall>x \<in> set h. fst x \<le> LastSeenEpochIndex s)"

lemma sorted_wrt_latest: "sorted_wrt P xs \<Longrightarrow> sorted_wrt P (latest n xs)"
  by (simp add: latest_def sorted_wrt_drop)

lemma set_latest: "set (latest n xs) \<subseteq> set xs"
  by (simp add: latest_def set_drop_subset)

lemma length_latest: "length (latest n xs) = min n (length xs)"
  by (auto simp: latest_def)

lemma LastSeenEpochIndex_store [simp]:
  "LastSeenEpochIndex (store_epoch_randomness n e r s) = e"
  by (simp add: store_epoch_randomness_def Let_def)

lemma store_keeps_history:
  assumes "keeps_history n h s" and "LastSeenEpochIndex s < e"
  shows "keeps_history n (h @ [(e, r)]) (store_epoch_randomness n e r s)"
proof -
  let ?m = "latest (unat n) h"
  have m: "RandomnessByEpochIndex s = ?m" and srt: "sorted_wrt (\<lambda>x y. fst x < fst y) ?m"
    and below: "\<forall>x \<in> set h. fst x < e"
    using assms by (auto simp: keeps_history_def intro: sorted_wrt_latest)
  have sub: "set ?m \<subseteq> set h" "set (tl ?m) \<subseteq> set h"
    using set_latest [of "unat n" h] by (cases ?m; auto)+
  have ins: "btree_insert e r ?m = ?m @ [(e, r)]" "btree_insert e r (tl ?m) = tl ?m @ [(e, r)]"
    using sub below by (intro btree_insert_snoc; fastforce)+
  have "RandomnessByEpochIndex (store_epoch_randomness n e r s) = latest (unat n) (h @ [(e, r)])"
  proof (cases "length ?m < unat n")
    case True
    then show ?thesis using m ins by (auto simp: store_epoch_randomness_def try_insert_def latest_snoc Let_def)
  next
    case False
    show ?thesis
    proof (cases ?m)
      case Nil
      with False m show ?thesis by (auto simp: store_epoch_randomness_def try_insert_def latest_snoc Let_def)
    next
      case (Cons x xs)
      then have "btree_remove (fst x) ?m = tl ?m"
        using btree_remove_first [of "fst x" "snd x" xs] srt by simp
      moreover have "unat n = Suc (length xs)"
        using False Cons length_latest [of "unat n" h] by auto
      ultimately show ?thesis using m ins Cons
        by (cases x) (simp add: store_epoch_randomness_def try_insert_def latest_snoc Let_def)
    qed
  qed
  moreover have "\<forall>x \<in> set h. fst x \<le> e" using below by (simp add: less_imp_le)
  ultimately show ?thesis using assms(1) below by (simp add: keeps_history_def sorted_wrt_append)
qed

text \<open>The hook over a sequence of blocks.\<close>

definition randomness_run ::
  "u32 \<Rightarrow> (u64 \<Rightarrow> Randomness \<Rightarrow> 's \<Rightarrow> 's) \<Rightarrow> (u64 \<times> Randomness) list \<Rightarrow> RandomnessState \<times> 's \<Rightarrow> RandomnessState \<times> 's" where
  "randomness_run n l bs st = foldl (\<lambda>st (e, r). randomness_on_initialize n l e r st) st bs"

lemma run_keeps_history:
  assumes "keeps_history n h s"
  shows "keeps_history n (h @ history (LastSeenEpochIndex s) bs)
    (fst (randomness_run n l bs (s, x)))"
  unfolding randomness_run_def using assms
proof (induction bs arbitrary: h s x)
  case (Cons b bs)
  obtain e r where b: "b = (e, r)" by (cases b)
  show ?case
  proof (cases "LastSeenEpochIndex s < e")
    case True
    with Cons.IH [OF store_keeps_history [OF Cons.prems True]] b
    show ?thesis by (simp add: randomness_on_initialize_def)
  next
    case False
    with Cons b show ?thesis by (simp add: randomness_on_initialize_def)
  qed
qed simp

section \<open>Properties\<close>

text \<open>C40: After any sequence of blocks, each with the epoch index and randomness BABE shows in
  it, the stored map holds exactly the latest \<open>MaxRandomnessEntries\<close> epoch changes of the
  sequence, and asking for one of them returns its randomness.\<close>

theorem randomness_keeps_latest_epochs:
  "RandomnessByEpochIndex (fst (randomness_run n l bs (randomness_default, x))) =
     latest (unat n) (history 0 bs) \<and>
   list_all (\<lambda>(e, r). randomness_by_epoch_id (fst (randomness_run n l bs (randomness_default, x))) e = r)
     (latest (unat n) (history 0 bs))"
proof -
  let ?s = "fst (randomness_run n l bs (randomness_default, x))"
  have k: "keeps_history n (history 0 bs) ?s"
    using run_keeps_history [of n "[]" randomness_default bs l x]
    by (simp add: keeps_history_def randomness_default_def latest_def)
  then have m: "RandomnessByEpochIndex ?s = latest (unat n) (history 0 bs)"
    by (simp add: keeps_history_def)
  have "sorted_wrt (<) (map fst (RandomnessByEpochIndex ?s))"
    using k m by (auto simp: keeps_history_def sorted_wrt_map intro: sorted_wrt_latest)
  then have "distinct (map fst (RandomnessByEpochIndex ?s))" by (simp add: strict_sorted_iff)
  then show ?thesis using m by (auto simp: randomness_by_epoch_id_def list_all_iff)
qed

end
