(* ===== verification/PalletTypes.thy ===== *)
theory PalletTypes
  imports Frame
begin

text \<open>The constants of the attestation pallet's configuration, its errors and its events
  (\<open>pallets/attestation/src/lib.rs\<close>), with the variants the pallet declares.\<close>

section \<open>Constants, errors and events\<close>

type_synonym Balance = u128

type_synonym EraIndex = u32

definition CHECKPOINT_BUCKET_SIZE :: u64 where
  "CHECKPOINT_BUCKET_SIZE = 1000"

datatype AttestorElectionPolicy = OpenToAny | AuthorizedOnly | DeniedToAll

record PalletConfig =
  DefaultAttestationsPerCheckpoint :: u32
  MaxAttestationCheckpointInterval :: u32
  DefaultAttestationInterval :: u64
  MaxChainAttestationInterval :: u64
  DefaultTargetSampleSize :: u32
  DefaultMaxCatchup :: u32
  MaxCatchupCeiling :: u32
  MaxAttestationNodes :: u32
  DefaultMinBondRequirement :: Balance
  MaxUnlockingChunks :: u32
  BondingDuration :: u32
  DefaultAttestationRetentionDuration :: u32
  MaxAttestationsPerBlock :: u32
  MaxCheckpointingQueueLen :: u32
  MaxCheckpointsImportedPerCall :: u32
  DefaultAttestationChainGenesisBlockNumber :: u64
  OperatorsOrigin :: "Origin \<Rightarrow> bool"

datatype (plugins only: size code) PalletError =
    AlreadyAttestor | AttestorListFull | AddressNotAttestor | InvulnerableListFull
  | MaxInvulnerablesCannotBeChanged | AddressIsNotInvulnerable | InvalidAttestation
  | NoPreviousDigest | AttestationExists | ChainNotSupported | InvalidBlsPublicKey
  | InvalidBlsSignature | InvalidProofOfPossession | CheckpointCreationError | LastCheckpointEmpty
  | CheckpointWidthIsZero | CheckpointingQueueDrained | AttestationNotFound
  | CheckpointTargetNotFound | InvalidAttestorAccount | InsufficientBalance | NotStash | NoMoreChunks
  | NotYourAttestor | AlreadyBonded | AttestorNotIdle | NoSupportedChains
  | InvalidAttestationInterval | InvalidAttestationsPerCheckpoint | InvalidMaxCatchup
  | InvalidTargetSampleSize | InvalidMaxAttestors | TooManyAttestors
  | AttestationFoundWhileImporting | InvalidAttestationBlockNumber | InvalidAttestorFound
  | AttestorNotActive | AttestorWithInvalidPublicKey | MajorityNotReached | BlsKeyAlreadyRegistered
  | InsufficientUniqueSigners | RetiredAttestorPendingFull | AttestorAlreadyAuthorized
  | NotPreAuthorizedToRegister | ControllerRetiredByAnotherStash | AttestorNotAuthorized
  | NoFinalizedAttestation | AttestationsAlreadyExist | EmptyContinuityProof
  | InvalidAttestationContinuityProof | InvalidAttestationContinuityProofTail
  | InvalidAttestationContinuityProofHead | InvalidAttestationContinuityProofBlock
  | InvalidAttestationContinuityProofBlockGenesis | InvalidAttestationPrevDigest
  | TooManyAttestations | NoSuchCheckpoint | LastCheckpointNotSet
  | TriedToRevertDuringOngoingReversion | AttestorAlreadyIdle | AttestorChillAlreadyScheduled
  | CheckpointMaintenanceInProgress | EmptyCheckpointPatch | CheckpointSuffixWipeTooLarge
  | TooManyAttestationsForForwardPatchClear | OversizedContinuityProof
  | AttestationCleanupInProgress | TooManyAttestationsInBlock | InvalidMaxInvulnerables

datatype (plugins only: size code) PalletEvent =
    AttestorRegistered ChainKey AccountId
  | AttestorUnregistered ChainKey AccountId
  | InvulnerableRegistered ChainKey AccountId
  | InvulnerableUnregistered ChainKey AccountId
  | BlockAttested ChainKey u64 Digest
  | CheckpointReached ChainKey AttestationCheckpoint
  | PendingTargetSampleSizeSet ChainKey u32
  | TargetSampleSizeChanged ChainKey u32
  | Bonded AccountId Balance
  | Unbonded AccountId Balance
  | Withdrawn AccountId Balance
  | AttestorActivated ChainKey AccountId BlsPublicKey
  | AttestorChilled ChainKey AccountId
  | AttestorsElected u64 ChainKey "AccountId list"
  | MinBondRequirementUpdated ChainKey Balance
  | AttestationIntervalChanged ChainKey u64
  | PendingAttestationIntervalSet ChainKey u64
  | CheckpointsCleared ChainKey
  | CheckpointIntervalChanged ChainKey u32
  | MaxCatchupChanged ChainKey u32
  | PendingMaxCatchupSet ChainKey u32
  | ClearedStorageForRemovedChain ChainKey
  | MaxAttestorsChanged ChainKey u32
  | AttestationChainGenesisBlockNumberSet ChainKey u64
  | ChangedElectionPolicy ChainKey AttestorElectionPolicy
  | AuthorizedAttestorAdded ChainKey AccountId
  | AuthorizedAttestorRemoved ChainKey AccountId
  | ForcedElection ChainKey u64
  | ForcedUpdatesApplied
  | RevertedAttestationChainTo ChainKey u64 Digest
  | ForwardCheckpointPatchApplied ChainKey bool u64

end
