(* ===== verification/Params.thy ===== *)
theory Params
  imports PalletTypes
begin

text \<open>The per-chain parameters of the attestation pallet (\<open>pallets/attestation/src/lib.rs\<close>): the
  parameter maps, the operator calls
  that change them, the pending updates applied at an epoch boundary, and the parameter part of
  registering and removing a chain.

  The state of the pallet is built in layers by record extension (parameters, ledger, registry,
  attestation store, cleanup), so that an operation of a lower layer works on every higher one.

  The main property is that the parameter bounds the rest of the pallet relies on hold in every
  reachable state, both for the values in force and for the values in force once the pending
  updates apply.\<close>

section \<open>The parameter maps\<close>

record ParamsState =
  pallet_events :: "PalletEvent list"
  TargetSampleSize :: "ChainKey \<rightharpoonup> u32"
  PendingTargetSampleSize :: "ChainKey \<rightharpoonup> u32"
  ChainAttestationInterval :: "ChainKey \<rightharpoonup> u64"
  PendingAttestationInterval :: "ChainKey \<rightharpoonup> u64"
  AttestationCheckpointInterval :: "ChainKey \<rightharpoonup> u32"
  MaxCatchup :: "ChainKey \<rightharpoonup> u32"
  PendingMaxCatchup :: "ChainKey \<rightharpoonup> u32"
  MinBondRequirement :: "ChainKey \<rightharpoonup> Balance"
  MaxAttestors :: "ChainKey \<rightharpoonup> u32"
  MaxInvulnerables :: "ChainKey \<rightharpoonup> u32"
  AttestationRetentionDuration :: "ChainKey \<rightharpoonup> u32"
  AttestationChainGenesisBlockNumber :: "ChainKey \<rightharpoonup> u64"
  ChainElectionPolicy :: "ChainKey \<rightharpoonup> AttestorElectionPolicy"

definition deposit_event :: "PalletEvent \<Rightarrow> 'z ParamsState_scheme \<Rightarrow> 'z ParamsState_scheme" where
  "deposit_event e s = s\<lparr>pallet_events := pallet_events s @ [e]\<rparr>"

definition chain_attestation_interval :: "PalletConfig \<Rightarrow> 'z ParamsState_scheme \<Rightarrow> ChainKey \<Rightarrow> u64" where
  "chain_attestation_interval cfg s = map_get (DefaultAttestationInterval cfg) (ChainAttestationInterval s)"

definition attestation_checkpoint_interval :: "PalletConfig \<Rightarrow> 'z ParamsState_scheme \<Rightarrow> ChainKey \<Rightarrow> u32" where
  "attestation_checkpoint_interval cfg s =
    map_get (DefaultAttestationsPerCheckpoint cfg) (AttestationCheckpointInterval s)"

definition max_catchup :: "PalletConfig \<Rightarrow> 'z ParamsState_scheme \<Rightarrow> ChainKey \<Rightarrow> u32" where
  "max_catchup cfg s = map_get (DefaultMaxCatchup cfg) (MaxCatchup s)"

definition target_sample_size :: "PalletConfig \<Rightarrow> 'z ParamsState_scheme \<Rightarrow> ChainKey \<Rightarrow> u32" where
  "target_sample_size cfg s = map_get (DefaultTargetSampleSize cfg) (TargetSampleSize s)"

definition min_bond_requirement :: "PalletConfig \<Rightarrow> 'z ParamsState_scheme \<Rightarrow> ChainKey \<Rightarrow> Balance" where
  "min_bond_requirement cfg s = map_get (DefaultMinBondRequirement cfg) (MinBondRequirement s)"

definition max_attestors :: "PalletConfig \<Rightarrow> 'z ParamsState_scheme \<Rightarrow> ChainKey \<Rightarrow> u32" where
  "max_attestors cfg s = map_get (MaxAttestationNodes cfg) (MaxAttestors s)"

definition max_invulnerables :: "PalletConfig \<Rightarrow> 'z ParamsState_scheme \<Rightarrow> ChainKey \<Rightarrow> u32" where
  "max_invulnerables cfg s = map_get (MaxAttestationNodes cfg) (MaxInvulnerables s)"

definition attestation_retention_duration :: "PalletConfig \<Rightarrow> 'z ParamsState_scheme \<Rightarrow> ChainKey \<Rightarrow> u32" where
  "attestation_retention_duration cfg s =
    map_get (DefaultAttestationRetentionDuration cfg) (AttestationRetentionDuration s)"

definition attestation_chain_genesis_block_number :: "PalletConfig \<Rightarrow> 'z ParamsState_scheme \<Rightarrow> ChainKey \<Rightarrow> u64" where
  "attestation_chain_genesis_block_number cfg s =
    map_get (DefaultAttestationChainGenesisBlockNumber cfg) (AttestationChainGenesisBlockNumber s)"

definition chain_election_policy :: "'z ParamsState_scheme \<Rightarrow> ChainKey \<Rightarrow> AttestorElectionPolicy" where
  "chain_election_policy s = map_get OpenToAny (ChainElectionPolicy s)"

definition effective_max_catchup :: "PalletConfig \<Rightarrow> 'z ParamsState_scheme \<Rightarrow> ChainKey \<Rightarrow> u32" where
  "effective_max_catchup cfg s k =
    (case PendingMaxCatchup s k of Some v \<Rightarrow> v | None \<Rightarrow> max_catchup cfg s k)"

definition effective_attestation_interval :: "PalletConfig \<Rightarrow> 'z ParamsState_scheme \<Rightarrow> ChainKey \<Rightarrow> u64" where
  "effective_attestation_interval cfg s k =
    (case PendingAttestationInterval s k of Some v \<Rightarrow> v | None \<Rightarrow> chain_attestation_interval cfg s k)"

section \<open>Operator calls\<close>

text \<open>\<open>supp\<close> is \<open>T::SupportedChains::is_chain_supported\<close>.\<close>

definition set_chain_attestation_interval ::
  "PalletConfig \<Rightarrow> (ChainKey \<Rightarrow> bool) \<Rightarrow> Origin \<Rightarrow> ChainKey \<Rightarrow> u64 \<Rightarrow>
   'z ParamsState_scheme \<Rightarrow> (PalletError, 'z ParamsState_scheme) dispatch" where
  "set_chain_attestation_interval cfg supp origin k interval s =
    (if \<not> OperatorsOrigin cfg origin then Inl BadOrigin
     else if \<not> interval > 0 then Inl (Module InvalidAttestationInterval)
     else if \<not> interval \<le> MaxChainAttestationInterval cfg then Inl (Module InvalidAttestationInterval)
     else if \<not> interval \<le> ucast (effective_max_catchup cfg s k) then Inl (Module InvalidAttestationInterval)
     else if \<not> supp k then Inl (Module ChainNotSupported)
     else Inr (deposit_event (PendingAttestationIntervalSet k interval)
       (s\<lparr>PendingAttestationInterval := (PendingAttestationInterval s)(k \<mapsto> interval)\<rparr>)))"

definition set_target_sample_size ::
  "PalletConfig \<Rightarrow> (ChainKey \<Rightarrow> bool) \<Rightarrow> Origin \<Rightarrow> ChainKey \<Rightarrow> u32 \<Rightarrow>
   'z ParamsState_scheme \<Rightarrow> (PalletError, 'z ParamsState_scheme) dispatch" where
  "set_target_sample_size cfg supp origin k new_size s =
    (if \<not> OperatorsOrigin cfg origin then Inl BadOrigin
     else if \<not> new_size > 0 then Inl (Module InvalidTargetSampleSize)
     else if \<not> supp k then Inl (Module ChainNotSupported)
     else Inr (deposit_event (PendingTargetSampleSizeSet k new_size)
       (s\<lparr>PendingTargetSampleSize := (PendingTargetSampleSize s)(k \<mapsto> new_size)\<rparr>)))"

definition set_attestations_per_checkpoint ::
  "PalletConfig \<Rightarrow> (ChainKey \<Rightarrow> bool) \<Rightarrow> Origin \<Rightarrow> ChainKey \<Rightarrow> u32 \<Rightarrow>
   'z ParamsState_scheme \<Rightarrow> (PalletError, 'z ParamsState_scheme) dispatch" where
  "set_attestations_per_checkpoint cfg supp origin k n s =
    (if \<not> OperatorsOrigin cfg origin then Inl BadOrigin
     else if \<not> n > 0 then Inl (Module InvalidAttestationsPerCheckpoint)
     else if \<not> n \<le> MaxAttestationCheckpointInterval cfg then Inl (Module InvalidAttestationsPerCheckpoint)
     else if \<not> supp k then Inl (Module ChainNotSupported)
     else Inr (deposit_event (CheckpointIntervalChanged k n)
       (s\<lparr>AttestationCheckpointInterval := (AttestationCheckpointInterval s)(k \<mapsto> n)\<rparr>)))"

definition set_min_bond_requirement ::
  "PalletConfig \<Rightarrow> Origin \<Rightarrow> ChainKey \<Rightarrow> Balance \<Rightarrow>
   'z ParamsState_scheme \<Rightarrow> (PalletError, 'z ParamsState_scheme) dispatch" where
  "set_min_bond_requirement cfg origin k bond s =
    (if \<not> OperatorsOrigin cfg origin then Inl BadOrigin
     else Inr (deposit_event (MinBondRequirementUpdated k bond)
       (s\<lparr>MinBondRequirement := (MinBondRequirement s)(k \<mapsto> bond)\<rparr>)))"

definition set_max_catchup ::
  "PalletConfig \<Rightarrow> (ChainKey \<Rightarrow> bool) \<Rightarrow> Origin \<Rightarrow> ChainKey \<Rightarrow> u32 \<Rightarrow>
   'z ParamsState_scheme \<Rightarrow> (PalletError, 'z ParamsState_scheme) dispatch" where
  "set_max_catchup cfg supp origin k catchup s =
    (if \<not> OperatorsOrigin cfg origin then Inl BadOrigin
     else if \<not> catchup > 0 then Inl (Module InvalidMaxCatchup)
     else if \<not> catchup \<le> MaxCatchupCeiling cfg then Inl (Module InvalidMaxCatchup)
     else if \<not> ucast catchup \<ge> effective_attestation_interval cfg s k then Inl (Module InvalidMaxCatchup)
     else if \<not> supp k then Inl (Module ChainNotSupported)
     else Inr (deposit_event (PendingMaxCatchupSet k catchup)
       (s\<lparr>PendingMaxCatchup := (PendingMaxCatchup s)(k \<mapsto> catchup)\<rparr>)))"

definition set_election_policy ::
  "PalletConfig \<Rightarrow> (ChainKey \<Rightarrow> bool) \<Rightarrow> Origin \<Rightarrow> ChainKey \<Rightarrow> AttestorElectionPolicy \<Rightarrow>
   'z ParamsState_scheme \<Rightarrow> (PalletError, 'z ParamsState_scheme) dispatch" where
  "set_election_policy cfg supp origin k policy s =
    (if \<not> OperatorsOrigin cfg origin then Inl BadOrigin
     else if \<not> supp k then Inl (Module ChainNotSupported)
     else Inr (deposit_event (ChangedElectionPolicy k policy)
       (s\<lparr>ChainElectionPolicy := (ChainElectionPolicy s)(k \<mapsto> policy)\<rparr>)))"

section \<open>Pending updates\<close>

text \<open>Each \<open>drain\<close> takes the rows of a pending map out one by one, in the enumeration order of the
  storage, and applies them.  The first component counts the applied rows.\<close>

definition apply_pending_interval :: "ChainKey \<Rightarrow> u32 \<times> 'z ParamsState_scheme \<Rightarrow> u32 \<times> 'z ParamsState_scheme" where
  "apply_pending_interval k a =
    (case a of (applied, s) \<Rightarrow> (case PendingAttestationInterval s k of None \<Rightarrow> a
     | Some v \<Rightarrow> (saturating_add applied 1,
         deposit_event (AttestationIntervalChanged k v)
           (s\<lparr>PendingAttestationInterval := (PendingAttestationInterval s)(k := None),
              ChainAttestationInterval := (ChainAttestationInterval s)(k \<mapsto> v)\<rparr>))))"

definition apply_pending_sample_size :: "ChainKey \<Rightarrow> u32 \<times> 'z ParamsState_scheme \<Rightarrow> u32 \<times> 'z ParamsState_scheme" where
  "apply_pending_sample_size k a =
    (case a of (applied, s) \<Rightarrow> (case PendingTargetSampleSize s k of None \<Rightarrow> a
     | Some v \<Rightarrow> (saturating_add applied 1,
         deposit_event (TargetSampleSizeChanged k v)
           (s\<lparr>PendingTargetSampleSize := (PendingTargetSampleSize s)(k := None),
              TargetSampleSize := (TargetSampleSize s)(k \<mapsto> v)\<rparr>))))"

definition apply_pending_catchup :: "ChainKey \<Rightarrow> u32 \<times> 'z ParamsState_scheme \<Rightarrow> u32 \<times> 'z ParamsState_scheme" where
  "apply_pending_catchup k a =
    (case a of (applied, s) \<Rightarrow> (case PendingMaxCatchup s k of None \<Rightarrow> a
     | Some v \<Rightarrow> (saturating_add applied 1,
         deposit_event (MaxCatchupChanged k v)
           (s\<lparr>PendingMaxCatchup := (PendingMaxCatchup s)(k := None),
              MaxCatchup := (MaxCatchup s)(k \<mapsto> v)\<rparr>))))"

definition apply_interval_updates ::
  "(ChainKey set \<Rightarrow> ChainKey list) \<Rightarrow> 'z ParamsState_scheme \<Rightarrow> u32 \<times> 'z ParamsState_scheme" where
  "apply_interval_updates iter s =
    (let a1 = fold apply_pending_interval (iter (dom (PendingAttestationInterval s))) (0, s);
         a2 = fold apply_pending_sample_size (iter (dom (PendingTargetSampleSize (snd a1)))) a1
     in fold apply_pending_catchup (iter (dom (PendingMaxCatchup (snd a2)))) a2)"

definition force_apply_updates ::
  "PalletConfig \<Rightarrow> (ChainKey set \<Rightarrow> ChainKey list) \<Rightarrow> Origin \<Rightarrow>
   'z ParamsState_scheme \<Rightarrow> (PalletError, 'z ParamsState_scheme) dispatch" where
  "force_apply_updates cfg iter origin s =
    (if \<not> OperatorsOrigin cfg origin then Inl BadOrigin
     else Inr (deposit_event ForcedUpdatesApplied (snd (apply_interval_updates iter s))))"

section \<open>Registration and removal of a chain\<close>

definition unwrap_or :: "'a option \<Rightarrow> 'a \<Rightarrow> 'a" where
  "unwrap_or o' d = (case o' of Some v \<Rightarrow> v | None \<Rightarrow> d)"

definition on_register_chain ::
  "PalletConfig \<Rightarrow> ChainKey \<Rightarrow> ChainId \<Rightarrow> bytes \<Rightarrow> RegistrationParams \<Rightarrow> ChainEncodingVersion \<Rightarrow>
   'z ParamsState_scheme \<Rightarrow> string + 'z ParamsState_scheme" where
  "on_register_chain cfg k i n p enc s =
    (if rp_target_sample_size p = Some 0 then Inl ''InvalidTargetSampleSize''
     else if (case rp_chain_attestation_interval p of None \<Rightarrow> False
         | Some v \<Rightarrow> v = 0 \<or> v > MaxChainAttestationInterval cfg \<or> v > ucast (max_catchup cfg s k))
       then Inl ''InvalidAttestationInterval''
     else if (case rp_attestation_checkpoint_interval p of None \<Rightarrow> False
         | Some v \<Rightarrow> v = 0 \<or> v > MaxAttestationCheckpointInterval cfg)
       then Inl ''InvalidAttestationsPerCheckpoint''
     else if (case rp_max_attestors p of None \<Rightarrow> False | Some v \<Rightarrow> v = 0 \<or> v > MaxAttestationNodes cfg)
       then Inl ''InvalidMaxAttestors''
     else if (case rp_max_invulnerables p of None \<Rightarrow> False | Some v \<Rightarrow> v = 0 \<or> v > MaxAttestationNodes cfg)
       then Inl ''InvalidMaxInvulnerables''
     else
       (let sample = unwrap_or (rp_target_sample_size p) (DefaultTargetSampleSize cfg);
            interval = unwrap_or (rp_chain_attestation_interval p) (DefaultAttestationInterval cfg);
            per_checkpoint = unwrap_or (rp_attestation_checkpoint_interval p) (DefaultAttestationsPerCheckpoint cfg);
            attestors = unwrap_or (rp_max_attestors p) (MaxAttestationNodes cfg);
            invulnerables = unwrap_or (rp_max_invulnerables p) (MaxAttestationNodes cfg);
            genesis = unwrap_or (rp_attestation_chain_genesis_block_number p)
              (DefaultAttestationChainGenesisBlockNumber cfg)
        in Inr (s\<lparr>TargetSampleSize := (TargetSampleSize s)(k \<mapsto> sample),
             ChainAttestationInterval := (ChainAttestationInterval s)(k \<mapsto> interval),
             AttestationCheckpointInterval := (AttestationCheckpointInterval s)(k \<mapsto> per_checkpoint),
             MaxAttestors := (MaxAttestors s)(k \<mapsto> attestors),
             MaxInvulnerables := (MaxInvulnerables s)(k \<mapsto> invulnerables),
             AttestationChainGenesisBlockNumber := (AttestationChainGenesisBlockNumber s)(k \<mapsto> genesis),
             pallet_events := pallet_events s @
               [TargetSampleSizeChanged k sample, AttestationIntervalChanged k interval,
                CheckpointIntervalChanged k per_checkpoint, MaxAttestorsChanged k attestors,
                AttestationChainGenesisBlockNumberSet k genesis]\<rparr>)))"

text \<open>The parameter rows \<open>on_supported_chain_removed\<close> drops.\<close>

definition remove_chain_params :: "ChainKey \<Rightarrow> 'z ParamsState_scheme \<Rightarrow> 'z ParamsState_scheme" where
  "remove_chain_params k s =
    s\<lparr>MaxAttestors := (MaxAttestors s)(k := None),
      MaxInvulnerables := (MaxInvulnerables s)(k := None),
      PendingTargetSampleSize := (PendingTargetSampleSize s)(k := None),
      TargetSampleSize := (TargetSampleSize s)(k := None),
      ChainAttestationInterval := (ChainAttestationInterval s)(k := None),
      PendingAttestationInterval := (PendingAttestationInterval s)(k := None),
      AttestationCheckpointInterval := (AttestationCheckpointInterval s)(k := None),
      MaxCatchup := (MaxCatchup s)(k := None),
      PendingMaxCatchup := (PendingMaxCatchup s)(k := None),
      AttestationRetentionDuration := (AttestationRetentionDuration s)(k := None)\<rparr>"

section \<open>Genesis\<close>

text \<open>The parameter part of the genesis builder for one configured chain; \<open>None\<close> is a failed
  assertion.\<close>

definition genesis_chain_params ::
  "PalletConfig \<Rightarrow> AttestationChainConfiguration \<Rightarrow> 'z ParamsState_scheme \<Rightarrow> 'z ParamsState_scheme option" where
  "genesis_chain_params cfg c s =
    (if \<not> cfg_target_sample_size c > 0 then None
     else if \<not> (cfg_attestation_interval c > 0 \<and> cfg_attestation_interval c \<le> MaxChainAttestationInterval cfg
         \<and> cfg_attestation_interval c \<le> ucast (DefaultMaxCatchup cfg)) then None
     else if \<not> (cfg_attestations_per_checkpoint c > 0
         \<and> cfg_attestations_per_checkpoint c \<le> MaxAttestationCheckpointInterval cfg) then None
     else let k = cfg_chain_key c in
       Some (s\<lparr>TargetSampleSize := (TargetSampleSize s)(k \<mapsto> cfg_target_sample_size c),
         ChainAttestationInterval := (ChainAttestationInterval s)(k \<mapsto> cfg_attestation_interval c),
         AttestationCheckpointInterval := (AttestationCheckpointInterval s)(k \<mapsto> cfg_attestations_per_checkpoint c),
         MaxAttestors := (MaxAttestors s)(k \<mapsto> MaxAttestationNodes cfg),
         MaxInvulnerables := (MaxInvulnerables s)(k \<mapsto> MaxAttestationNodes cfg)\<rparr>))"

definition params_default :: ParamsState where
  "params_default = \<lparr>pallet_events = [], TargetSampleSize = Map.empty, PendingTargetSampleSize = Map.empty,
     ChainAttestationInterval = Map.empty, PendingAttestationInterval = Map.empty,
     AttestationCheckpointInterval = Map.empty, MaxCatchup = Map.empty, PendingMaxCatchup = Map.empty,
     MinBondRequirement = Map.empty, MaxAttestors = Map.empty, MaxInvulnerables = Map.empty,
     AttestationRetentionDuration = Map.empty, AttestationChainGenesisBlockNumber = Map.empty,
     ChainElectionPolicy = Map.empty\<rparr>"

fun genesis_params ::
  "PalletConfig \<Rightarrow> AttestationChainConfiguration list \<Rightarrow> ParamsState \<Rightarrow> ParamsState option" where
  "genesis_params cfg [] s = Some s"
| "genesis_params cfg (c # cs) s =
    (case genesis_chain_params cfg c s of None \<Rightarrow> None | Some s' \<Rightarrow> genesis_params cfg cs s')"

section \<open>The parameter bounds\<close>

text \<open>What \<open>integrity_test\<close> and the runtime's choice of constants guarantee of the configuration.\<close>

definition config_ok :: "PalletConfig \<Rightarrow> bool" where
  "config_ok cfg \<longleftrightarrow>
    0 < DefaultAttestationInterval cfg \<and>
    DefaultAttestationInterval cfg \<le> MaxChainAttestationInterval cfg \<and>
    DefaultAttestationInterval cfg \<le> ucast (DefaultMaxCatchup cfg) \<and>
    DefaultMaxCatchup cfg \<le> MaxCatchupCeiling cfg \<and>
    0 < DefaultAttestationsPerCheckpoint cfg \<and>
    DefaultAttestationsPerCheckpoint cfg \<le> MaxAttestationCheckpointInterval cfg \<and>
    0 < DefaultTargetSampleSize cfg \<and> 0 < MaxAttestationNodes cfg"

text \<open>An attestation interval and a catch-up bound that leave every height in reach.\<close>

definition interval_bounds :: "PalletConfig \<Rightarrow> u64 \<Rightarrow> u32 \<Rightarrow> bool" where
  "interval_bounds cfg i c \<longleftrightarrow>
    0 < i \<and> i \<le> MaxChainAttestationInterval cfg \<and> i \<le> ucast c \<and> c \<le> MaxCatchupCeiling cfg"

definition chain_params_ok :: "PalletConfig \<Rightarrow> 'z ParamsState_scheme \<Rightarrow> ChainKey \<Rightarrow> bool" where
  "chain_params_ok cfg s k \<longleftrightarrow>
    interval_bounds cfg (chain_attestation_interval cfg s k) (max_catchup cfg s k) \<and>
    interval_bounds cfg (effective_attestation_interval cfg s k) (effective_max_catchup cfg s k) \<and>
    0 < attestation_checkpoint_interval cfg s k \<and>
    attestation_checkpoint_interval cfg s k \<le> MaxAttestationCheckpointInterval cfg \<and>
    0 < target_sample_size cfg s k \<and> PendingTargetSampleSize s k \<noteq> Some 0 \<and>
    0 < max_attestors cfg s k \<and> max_attestors cfg s k \<le> MaxAttestationNodes cfg"

lemma chain_params_okI:
  assumes "interval_bounds cfg (chain_attestation_interval cfg s k) (max_catchup cfg s k)"
    and "interval_bounds cfg (effective_attestation_interval cfg s k) (effective_max_catchup cfg s k)"
    and "0 < attestation_checkpoint_interval cfg s k"
    and "attestation_checkpoint_interval cfg s k \<le> MaxAttestationCheckpointInterval cfg"
    and "0 < target_sample_size cfg s k" and "PendingTargetSampleSize s k \<noteq> Some 0"
    and "0 < max_attestors cfg s k" and "max_attestors cfg s k \<le> MaxAttestationNodes cfg"
  shows "chain_params_ok cfg s k"
  using assms by (simp add: chain_params_ok_def)

text \<open>Only supported chains have pending updates.\<close>

definition no_pending :: "'z ParamsState_scheme \<Rightarrow> ChainKey \<Rightarrow> bool" where
  "no_pending s k \<longleftrightarrow> PendingAttestationInterval s k = None \<and> PendingTargetSampleSize s k = None \<and>
    PendingMaxCatchup s k = None"

definition params_inv :: "PalletConfig \<Rightarrow> (ChainKey \<Rightarrow> bool) \<Rightarrow> 'z ParamsState_scheme \<Rightarrow> bool" where
  "params_inv cfg supp s \<longleftrightarrow>
    (\<forall>k. chain_params_ok cfg s k) \<and> (\<forall>k. \<not> supp k \<longrightarrow> no_pending s k \<and> MaxCatchup s k = None)"

lemmas param_getters = chain_attestation_interval_def attestation_checkpoint_interval_def
  max_catchup_def target_sample_size_def min_bond_requirement_def max_attestors_def
  max_invulnerables_def attestation_retention_duration_def
  attestation_chain_genesis_block_number_def chain_election_policy_def

lemma effective_max_catchup_get:
  "effective_max_catchup cfg s k = map_get (max_catchup cfg s k) (PendingMaxCatchup s) k"
  by (simp add: effective_max_catchup_def map_get_def)

lemma effective_attestation_interval_get:
  "effective_attestation_interval cfg s k =
    map_get (chain_attestation_interval cfg s k) (PendingAttestationInterval s) k"
  by (simp add: effective_attestation_interval_def map_get_def)

lemmas param_bounds = chain_params_ok_def interval_bounds_def no_pending_def
  effective_max_catchup_get effective_attestation_interval_get

lemma deposit_event_simps [simp]:
  "TargetSampleSize (deposit_event e s) = TargetSampleSize s"
  "PendingTargetSampleSize (deposit_event e s) = PendingTargetSampleSize s"
  "ChainAttestationInterval (deposit_event e s) = ChainAttestationInterval s"
  "PendingAttestationInterval (deposit_event e s) = PendingAttestationInterval s"
  "AttestationCheckpointInterval (deposit_event e s) = AttestationCheckpointInterval s"
  "MaxCatchup (deposit_event e s) = MaxCatchup s"
  "PendingMaxCatchup (deposit_event e s) = PendingMaxCatchup s"
  "MinBondRequirement (deposit_event e s) = MinBondRequirement s"
  "MaxAttestors (deposit_event e s) = MaxAttestors s"
  "MaxInvulnerables (deposit_event e s) = MaxInvulnerables s"
  "AttestationRetentionDuration (deposit_event e s) = AttestationRetentionDuration s"
  "AttestationChainGenesisBlockNumber (deposit_event e s) = AttestationChainGenesisBlockNumber s"
  "ChainElectionPolicy (deposit_event e s) = ChainElectionPolicy s"
  "pallet_events (deposit_event e s) = pallet_events s @ [e]"
  "ParamsState.more (deposit_event e s) = ParamsState.more s"
  by (simp_all add: deposit_event_def)

lemma set_chain_attestation_interval_inv:
  "params_inv cfg supp s \<Longrightarrow> set_chain_attestation_interval cfg supp origin k v s = Inr s' \<Longrightarrow> params_inv cfg supp s'"
  by (auto simp: set_chain_attestation_interval_def params_inv_def param_bounds param_getters
      split: if_splits)

lemma set_target_sample_size_inv:
  "params_inv cfg supp s \<Longrightarrow> set_target_sample_size cfg supp origin k v s = Inr s' \<Longrightarrow> params_inv cfg supp s'"
  by (auto simp: set_target_sample_size_def params_inv_def param_bounds param_getters
      split: if_splits)

lemma set_attestations_per_checkpoint_inv:
  "params_inv cfg supp s \<Longrightarrow> set_attestations_per_checkpoint cfg supp origin k v s = Inr s' \<Longrightarrow> params_inv cfg supp s'"
  by (auto simp: set_attestations_per_checkpoint_def params_inv_def param_bounds param_getters
      split: if_splits)

lemma set_max_catchup_inv:
  "params_inv cfg supp s \<Longrightarrow> set_max_catchup cfg supp origin k v s = Inr s' \<Longrightarrow> params_inv cfg supp s'"
  by (auto simp: set_max_catchup_def params_inv_def param_bounds param_getters
      split: if_splits)

lemma on_register_chain_Inr:
  assumes "on_register_chain cfg k i n p enc s = Inr s'" and "config_ok cfg"
    and "max_catchup cfg s k = DefaultMaxCatchup cfg"
  obtains sample interval per_checkpoint attestors invs genesis evs where
    "s' = s\<lparr>TargetSampleSize := (TargetSampleSize s)(k \<mapsto> sample),
       ChainAttestationInterval := (ChainAttestationInterval s)(k \<mapsto> interval),
       AttestationCheckpointInterval := (AttestationCheckpointInterval s)(k \<mapsto> per_checkpoint),
       MaxAttestors := (MaxAttestors s)(k \<mapsto> attestors),
       MaxInvulnerables := (MaxInvulnerables s)(k \<mapsto> invs),
       AttestationChainGenesisBlockNumber := (AttestationChainGenesisBlockNumber s)(k \<mapsto> genesis),
       pallet_events := pallet_events s @ evs\<rparr>"
    and "0 < sample" and "interval_bounds cfg interval (DefaultMaxCatchup cfg)"
    and "0 < per_checkpoint" and "per_checkpoint \<le> MaxAttestationCheckpointInterval cfg"
    and "0 < attestors" and "attestors \<le> MaxAttestationNodes cfg"
proof -
  have "rp_target_sample_size p \<noteq> Some 0"
    and i: "\<And>v. rp_chain_attestation_interval p = Some v \<Longrightarrow> interval_bounds cfg v (DefaultMaxCatchup cfg)"
    and c: "\<And>v. rp_attestation_checkpoint_interval p = Some v \<Longrightarrow> 0 < v \<and> v \<le> MaxAttestationCheckpointInterval cfg"
    and m: "\<And>v. rp_max_attestors p = Some v \<Longrightarrow> 0 < v \<and> v \<le> MaxAttestationNodes cfg"
    using assms
    by (auto simp: on_register_chain_def interval_bounds_def config_ok_def word_gt_0 not_less split: if_splits)
  then have "0 < unwrap_or (rp_target_sample_size p) (DefaultTargetSampleSize cfg)"
    using assms(2) by (auto simp: unwrap_or_def config_ok_def word_gt_0 split: option.splits)
  moreover have "interval_bounds cfg (unwrap_or (rp_chain_attestation_interval p)
      (DefaultAttestationInterval cfg)) (DefaultMaxCatchup cfg)"
    using i assms(2) by (auto simp: unwrap_or_def config_ok_def interval_bounds_def split: option.splits)
  moreover have "0 < unwrap_or (rp_attestation_checkpoint_interval p) (DefaultAttestationsPerCheckpoint cfg)"
    "unwrap_or (rp_attestation_checkpoint_interval p) (DefaultAttestationsPerCheckpoint cfg)
      \<le> MaxAttestationCheckpointInterval cfg"
    using c assms(2) by (auto simp: unwrap_or_def config_ok_def split: option.splits)
  moreover have "0 < unwrap_or (rp_max_attestors p) (MaxAttestationNodes cfg)"
    "unwrap_or (rp_max_attestors p) (MaxAttestationNodes cfg) \<le> MaxAttestationNodes cfg"
    using m assms(2) by (auto simp: unwrap_or_def config_ok_def split: option.splits)
  ultimately show thesis using assms(1)
    by (intro that) (auto simp: on_register_chain_def Let_def split: if_splits)
qed

lemma on_register_chain_inv:
  assumes "config_ok cfg" and "params_inv cfg supp s" and "\<not> supp k"
    and "on_register_chain cfg k i n p enc s = Inr s'"
  shows "params_inv cfg (supp(k := True)) s'"
proof -
  have k: "no_pending s k" "max_catchup cfg s k = DefaultMaxCatchup cfg"
    using assms(2,3) by (auto simp: params_inv_def max_catchup_def map_get_def)
  from on_register_chain_Inr [OF assms(4,1) k(2)] obtain sample interval per_checkpoint attestors invs genesis evs where
    s': "s' = s\<lparr>TargetSampleSize := (TargetSampleSize s)(k \<mapsto> sample),
       ChainAttestationInterval := (ChainAttestationInterval s)(k \<mapsto> interval),
       AttestationCheckpointInterval := (AttestationCheckpointInterval s)(k \<mapsto> per_checkpoint),
       MaxAttestors := (MaxAttestors s)(k \<mapsto> attestors),
       MaxInvulnerables := (MaxInvulnerables s)(k \<mapsto> invs),
       AttestationChainGenesisBlockNumber := (AttestationChainGenesisBlockNumber s)(k \<mapsto> genesis),
       pallet_events := pallet_events s @ evs\<rparr>"
    and b: "0 < sample" "interval_bounds cfg interval (DefaultMaxCatchup cfg)"
      "0 < per_checkpoint" "per_checkpoint \<le> MaxAttestationCheckpointInterval cfg"
      "0 < attestors" "attestors \<le> MaxAttestationNodes cfg" .
  have "chain_params_ok cfg s' k"
    using b k unfolding s' by (simp add: param_bounds param_getters map_get_def)
  moreover have "chain_params_ok cfg s' k'" if "k' \<noteq> k" for k'
    using assms(2) that unfolding s' by (simp add: params_inv_def param_bounds param_getters)
  ultimately have "chain_params_ok cfg s' k'" for k' by (cases "k' = k") auto
  then show ?thesis using assms(2) unfolding s' params_inv_def by (auto simp: no_pending_def)
qed

lemma remove_chain_params_inv:
  "config_ok cfg \<Longrightarrow> params_inv cfg supp s \<Longrightarrow> params_inv cfg (supp(k := False)) (remove_chain_params k s)"
  by (auto simp: remove_chain_params_def params_inv_def param_bounds param_getters config_ok_def)

section \<open>What applying the pending updates does\<close>

text \<open>A map of pending values, drained into a map of values in force by a step per key that keeps
  everything else.  The three pending maps of the pallet are instances.\<close>

locale pending_map =
  fixes pend :: "'s \<Rightarrow> 'k \<rightharpoonup> 'v" and vals :: "'s \<Rightarrow> 'k \<rightharpoonup> 'v" and rest :: "'s \<Rightarrow> 'f"
    and step :: "'k \<Rightarrow> u32 \<times> 's \<Rightarrow> u32 \<times> 's"
  assumes step_None: "pend s k = None \<Longrightarrow> step k (n, s) = (n, s)"
    and step_pend: "pend s k = Some v \<Longrightarrow> pend (snd (step k (n, s))) = (pend s)(k := None)"
    and step_vals: "pend s k = Some v \<Longrightarrow> vals (snd (step k (n, s))) = (vals s)(k \<mapsto> v)"
    and step_rest: "rest (snd (step k (n, s))) = rest s"
begin

lemma fold_rest: "rest (snd (fold step ks a)) = rest (snd a)"
  by (induction ks arbitrary: a) (simp, metis fold_simps(2) prod.collapse step_rest)

lemma fold_pend: "pend (snd (fold step ks (n, s))) = pend s |` (- set ks)"
proof (induction ks arbitrary: n s)
  case (Cons k ks)
  show ?case
  proof (cases "pend s k")
    case None
    then show ?thesis using Cons by (auto simp: step_None restrict_map_def fun_eq_iff)
  next
    case (Some v)
    obtain n' s' where s': "step k (n, s) = (n', s')" by (cases "step k (n, s)")
    then have "pend s' = (pend s)(k := None)" using step_pend [OF Some, of n] by simp
    then show ?thesis using Cons s' by (auto simp: restrict_map_def fun_eq_iff)
  qed
qed (simp add: restrict_map_def)

lemma fold_vals: "vals (snd (fold step ks (n, s))) = vals s ++ (pend s |` set ks)"
proof (induction ks arbitrary: n s)
  case (Cons k ks)
  show ?case
  proof (cases "pend s k")
    case None
    then show ?thesis using Cons by (auto simp: step_None restrict_map_def fun_eq_iff map_add_def)
  next
    case (Some v)
    obtain n' s' where s': "step k (n, s) = (n', s')" by (cases "step k (n, s)")
    then have "pend s' = (pend s)(k := None)" "vals s' = (vals s)(k \<mapsto> v)"
      using step_pend [OF Some, of n] step_vals [OF Some, of n] by simp_all
    then show ?thesis using Cons s' Some
      by (auto simp: restrict_map_def fun_eq_iff map_add_def split: option.splits)
  qed
qed simp

end

text \<open>What a fold keeps: all other parameter maps and the higher layers of the state.\<close>

definition besides_interval :: "'z ParamsState_scheme \<Rightarrow> _" where
  "besides_interval s = (TargetSampleSize s, PendingTargetSampleSize s, AttestationCheckpointInterval s,
     MaxCatchup s, PendingMaxCatchup s, MinBondRequirement s, MaxAttestors s, MaxInvulnerables s,
     AttestationRetentionDuration s, AttestationChainGenesisBlockNumber s, ChainElectionPolicy s,
     ParamsState.more s)"

definition besides_sample_size :: "'z ParamsState_scheme \<Rightarrow> _" where
  "besides_sample_size s = (ChainAttestationInterval s, PendingAttestationInterval s,
     AttestationCheckpointInterval s, MaxCatchup s, PendingMaxCatchup s, MinBondRequirement s,
     MaxAttestors s, MaxInvulnerables s, AttestationRetentionDuration s,
     AttestationChainGenesisBlockNumber s, ChainElectionPolicy s, ParamsState.more s)"

definition besides_catchup :: "'z ParamsState_scheme \<Rightarrow> _" where
  "besides_catchup s = (TargetSampleSize s, PendingTargetSampleSize s, ChainAttestationInterval s,
     PendingAttestationInterval s, AttestationCheckpointInterval s, MinBondRequirement s,
     MaxAttestors s, MaxInvulnerables s, AttestationRetentionDuration s,
     AttestationChainGenesisBlockNumber s, ChainElectionPolicy s, ParamsState.more s)"

interpretation pending_interval: pending_map PendingAttestationInterval ChainAttestationInterval
  besides_interval apply_pending_interval
  by unfold_locales (auto simp: apply_pending_interval_def besides_interval_def split: option.splits)

interpretation pending_sample_size: pending_map PendingTargetSampleSize TargetSampleSize
  besides_sample_size apply_pending_sample_size
  by unfold_locales (auto simp: apply_pending_sample_size_def besides_sample_size_def split: option.splits)

interpretation pending_catchup: pending_map PendingMaxCatchup MaxCatchup
  besides_catchup apply_pending_catchup
  by unfold_locales (auto simp: apply_pending_catchup_def besides_catchup_def split: option.splits)

text \<open>After \<open>apply_interval_updates\<close> nothing is pending, every pending value is in force and
  everything else is as before.\<close>

lemma restrict_dom [simp]: "m |` dom m = m"
  by (auto simp: restrict_map_def fun_eq_iff domIff)

lemma restrict_compl_dom [simp]: "m |` (- dom m) = Map.empty"
  by (auto simp: restrict_map_def fun_eq_iff domIff)

lemma apply_interval_updates_fields:
  assumes "chain_iteration iter" and "apply_interval_updates iter s = (n, s')"
  shows "PendingAttestationInterval s' = Map.empty" "PendingTargetSampleSize s' = Map.empty"
    "PendingMaxCatchup s' = Map.empty"
    "ChainAttestationInterval s' = ChainAttestationInterval s ++ PendingAttestationInterval s"
    "TargetSampleSize s' = TargetSampleSize s ++ PendingTargetSampleSize s"
    "MaxCatchup s' = MaxCatchup s ++ PendingMaxCatchup s"
    "AttestationCheckpointInterval s' = AttestationCheckpointInterval s"
    "MinBondRequirement s' = MinBondRequirement s" "MaxAttestors s' = MaxAttestors s"
    "MaxInvulnerables s' = MaxInvulnerables s"
    "AttestationRetentionDuration s' = AttestationRetentionDuration s"
    "AttestationChainGenesisBlockNumber s' = AttestationChainGenesisBlockNumber s"
    "ChainElectionPolicy s' = ChainElectionPolicy s" "ParamsState.more s' = ParamsState.more s"
proof -
  have iter [simp]: "set (iter A) = A" for A using assms(1) by (rule chain_iteration.set_chain_iter)
  obtain n1 s1 where 1: "fold apply_pending_interval (iter (dom (PendingAttestationInterval s))) (0, s) = (n1, s1)"
    by (cases "fold apply_pending_interval (iter (dom (PendingAttestationInterval s))) (0, s)")
  obtain n2 s2 where 2: "fold apply_pending_sample_size (iter (dom (PendingTargetSampleSize s1))) (n1, s1) = (n2, s2)"
    by (cases "fold apply_pending_sample_size (iter (dom (PendingTargetSampleSize s1))) (n1, s1)")
  have 3: "fold apply_pending_catchup (iter (dom (PendingMaxCatchup s2))) (n2, s2) = (n, s')"
    using assms(2) 1 2 by (simp add: apply_interval_updates_def)
  note f1 = pending_interval.fold_pend [of "iter (dom (PendingAttestationInterval s))" 0 s, unfolded 1, simplified]
    pending_interval.fold_vals [of "iter (dom (PendingAttestationInterval s))" 0 s, unfolded 1, simplified]
    pending_interval.fold_rest [of "iter (dom (PendingAttestationInterval s))" "(0, s)", unfolded 1 besides_interval_def, simplified]
  note f2 = pending_sample_size.fold_pend [of "iter (dom (PendingTargetSampleSize s1))" n1 s1, unfolded 2, simplified]
    pending_sample_size.fold_vals [of "iter (dom (PendingTargetSampleSize s1))" n1 s1, unfolded 2, simplified]
    pending_sample_size.fold_rest [of "iter (dom (PendingTargetSampleSize s1))" "(n1, s1)", unfolded 2 besides_sample_size_def, simplified]
  note f3 = pending_catchup.fold_pend [of "iter (dom (PendingMaxCatchup s2))" n2 s2, unfolded 3, simplified]
    pending_catchup.fold_vals [of "iter (dom (PendingMaxCatchup s2))" n2 s2, unfolded 3, simplified]
    pending_catchup.fold_rest [of "iter (dom (PendingMaxCatchup s2))" "(n2, s2)", unfolded 3 besides_catchup_def, simplified]
  show "PendingAttestationInterval s' = Map.empty" "PendingTargetSampleSize s' = Map.empty"
    "PendingMaxCatchup s' = Map.empty"
    "ChainAttestationInterval s' = ChainAttestationInterval s ++ PendingAttestationInterval s"
    "TargetSampleSize s' = TargetSampleSize s ++ PendingTargetSampleSize s"
    "MaxCatchup s' = MaxCatchup s ++ PendingMaxCatchup s"
    "AttestationCheckpointInterval s' = AttestationCheckpointInterval s"
    "MinBondRequirement s' = MinBondRequirement s" "MaxAttestors s' = MaxAttestors s"
    "MaxInvulnerables s' = MaxInvulnerables s"
    "AttestationRetentionDuration s' = AttestationRetentionDuration s"
    "AttestationChainGenesisBlockNumber s' = AttestationChainGenesisBlockNumber s"
    "ChainElectionPolicy s' = ChainElectionPolicy s" "ParamsState.more s' = ParamsState.more s"
    using f1 f2 f3 by simp_all
qed

lemma map_get_map_add: "map_get d (m ++ p) k = map_get (map_get d m k) p k"
  by (simp add: map_get_def map_add_def split: option.splits)

lemma apply_interval_updates_inv:
  assumes "chain_iteration iter" and "params_inv cfg supp s"
  shows "params_inv cfg supp (snd (apply_interval_updates iter s))"
proof -
  obtain n s' where s': "apply_interval_updates iter s = (n, s')"
    by (cases "apply_interval_updates iter s")
  note f = apply_interval_updates_fields [OF assms(1) s']
  have i: "chain_attestation_interval cfg s' k = effective_attestation_interval cfg s k"
    and c: "max_catchup cfg s' k = effective_max_catchup cfg s k"
    and t: "target_sample_size cfg s' k = map_get (target_sample_size cfg s k) (PendingTargetSampleSize s) k" for k
    by (simp_all add: effective_attestation_interval_get effective_max_catchup_get param_getters f map_get_map_add)
  have e: "effective_attestation_interval cfg s' k = effective_attestation_interval cfg s k"
    "effective_max_catchup cfg s' k = effective_max_catchup cfg s k" for k
    by (simp_all add: effective_attestation_interval_def effective_max_catchup_def [of _ s'] f i c)
  have o: "attestation_checkpoint_interval cfg s' k = attestation_checkpoint_interval cfg s k"
    "max_attestors cfg s' k = max_attestors cfg s k" for k by (simp_all add: param_getters f)
  have "chain_params_ok cfg s' k" for k
  proof -
    have "chain_params_ok cfg s k" using assms(2) by (simp add: params_inv_def)
    moreover from this have "0 < target_sample_size cfg s' k"
      by (auto simp: t chain_params_ok_def map_get_def word_gt_0 split: option.splits)
    ultimately show ?thesis by (simp add: chain_params_ok_def i c e o f)
  qed
  then show ?thesis
    using assms(2) s' f by (auto simp: params_inv_def no_pending_def map_add_def)
qed

section \<open>Runs\<close>

text \<open>The state of the parameters together with the set of supported chains.  Operations that
  leave the parameter maps alone are \<open>elsewhere\<close> steps.\<close>

definition params_view :: "'z ParamsState_scheme \<Rightarrow> ParamsState" where
  "params_view s = ParamsState.truncate (s\<lparr>pallet_events := []\<rparr>)"

lemma params_viewD:
  assumes "params_view s = params_view t"
  shows "TargetSampleSize s = TargetSampleSize t" "PendingTargetSampleSize s = PendingTargetSampleSize t"
    "ChainAttestationInterval s = ChainAttestationInterval t"
    "PendingAttestationInterval s = PendingAttestationInterval t"
    "AttestationCheckpointInterval s = AttestationCheckpointInterval t"
    "MaxCatchup s = MaxCatchup t" "PendingMaxCatchup s = PendingMaxCatchup t"
    "MinBondRequirement s = MinBondRequirement t" "MaxAttestors s = MaxAttestors t"
    "MaxInvulnerables s = MaxInvulnerables t"
    "AttestationRetentionDuration s = AttestationRetentionDuration t"
    "AttestationChainGenesisBlockNumber s = AttestationChainGenesisBlockNumber t"
    "ChainElectionPolicy s = ChainElectionPolicy t"
  using assms by (simp_all add: params_view_def ParamsState.truncate_def)

lemma params_inv_view:
  assumes "params_view s = params_view t"
  shows "params_inv cfg supp s = params_inv cfg supp t"
  by (simp add: params_inv_def param_bounds param_getters params_viewD [OF assms])

lemma params_view_deposit [simp]: "params_view (deposit_event e s) = params_view s"
  by (simp add: params_view_def deposit_event_def)

lemma params_inv_deposit [simp]: "params_inv cfg supp (deposit_event e s) = params_inv cfg supp s"
  by (rule params_inv_view) simp

inductive params_step ::
  "PalletConfig \<Rightarrow> (ChainKey set \<Rightarrow> ChainKey list) \<Rightarrow> (ChainKey \<Rightarrow> bool) \<times> 'z ParamsState_scheme \<Rightarrow>
   (ChainKey \<Rightarrow> bool) \<times> 'z ParamsState_scheme \<Rightarrow> bool" for cfg iter where
  interval: "set_chain_attestation_interval cfg supp origin k v s = Inr s' \<Longrightarrow> params_step cfg iter (supp, s) (supp, s')"
| sample: "set_target_sample_size cfg supp origin k n s = Inr s' \<Longrightarrow> params_step cfg iter (supp, s) (supp, s')"
| per_checkpoint: "set_attestations_per_checkpoint cfg supp origin k n s = Inr s' \<Longrightarrow> params_step cfg iter (supp, s) (supp, s')"
| min_bond: "set_min_bond_requirement cfg origin k b s = Inr s' \<Longrightarrow> params_step cfg iter (supp, s) (supp, s')"
| catchup: "set_max_catchup cfg supp origin k n s = Inr s' \<Longrightarrow> params_step cfg iter (supp, s) (supp, s')"
| policy: "set_election_policy cfg supp origin k p s = Inr s' \<Longrightarrow> params_step cfg iter (supp, s) (supp, s')"
| force: "force_apply_updates cfg iter origin s = Inr s' \<Longrightarrow> params_step cfg iter (supp, s) (supp, s')"
| epoch: "apply_interval_updates iter s = (n, s') \<Longrightarrow> params_step cfg iter (supp, s) (supp, s')"
| register: "\<not> supp k \<Longrightarrow> on_register_chain cfg k i nm p enc s = Inr s' \<Longrightarrow>
    params_step cfg iter (supp, s) (supp(k := True), s')"
| removal: "params_step cfg iter (supp, s) (supp(k := False), remove_chain_params k s)"
| roster: "0 < n \<Longrightarrow> n \<le> MaxAttestationNodes cfg \<Longrightarrow>
    params_step cfg iter (supp, s) (supp, s\<lparr>MaxAttestors := (MaxAttestors s)(k \<mapsto> n)\<rparr>)"
| invulnerables: "params_step cfg iter (supp, s) (supp, s\<lparr>MaxInvulnerables := (MaxInvulnerables s)(k \<mapsto> n)\<rparr>)"
| genesis_number: "params_step cfg iter (supp, s)
    (supp, s\<lparr>AttestationChainGenesisBlockNumber := (AttestationChainGenesisBlockNumber s)(k \<mapsto> h)\<rparr>)"
| elsewhere: "params_view s' = params_view s \<Longrightarrow> params_step cfg iter (supp, s) (supp, s')"

lemma genesis_params_inv:
  "genesis_params cfg cs s = Some s' \<Longrightarrow> config_ok cfg \<Longrightarrow> params_inv cfg supp s \<Longrightarrow> MaxCatchup s = Map.empty \<Longrightarrow>
    (\<forall>k. no_pending s k) \<Longrightarrow> params_inv cfg supp s'"
proof (induction cs arbitrary: s)
  case (Cons c cs)
  then obtain s1 where s1: "genesis_chain_params cfg c s = Some s1" "genesis_params cfg cs s1 = Some s'"
    by (auto split: option.splits)
  have old: "chain_params_ok cfg s k" "no_pending s k" "MaxCatchup s k = None" for k
    using Cons.prems(3-5) by (simp_all add: params_inv_def)
  have "chain_params_ok cfg s1 k" for k
    using s1(1) old [of k] Cons.prems(2)
    by (cases "k = cfg_chain_key c")
      (simp_all add: genesis_chain_params_def param_bounds param_getters config_ok_def map_get_def Let_def
        split: if_splits, auto)
  moreover have "MaxCatchup s1 = Map.empty" "\<forall>k. no_pending s1 k"
    using s1(1) Cons.prems(4,5) by (auto simp: genesis_chain_params_def no_pending_def Let_def split: if_splits)
  ultimately show ?case using Cons.IH [OF s1(2) Cons.prems(2)] by (simp add: params_inv_def)
qed simp

definition params_genesis :: "PalletConfig \<Rightarrow> 'z ParamsState_scheme \<Rightarrow> bool" where
  "params_genesis cfg s \<longleftrightarrow> (\<exists>cs g. genesis_params cfg cs params_default = Some g \<and> params_view s = params_view g)"

lemma params_genesis_inv: "config_ok cfg \<Longrightarrow> params_genesis cfg s \<Longrightarrow> params_inv cfg supp s"
proof -
  assume "config_ok cfg" "params_genesis cfg s"
  then obtain cs g where g: "genesis_params cfg cs params_default = Some g" "params_view s = params_view g"
    by (auto simp: params_genesis_def)
  have "chain_params_ok cfg params_default k" for k
    using \<open>config_ok cfg\<close> unfolding config_ok_def
    by (intro chain_params_okI) (auto simp: param_getters params_default_def interval_bounds_def
        effective_max_catchup_def effective_attestation_interval_def)
  moreover have pending: "no_pending params_default k" "MaxCatchup params_default k = None" for k
    by (simp_all add: no_pending_def params_default_def)
  ultimately have "params_inv cfg supp params_default" unfolding params_inv_def by blast
  then have "params_inv cfg supp g"
    using g(1) \<open>config_ok cfg\<close> pending by (intro genesis_params_inv [of cfg cs params_default g]) auto
  then show ?thesis using g(2) params_inv_view by blast
qed

lemma params_step_inv:
  assumes "config_ok cfg" and "chain_iteration iter"
  shows "params_step cfg iter st st' \<Longrightarrow> params_inv cfg (fst st) (snd st) \<Longrightarrow> params_inv cfg (fst st') (snd st')"
proof (induction rule: params_step.induct)
  case (min_bond origin k b s s' supp)
  then show ?case
    by (auto simp: set_min_bond_requirement_def params_inv_def param_bounds param_getters split: if_splits)
next
  case (policy supp origin k p s s')
  then show ?case
    by (auto simp: set_election_policy_def params_inv_def param_bounds param_getters split: if_splits)
next
  case (force origin s s' supp)
  then show ?case using apply_interval_updates_inv [OF assms(2), of cfg supp s]
    by (auto simp: force_apply_updates_def split: if_splits)
next
  case (epoch s n s' supp)
  then show ?case using apply_interval_updates_inv [OF assms(2), of cfg supp s] by simp
next
  case (elsewhere s' s supp)
  then show ?case using params_inv_view [of s' s cfg supp] by simp
next
  case (roster n supp s k)
  then have "chain_params_ok cfg (s\<lparr>MaxAttestors := (MaxAttestors s)(k \<mapsto> n)\<rparr>) k'" for k'
    by (auto simp: params_inv_def param_bounds param_getters)
  then show ?case using roster by (auto simp: params_inv_def no_pending_def)
next
  case (invulnerables supp s k n)
  then show ?case by (simp add: params_inv_def param_bounds param_getters)
next
  case (genesis_number supp s k h)
  then show ?case by (simp add: params_inv_def param_bounds param_getters)
qed (auto intro: set_chain_attestation_interval_inv set_target_sample_size_inv
    set_attestations_per_checkpoint_inv set_max_catchup_inv on_register_chain_inv [OF assms(1)]
    remove_chain_params_inv [OF assms(1)])

interpretation params_sys: invariant_system "\<lambda>st. config_ok cfg \<and> chain_iteration iter \<and> params_genesis cfg (snd st)"
  "\<lambda>st st'. config_ok cfg \<and> chain_iteration iter \<and> params_step cfg iter st st'"
  "\<lambda>st. params_inv cfg (fst st) (snd st)" for cfg iter
  by unfold_locales (auto intro: params_genesis_inv params_step_inv)

section \<open>Properties\<close>

text \<open>C27: In every state the pallet reaches from genesis, for every enumeration order of the
  storage, the attestation interval of every chain is positive, at most its ceiling and within the
  catch-up bound, which is within its ceiling, both for the values in force and for the values in
  force once the pending updates apply; the checkpoint interval, the sample size and the roster
  limit are positive and within their ceilings.\<close>

theorem parameters_stay_within_bounds:
  assumes "config_ok cfg" and "chain_iteration iter" and "params_genesis cfg (snd st0)"
    and "(params_step cfg iter)\<^sup>*\<^sup>* st0 st"
  shows "chain_params_ok cfg (snd st) k"
proof -
  have "params_inv cfg (fst st) (snd st)"
    using assms(4)
    by (induction rule: rtranclp_induct)
      (use params_genesis_inv [OF assms(1,3)] params_step_inv [OF assms(1,2)] in auto)
  then show ?thesis by (simp add: params_inv_def)
qed

text \<open>Applying the pending updates makes every pending value the value in force, leaves
  nothing pending and changes no other parameter, in whatever order the storage enumerates the
  pending maps.\<close>

theorem pending_updates_applied:
  assumes "chain_iteration iter"
  shows "chain_attestation_interval cfg (snd (apply_interval_updates iter s)) k =
      effective_attestation_interval cfg s k \<and>
    max_catchup cfg (snd (apply_interval_updates iter s)) k = effective_max_catchup cfg s k \<and>
    no_pending (snd (apply_interval_updates iter s)) k \<and>
    attestation_checkpoint_interval cfg (snd (apply_interval_updates iter s)) k =
      attestation_checkpoint_interval cfg s k \<and>
    max_attestors cfg (snd (apply_interval_updates iter s)) k = max_attestors cfg s k"
proof -
  obtain n s' where s': "apply_interval_updates iter s = (n, s')"
    by (cases "apply_interval_updates iter s")
  show ?thesis
    by (simp add: s' effective_attestation_interval_get effective_max_catchup_get param_getters
        no_pending_def apply_interval_updates_fields [OF assms s'] map_get_map_add)
qed

text \<open>A configuration for the examples.\<close>

definition example_pallet_config :: PalletConfig where
  "example_pallet_config = \<lparr>DefaultAttestationsPerCheckpoint = 10, MaxAttestationCheckpointInterval = 100,
     DefaultAttestationInterval = 10, MaxChainAttestationInterval = 100, DefaultTargetSampleSize = 120,
     DefaultMaxCatchup = 1000, MaxCatchupCeiling = 2000, MaxAttestationNodes = 100,
     DefaultMinBondRequirement = 1000, MaxUnlockingChunks = 32, BondingDuration = 28,
     DefaultAttestationRetentionDuration = 20, MaxAttestationsPerBlock = 4,
     MaxCheckpointingQueueLen = 256, MaxCheckpointsImportedPerCall = 50,
     DefaultAttestationChainGenesisBlockNumber = 0, OperatorsOrigin = (\<lambda>x. x = Root)\<rparr>"

lemma example_pallet_config_ok: "config_ok example_pallet_config"
  by (simp add: config_ok_def example_pallet_config_def)

lemma example_params_genesis: "params_genesis cfg params_default"
  unfolding params_genesis_def by (intro exI [of _ "[]"] exI [of _ params_default]) simp

theorem parameters_stay_within_bounds_witness:
  "chain_params_ok example_pallet_config (commit params_default
     (set_chain_attestation_interval example_pallet_config (\<lambda>_. True) Root 1 50 params_default)) 1"
proof -
  let ?r = "set_chain_attestation_interval example_pallet_config (\<lambda>_. True) Root 1 50 params_default"
  have "?r = Inr (commit params_default ?r)"
    by (simp add: set_chain_attestation_interval_def example_pallet_config_def effective_max_catchup_def
        max_catchup_def params_default_def)
  then have "params_step example_pallet_config sorted_list_of_set (\<lambda>_. True, params_default)
      (\<lambda>_. True, commit params_default ?r)"
    by (rule params_step.interval)
  then show ?thesis
    using parameters_stay_within_bounds [OF example_pallet_config_ok chain_key_order.chain_iteration_axioms,
        of "(\<lambda>_. True, params_default)" "(\<lambda>_. True, commit params_default ?r)" 1]
    by (simp add: example_params_genesis r_into_rtranclp)
qed

theorem pending_updates_applied_witness:
  "chain_attestation_interval example_pallet_config
     (snd (apply_interval_updates sorted_list_of_set
       (params_default\<lparr>PendingAttestationInterval := [1 \<mapsto> 50]\<rparr>))) 1 = 50"
  using pending_updates_applied [OF chain_key_order.chain_iteration_axioms, of example_pallet_config
      "params_default\<lparr>PendingAttestationInterval := [1 \<mapsto> 50]\<rparr>" 1]
  by (simp add: effective_attestation_interval_def)

end
