(* ===== verification/Ledger.thy ===== *)
theory Ledger
  imports Params
begin

text \<open>The bonding ledger of the attestation pallet (\<open>pallets/attestation/src/ledger.rs\<close>,
  \<open>asset.rs\<close> and the bonding functions of \<open>impls.rs\<close>).  The currency is another pallet; it is a
  record of the functions this pallet calls, over an abstract state of balances.

  The properties are that a ledger's total is always its active amount plus everything that is
  unlocking, that consolidating releases exactly the matured chunks, and that the lock on a bonded
  account is the ledger's total.\<close>

section \<open>The currency\<close>

type_synonym LockIdentifier = string

record 'c Currency =
  minimum_balance :: Balance
  free_balance :: "'c \<Rightarrow> AccountId \<Rightarrow> Balance"
  locks :: "'c \<Rightarrow> AccountId \<Rightarrow> (LockIdentifier \<times> Balance) list"
  set_lock :: "LockIdentifier \<Rightarrow> AccountId \<Rightarrow> Balance \<Rightarrow> 'c \<Rightarrow> 'c"
  remove_lock :: "LockIdentifier \<Rightarrow> AccountId \<Rightarrow> 'c \<Rightarrow> 'c"
  transfer_keep_alive :: "AccountId \<Rightarrow> AccountId \<Rightarrow> Balance \<Rightarrow> 'c \<Rightarrow> string + 'c"
  inc_consumers :: "AccountId \<Rightarrow> 'c \<Rightarrow> string + 'c"
  dec_consumers :: "AccountId \<Rightarrow> 'c \<Rightarrow> 'c"

section \<open>The ledger\<close>

definition BOND_LOCK_ID :: LockIdentifier where
  "BOND_LOCK_ID = ''b0ndl0ck''"

record UnlockChunk =
  uc_value :: Balance
  uc_era :: EraIndex

record AttestorLedger =
  ledger_stash :: AccountId
  total_staked :: Balance
  active :: Balance
  unlocking :: "UnlockChunk list"

record 'c LedgerState = ParamsState +
  Ledger :: "AccountId \<rightharpoonup> AttestorLedger"
  balances :: 'c

definition ledger_new :: "AccountId \<Rightarrow> Balance \<Rightarrow> AttestorLedger" where
  "ledger_new st stake = \<lparr>ledger_stash = st, total_staked = stake, active = stake, unlocking = []\<rparr>"

definition ledger_update ::
  "'c Currency \<Rightarrow> AttestorLedger \<Rightarrow> ('c, 'z) LedgerState_scheme \<Rightarrow> PalletError + ('c, 'z) LedgerState_scheme" where
  "ledger_update cur l s =
    (if Ledger s (ledger_stash l) = None then Inl NotStash
     else Inr (s\<lparr>balances := set_lock cur BOND_LOCK_ID (ledger_stash l) (total_staked l) (balances s),
                 Ledger := (Ledger s)(ledger_stash l \<mapsto> l)\<rparr>))"

definition ledger_bond ::
  "'c Currency \<Rightarrow> AttestorLedger \<Rightarrow> ('c, 'z) LedgerState_scheme \<Rightarrow> PalletError + ('c, 'z) LedgerState_scheme" where
  "ledger_bond cur l s =
    (if Ledger s (ledger_stash l) \<noteq> None then Inl AlreadyBonded
     else ledger_update cur l (s\<lparr>Ledger := (Ledger s)(ledger_stash l \<mapsto> l)\<rparr>))"

text \<open>The closure of \<open>consolidate_unlocked\<close> is run on the chunks in order: it keeps the ones of a
  later era and takes the others off the total.\<close>

fun consolidate_chunks :: "EraIndex \<Rightarrow> Balance \<Rightarrow> UnlockChunk list \<Rightarrow> Balance \<times> UnlockChunk list" where
  "consolidate_chunks current_era tot [] = (tot, [])"
| "consolidate_chunks current_era tot (chunk # cs) =
    (if uc_era chunk > current_era
     then (let (tot', kept) = consolidate_chunks current_era tot cs in (tot', chunk # kept))
     else consolidate_chunks current_era (saturating_sub tot (uc_value chunk)) cs)"

definition consolidate_unlocked :: "EraIndex \<Rightarrow> AttestorLedger \<Rightarrow> AttestorLedger" where
  "consolidate_unlocked current_era l =
    (let (tot, kept) = consolidate_chunks current_era (total_staked l) (unlocking l)
     in l\<lparr>total_staked := tot, unlocking := kept\<rparr>)"

definition ledger_kill ::
  "'c Currency \<Rightarrow> AccountId \<Rightarrow> ('c, 'z) LedgerState_scheme \<Rightarrow> PalletError + ('c, 'z) LedgerState_scheme" where
  "ledger_kill cur st s =
    (if Ledger s st = None then Inl NotStash
     else Inr (s\<lparr>balances := remove_lock cur BOND_LOCK_ID st (balances s),
                 Ledger := (Ledger s)(st := None)\<rparr>))"

definition existential_deposit :: "'c Currency \<Rightarrow> Balance" where
  "existential_deposit cur = minimum_balance cur"

section \<open>Bonding\<close>

text \<open>The sum over the locks uses the balance type's \<open>+=\<close>; the runtime is built with overflow
  checks off, so it wraps.\<close>

definition get_locked_balance :: "'c Currency \<Rightarrow> 'c \<Rightarrow> AccountId \<Rightarrow> Balance" where
  "get_locked_balance cur c a =
    foldl (\<lambda>acc (i, amount). if i = BOND_LOCK_ID then acc + amount else acc) 0 (locks cur c a)"

definition get_free_balance :: "'c Currency \<Rightarrow> 'c \<Rightarrow> AccountId \<Rightarrow> Balance" where
  "get_free_balance cur c a =
    saturating_sub (saturating_sub (free_balance cur c a) (minimum_balance cur)) (get_locked_balance cur c a)"

definition bond_extra ::
  "PalletConfig \<Rightarrow> 'c Currency \<Rightarrow> ChainKey \<Rightarrow> AccountId \<Rightarrow> ('c, 'z) LedgerState_scheme \<Rightarrow>
   (PalletError, ('c, 'z) LedgerState_scheme) dispatch" where
  "bond_extra cfg cur k st s =
    (let bond = min_bond_requirement cfg s k in
     case Ledger s st of None \<Rightarrow> Inl (Module NotStash)
     | Some l \<Rightarrow>
       (case checked_sub (free_balance cur (balances s) st) (total_staked l) of
          None \<Rightarrow> Inl (Other ''Overflow'')
        | Some available \<Rightarrow>
          if \<not> available \<ge> bond then Inl (Module InsufficientBalance)
          else (case checked_add (total_staked l) bond of None \<Rightarrow> Inl (Other ''Overflow'')
            | Some tot \<Rightarrow> (case checked_add (active l) bond of None \<Rightarrow> Inl (Other ''Overflow'')
              | Some act \<Rightarrow>
                (case ledger_update cur (l\<lparr>total_staked := tot, active := act\<rparr>) s of
                   Inl e \<Rightarrow> Inl (Module e)
                 | Inr s' \<Rightarrow> Inr (deposit_event (Bonded st bond) s'))))))"

definition kill_stash ::
  "'c Currency \<Rightarrow> AccountId \<Rightarrow> ('c, 'z) LedgerState_scheme \<Rightarrow> PalletError + ('c, 'z) LedgerState_scheme" where
  "kill_stash cur st s =
    (case ledger_kill cur st s of Inl e \<Rightarrow> Inl e
     | Inr s' \<Rightarrow> Inr (s'\<lparr>balances := dec_consumers cur st (balances s')\<rparr>))"

text \<open>The part of \<open>remove_attestor_and_emit_event\<close> that unbonds: \<open>value\<close> is taken from the active
  amount, dust is swept along, and the chunk joins the last one of the same era or is pushed, if
  there is room.  \<open>None\<close> is the refused push.\<close>

definition push_chunk :: "u32 \<Rightarrow> Balance \<Rightarrow> EraIndex \<Rightarrow> UnlockChunk list \<Rightarrow> UnlockChunk list option" where
  "push_chunk limit v era cs =
    (if cs \<noteq> [] \<and> uc_era (last cs) = era
     then Some (butlast cs @ [(last cs)\<lparr>uc_value := saturating_add (uc_value (last cs)) v\<rparr>])
     else if length cs < unat limit then Some (cs @ [\<lparr>uc_value = v, uc_era = era\<rparr>]) else None)"

definition unbond ::
  "PalletConfig \<Rightarrow> 'c Currency \<Rightarrow> EraIndex \<Rightarrow> EraIndex \<Rightarrow> Balance \<Rightarrow> AccountId \<Rightarrow> AttestorLedger \<Rightarrow>
   ('c, 'z) LedgerState_scheme \<Rightarrow> PalletError + ('c, 'z) LedgerState_scheme" where
  "unbond cfg cur current_era purge_at_era value0 st l0 s =
    (let total_before = total_staked l0;
         full = length (unlocking l0) \<ge> unat (MaxUnlockingChunks cfg);
         l = (if full then consolidate_unlocked current_era l0 else l0);
         released = saturating_sub total_before (total_staked l);
         s1 = (if full \<and> released \<noteq> 0 then deposit_event (Withdrawn st released) s else s);
         act = active l - value0;
         dust = act < existential_deposit cur;
         value1 = (if dust then value0 + act else value0);
         act1 = (if dust then 0 else act)
     in case push_chunk (MaxUnlockingChunks cfg) value1 purge_at_era (unlocking l) of
          None \<Rightarrow> Inl NoMoreChunks
        | Some cs \<Rightarrow>
          (case ledger_update cur (l\<lparr>active := act1, unlocking := cs\<rparr>) s1 of
             Inl e \<Rightarrow> Inl e
           | Inr s2 \<Rightarrow> Inr (deposit_event (Unbonded st value1) s2)))"

section \<open>The ledger invariant\<close>

definition ledger_ok :: "AttestorLedger \<Rightarrow> bool" where
  "ledger_ok l \<longleftrightarrow> unat (total_staked l) = unat (active l) + sum_list (map (unat \<circ> uc_value) (unlocking l))"

definition ledgers_inv :: "('c, 'z) LedgerState_scheme \<Rightarrow> bool" where
  "ledgers_inv s \<longleftrightarrow> (\<forall>st l. Ledger s st = Some l \<longrightarrow> ledger_ok l \<and> ledger_stash l = st)"

lemma consolidate_chunks_spec:
  assumes "consolidate_chunks era t cs = (t', kept)"
    and "sum_list (map (unat \<circ> uc_value) cs) \<le> unat t"
  shows "kept = filter (\<lambda>c. uc_era c > era) cs \<and>
    unat t' + sum_list (map (unat \<circ> uc_value) (filter (\<lambda>c. \<not> uc_era c > era) cs)) = unat t"
  using assms
proof (induction era t cs arbitrary: t' kept rule: consolidate_chunks.induct)
  case (2 era t c cs)
  show ?case
  proof (cases "uc_era c > era")
    case True
    then obtain kept' where k: "consolidate_chunks era t cs = (t', kept')" "kept = c # kept'"
      using "2.prems"(1) by (auto split: prod.splits)
    with "2.IH"(1) [OF True k(1)] "2.prems"(2) True show ?thesis by simp
  next
    case False
    then have u: "unat (saturating_sub t (uc_value c)) = unat t - unat (uc_value c)"
      by (simp add: unat_saturating_sub)
    have le: "sum_list (map (unat \<circ> uc_value) cs) \<le> unat (saturating_sub t (uc_value c))"
      using "2.prems"(2) u by (simp add: comp_def)
    have eq: "consolidate_chunks era (saturating_sub t (uc_value c)) cs = (t', kept)"
      using "2.prems"(1) False by simp
    from "2.IH"(2) [OF False eq le] u "2.prems"(2) False show ?thesis by (auto simp: comp_def)
  qed
qed simp

lemma sum_list_filter_split:
  "sum_list (map f (filter P xs)) + sum_list (map f (filter (\<lambda>x. \<not> P x) xs)) = sum_list (map (f :: _ \<Rightarrow> nat) xs)"
  by (induction xs) auto

lemma consolidate_unlocked_fields:
  assumes "ledger_ok l"
  shows "active (consolidate_unlocked era l) = active l"
    and "ledger_stash (consolidate_unlocked era l) = ledger_stash l"
    and "unlocking (consolidate_unlocked era l) = filter (\<lambda>c. uc_era c > era) (unlocking l)"
    and "unat (total_staked (consolidate_unlocked era l)) +
      sum_list (map (unat \<circ> uc_value) (filter (\<lambda>c. \<not> uc_era c > era) (unlocking l))) = unat (total_staked l)"
    and "ledger_ok (consolidate_unlocked era l)"
proof -
  obtain t kept where c: "consolidate_chunks era (total_staked l) (unlocking l) = (t, kept)"
    by (cases "consolidate_chunks era (total_staked l) (unlocking l)")
  have "sum_list (map (unat \<circ> uc_value) (unlocking l)) \<le> unat (total_staked l)"
    using assms by (simp add: ledger_ok_def)
  note spec = consolidate_chunks_spec [OF c this]
  show "active (consolidate_unlocked era l) = active l"
    "ledger_stash (consolidate_unlocked era l) = ledger_stash l"
    "unlocking (consolidate_unlocked era l) = filter (\<lambda>c. uc_era c > era) (unlocking l)"
    "unat (total_staked (consolidate_unlocked era l)) +
      sum_list (map (unat \<circ> uc_value) (filter (\<lambda>c. \<not> uc_era c > era) (unlocking l))) = unat (total_staked l)"
    using spec by (simp_all add: consolidate_unlocked_def c)
  show "ledger_ok (consolidate_unlocked era l)"
    using spec assms sum_list_filter_split [of "unat \<circ> uc_value" "\<lambda>c. uc_era c > era" "unlocking l"]
    by (simp add: consolidate_unlocked_def c ledger_ok_def)
qed

lemma push_chunk_sum:
  assumes "push_chunk limit v era cs = Some cs'"
    and "sum_list (map (unat \<circ> uc_value) cs) + unat v < 2 ^ 128"
  shows "sum_list (map (unat \<circ> uc_value) cs') = sum_list (map (unat \<circ> uc_value) cs) + unat v"
proof (cases "cs \<noteq> [] \<and> uc_era (last cs) = era")
  case True
  then obtain b c where cs: "cs = b @ [c]" by (metis append_butlast_last_id)
  then have "unat (uc_value c) + unat v < 2 ^ 128" using assms(2) by simp
  then have "unat (saturating_add (uc_value c) v) = unat (uc_value c) + unat v"
    by (simp add: unat_saturating_add)
  with True cs assms(1) show ?thesis by (auto simp: push_chunk_def)
next
  case False
  with assms(1) show ?thesis by (auto simp: push_chunk_def split: if_splits)
qed

end
