(* ===== verification/Registry.thy ===== *)
theory Registry
  imports Ledger
begin

text \<open>The attestor registry of the attestation pallet (\<open>pallets/attestation/src/lib.rs\<close> and
  \<open>impls.rs\<close>): registering and unregistering attestors, activating them with a BLS key and its
  proof of possession, chilling, kicking, the election of the active set, the retired keys kept
  until the unbonding delay is over, and the invulnerables and authorised attestors.

  The BLS library is a record of the functions the pallet calls; the era comes from the staking
  pallet and the epoch from the randomness pallet.\<close>

section \<open>The BLS library\<close>

record ('pk, 'sg) Bls =
  pk_from_bytes :: "BlsPublicKey \<Rightarrow> 'pk option"
  pk_as_bytes :: "'pk \<Rightarrow> bytes"
  sig_from_bytes :: "BlsSignature \<Rightarrow> 'sg option"
  verify_single :: "'sg \<Rightarrow> bytes \<Rightarrow> 'pk \<Rightarrow> bool"
  aggregate_public_keys :: "'pk list \<Rightarrow> 'pk option"
  verify_agg_message :: "'sg \<Rightarrow> bytes \<Rightarrow> 'pk \<Rightarrow> bool"

section \<open>State\<close>

record RetiredAttestorBlsKeyEntry =
  retired_bls_public_key :: BlsPublicKey
  purge_at_era :: EraIndex
  retired_stash :: AccountId

record 'c RegistryState = "'c LedgerState" +
  Attestors :: "ChainKey \<Rightarrow> AccountId \<rightharpoonup> Attestor"
  AttestorsCount :: "ChainKey \<rightharpoonup> u32"
  ActiveAttestors :: "ChainKey \<rightharpoonup> AccountId list"
  RetiredAttestorBlsKeys :: "ChainKey \<Rightarrow> AccountId \<rightharpoonup> RetiredAttestorBlsKeyEntry"
  RetiredAttestorKeysByStash :: "AccountId \<rightharpoonup> (ChainKey \<times> AccountId) list"
  BlsKeyOwner :: "ChainKey \<Rightarrow> BlsPublicKey \<rightharpoonup> AccountId"
  Invulnerables :: "ChainKey \<Rightarrow> AccountId \<rightharpoonup> bool"
  AuthorizedAttestors :: "ChainKey \<Rightarrow> AccountId \<Rightarrow> bool"
  AttestorCollateral :: "ChainKey \<Rightarrow> AccountId \<rightharpoonup> Balance"

text \<open>An entry of a double map is set or, with \<open>None\<close>, removed.\<close>

definition dmap_set :: "'k \<Rightarrow> 'a \<Rightarrow> 'v \<Rightarrow> ('k \<Rightarrow> 'a \<Rightarrow> 'v) \<Rightarrow> 'k \<Rightarrow> 'a \<Rightarrow> 'v" where
  "dmap_set k a v m = m(k := (m k)(a := v))"

lemma dmap_set_apply [simp]:
  "dmap_set k a v m k' a' = (if k' = k \<and> a' = a then v else m k' a')"
  by (simp add: dmap_set_def)

definition ONE_TENTH_CTC :: Balance where
  "ONE_TENTH_CTC = 100000000000000000"

text \<open>The bound of the \<open>BoundedVec\<close> of retired keys per stash.\<close>

definition MAX_RETIRED_PER_STASH :: nat where
  "MAX_RETIRED_PER_STASH = 64"

section \<open>Queries\<close>

definition active_attestor_set :: "('c, 'z) RegistryState_scheme \<Rightarrow> ChainKey \<Rightarrow> AccountId list" where
  "active_attestor_set s = map_get [] (ActiveAttestors s)"

definition attestors_count :: "('c, 'z) RegistryState_scheme \<Rightarrow> ChainKey \<Rightarrow> u32" where
  "attestors_count s = map_get 0 (AttestorsCount s)"

definition working_set_size :: "('c, 'z) RegistryState_scheme \<Rightarrow> ChainKey \<Rightarrow> u32" where
  "working_set_size s k = len32 (active_attestor_set s k)"

definition quorum_threshold :: "('c, 'z) RegistryState_scheme \<Rightarrow> ChainKey \<Rightarrow> u32" where
  "quorum_threshold s k = calculate_quorum (working_set_size s k)"

definition is_attestor :: "('c, 'z) RegistryState_scheme \<Rightarrow> ChainKey \<Rightarrow> AccountId \<Rightarrow> bool" where
  "is_attestor s k a = (a \<in> set (active_attestor_set s k))"

definition attestor_status :: "('c, 'z) RegistryState_scheme \<Rightarrow> ChainKey \<Rightarrow> AccountId \<Rightarrow> AttestorStatus option" where
  "attestor_status s k a = map_option status (Attestors s k a)"

definition address_is_not_attestor :: "('c, 'z) RegistryState_scheme \<Rightarrow> ChainKey \<Rightarrow> AccountId \<Rightarrow> bool" where
  "address_is_not_attestor s k a = (\<not> is_attestor s k a)"

definition attestor_is_registered :: "('c, 'z) RegistryState_scheme \<Rightarrow> ChainKey \<Rightarrow> AccountId \<Rightarrow> bool" where
  "attestor_is_registered s k a = (Attestors s k a \<noteq> None)"

definition attestor_bls_pubkey :: "('c, 'z) RegistryState_scheme \<Rightarrow> ChainKey \<Rightarrow> AccountId \<Rightarrow> BlsPublicKey option" where
  "attestor_bls_pubkey s k a = (case Attestors s k a of Some at \<Rightarrow> bls_public_key at | None \<Rightarrow> None)"

definition attestor_list_has_space :: "PalletConfig \<Rightarrow> ('c, 'z) RegistryState_scheme \<Rightarrow> ChainKey \<Rightarrow> bool" where
  "attestor_list_has_space cfg s k = (attestors_count s k < max_attestors cfg s k)"

section \<open>Retired keys\<close>

definition remove_active_attestor_from_set ::
  "ChainKey \<Rightarrow> AccountId \<Rightarrow> ('c, 'z) RegistryState_scheme \<Rightarrow> ('c, 'z) RegistryState_scheme" where
  "remove_active_attestor_from_set k a s =
    (let act = active_attestor_set s k in
     s\<lparr>ActiveAttestors := (ActiveAttestors s)(k \<mapsto>
        (case position (\<lambda>x. x = a) act of Some pos \<Rightarrow> swap_remove pos act | None \<Rightarrow> act))\<rparr>)"

definition remove_stash_retired_index_pair ::
  "AccountId \<Rightarrow> ChainKey \<Rightarrow> AccountId \<Rightarrow> ('c, 'z) RegistryState_scheme \<Rightarrow> ('c, 'z) RegistryState_scheme" where
  "remove_stash_retired_index_pair st k a s =
    (case RetiredAttestorKeysByStash s st of None \<Rightarrow> s
     | Some pairs \<Rightarrow>
       (let pairs' = (case position (\<lambda>(ck, i). ck = k \<and> i = a) pairs of
              Some pos \<Rightarrow> swap_remove pos pairs | None \<Rightarrow> pairs)
        in s\<lparr>RetiredAttestorKeysByStash := (RetiredAttestorKeysByStash s)
             (st := (if pairs' = [] then None else Some pairs'))\<rparr>))"

definition release_bls_key ::
  "ChainKey \<Rightarrow> AccountId \<Rightarrow> BlsPublicKey \<Rightarrow> ('c, 'z) RegistryState_scheme \<Rightarrow> ('c, 'z) RegistryState_scheme" where
  "release_bls_key k a key s =
    (if BlsKeyOwner s k key = Some a
     then s\<lparr>BlsKeyOwner := dmap_set k key None (BlsKeyOwner s)\<rparr> else s)"

definition clear_retired_bls_entry_for_controller ::
  "ChainKey \<Rightarrow> AccountId \<Rightarrow> AccountId \<Rightarrow> ('c, 'z) RegistryState_scheme \<Rightarrow>
   PalletError + ('c, 'z) RegistryState_scheme" where
  "clear_retired_bls_entry_for_controller k a registering_stash s =
    (case RetiredAttestorBlsKeys s k a of None \<Rightarrow> Inr s
     | Some entry \<Rightarrow>
       if retired_stash entry \<noteq> registering_stash then Inl ControllerRetiredByAnotherStash
       else Inr (release_bls_key k a (retired_bls_public_key entry)
         (remove_stash_retired_index_pair (retired_stash entry) k a
           (s\<lparr>RetiredAttestorBlsKeys := dmap_set k a None (RetiredAttestorBlsKeys s)\<rparr>))))"

fun purge_loop ::
  "AccountId \<Rightarrow> EraIndex \<Rightarrow> (ChainKey \<times> AccountId) list \<Rightarrow> (ChainKey \<times> AccountId) list \<Rightarrow>
   ('c, 'z) RegistryState_scheme \<Rightarrow> (ChainKey \<times> AccountId) list \<times> ('c, 'z) RegistryState_scheme" where
  "purge_loop st current_era [] kept s = (kept, s)"
| "purge_loop st current_era ((k, a) # pairs) kept s =
    (case RetiredAttestorBlsKeys s k a of
       None \<Rightarrow> purge_loop st current_era pairs kept s
     | Some entry \<Rightarrow>
       if retired_stash entry \<noteq> st then purge_loop st current_era pairs kept s
       else if current_era \<ge> purge_at_era entry then
         (let s1 = release_bls_key k a (retired_bls_public_key entry) s in
          purge_loop st current_era pairs kept
            (s1\<lparr>RetiredAttestorBlsKeys := dmap_set k a None (RetiredAttestorBlsKeys s1)\<rparr>))
       else purge_loop st current_era pairs (kept @ [(k, a)]) s)"

definition purge_retired_bls_keys_for_stash ::
  "AccountId \<Rightarrow> EraIndex \<Rightarrow> ('c, 'z) RegistryState_scheme \<Rightarrow> ('c, 'z) RegistryState_scheme" where
  "purge_retired_bls_keys_for_stash st current_era s =
    (let pairs = map_get [] (RetiredAttestorKeysByStash s) st in
     if pairs = [] then s
     else let (kept, s') = purge_loop st current_era pairs [] s in
       s'\<lparr>RetiredAttestorKeysByStash := (RetiredAttestorKeysByStash s')
           (st := (if kept = [] then None else Some kept))\<rparr>)"

section \<open>Registration\<close>

definition try_insert_attestor_and_emit_event ::
  "PalletConfig \<Rightarrow> 'c Currency \<Rightarrow> (ChainKey \<Rightarrow> bool) \<Rightarrow> ChainKey \<Rightarrow> AccountId \<Rightarrow> AccountId \<Rightarrow>
   ('c, 'z) RegistryState_scheme \<Rightarrow> (PalletError, ('c, 'z) RegistryState_scheme) dispatch" where
  "try_insert_attestor_and_emit_event cfg cur supp k st a s =
    (if \<not> supp k then Inl (Module ChainNotSupported)
     else if chain_election_policy s k = AuthorizedOnly \<and> \<not> AuthorizedAttestors s k a
       then Inl (Module NotPreAuthorizedToRegister)
     else if attestor_is_registered s k a then Inl (Module AlreadyAttestor)
     else case clear_retired_bls_entry_for_controller k a st s of
       Inl e \<Rightarrow> Inl (Module e)
     | Inr s1 \<Rightarrow>
       if \<not> attestor_list_has_space cfg s1 k then Inl (Module AttestorListFull)
       else if a = st then Inl (Module InvalidAttestorAccount)
       else
         (let s2 = s1\<lparr>Attestors := dmap_set k a
                (Some \<lparr>bls_public_key = None, status = Idle, stash = st\<rparr>) (Attestors s1),
                AttestorsCount := (AttestorsCount s1)(k \<mapsto> saturating_add (attestors_count s1 k) 1)\<rparr>;
              min_bond = min_bond_requirement cfg s2 k
          in if \<not> get_free_balance cur (balances s2) st \<ge> saturating_add min_bond ONE_TENTH_CTC
             then Inl (Module InsufficientBalance)
             else case transfer_keep_alive cur st a ONE_TENTH_CTC (balances s2) of
               Inl e \<Rightarrow> Inl (Other e)
             | Inr c \<Rightarrow>
               (let s3 = s2\<lparr>balances := c\<rparr> in
                case (case ledger_bond cur (ledger_new st min_bond) s3 of
                    Inl _ \<Rightarrow> bond_extra cfg cur k st s3
                  | Inr s4 \<Rightarrow> (case inc_consumers cur st (balances s4) of
                      Inl e \<Rightarrow> Inl (Other e)
                    | Inr c' \<Rightarrow> Inr (deposit_event (Bonded st min_bond) (s4\<lparr>balances := c'\<rparr>)))) of
                  Inl e \<Rightarrow> Inl e
                | Inr s5 \<Rightarrow> Inr (deposit_event (AttestorRegistered k a)
                    (s5\<lparr>AttestorCollateral := dmap_set k a (Some min_bond) (AttestorCollateral s5)\<rparr>)))))"

text \<open>Unregistering settles the bond, keeps the BLS key as a retired one, and drops the row.\<close>

definition settle_bond ::
  "PalletConfig \<Rightarrow> 'c Currency \<Rightarrow> EraIndex \<Rightarrow> EraIndex \<Rightarrow> ChainKey \<Rightarrow> AccountId \<Rightarrow> AccountId \<Rightarrow>
   ('c, 'z) RegistryState_scheme \<Rightarrow> PalletError + ('c, 'z) RegistryState_scheme" where
  "settle_bond cfg cur current_era purge k st a s =
    (let bond = (case AttestorCollateral s k a of Some b \<Rightarrow> b | None \<Rightarrow> min_bond_requirement cfg s k);
         s0 = s\<lparr>AttestorCollateral := dmap_set k a None (AttestorCollateral s)\<rparr>
     in case Ledger s0 st of None \<Rightarrow> Inl NotStash
        | Some l \<Rightarrow>
          (let v = min bond (active l) in
           if v \<noteq> 0 then unbond cfg cur current_era purge v st l s0 else Inr s0))"

definition retire_key ::
  "EraIndex \<Rightarrow> ChainKey \<Rightarrow> AccountId \<Rightarrow> AccountId \<Rightarrow> BlsPublicKey option \<Rightarrow>
   ('c, 'z) RegistryState_scheme \<Rightarrow> PalletError + ('c, 'z) RegistryState_scheme" where
  "retire_key purge k st a key_opt s =
    (case key_opt of None \<Rightarrow> Inr s
     | Some key \<Rightarrow>
       (let pairs = map_get [] (RetiredAttestorKeysByStash s) st in
        if length pairs < MAX_RETIRED_PER_STASH then
          Inr (s\<lparr>RetiredAttestorBlsKeys := dmap_set k a
                 (Some \<lparr>retired_bls_public_key = key, purge_at_era = purge, retired_stash = st\<rparr>)
                 (RetiredAttestorBlsKeys s),
               RetiredAttestorKeysByStash := (RetiredAttestorKeysByStash s)(st \<mapsto> pairs @ [(k, a)])\<rparr>)
        else Inl RetiredAttestorPendingFull))"

definition drop_row ::
  "ChainKey \<Rightarrow> AccountId \<Rightarrow> ('c, 'z) RegistryState_scheme \<Rightarrow> ('c, 'z) RegistryState_scheme" where
  "drop_row k a s =
    (let s1 = remove_active_attestor_from_set k a s in
     s1\<lparr>Attestors := dmap_set k a None (Attestors s1),
        AttestorsCount := (AttestorsCount s1)(k \<mapsto> saturating_sub (attestors_count s1 k) 1)\<rparr>)"

definition remove_attestor_and_emit_event ::
  "PalletConfig \<Rightarrow> 'c Currency \<Rightarrow> EraIndex \<Rightarrow> ChainKey \<Rightarrow> AccountId \<Rightarrow> AccountId \<Rightarrow>
   ('c, 'z) RegistryState_scheme \<Rightarrow> (PalletError, ('c, 'z) RegistryState_scheme) dispatch" where
  "remove_attestor_and_emit_event cfg cur current_era k st a s =
    (case Attestors s k a of None \<Rightarrow> Inl (Module AddressNotAttestor)
     | Some attestor \<Rightarrow>
       if stash attestor \<noteq> st then Inl (Module NotYourAttestor)
       else if status attestor \<noteq> Idle then Inl (Module AttestorNotIdle)
       else
         (let purge = saturating_add current_era (BondingDuration cfg) in
          case settle_bond cfg cur current_era purge k st a s of Inl e \<Rightarrow> Inl (Module e)
          | Inr s1 \<Rightarrow>
            (case retire_key purge k st a (bls_public_key attestor) s1 of Inl e \<Rightarrow> Inl (Module e)
             | Inr s2 \<Rightarrow> Inr (deposit_event (AttestorUnregistered k a) (drop_row k a s2)))))"

definition register_attestor ::
  "PalletConfig \<Rightarrow> 'c Currency \<Rightarrow> (ChainKey \<Rightarrow> bool) \<Rightarrow> Origin \<Rightarrow> ChainKey \<Rightarrow> AccountId \<Rightarrow>
   ('c, 'z) RegistryState_scheme \<Rightarrow> (PalletError, ('c, 'z) RegistryState_scheme) dispatch" where
  "register_attestor cfg cur supp origin k a s =
    (case origin of Signed who \<Rightarrow> try_insert_attestor_and_emit_event cfg cur supp k who a s
     | _ \<Rightarrow> Inl BadOrigin)"

definition unregister_attestor ::
  "PalletConfig \<Rightarrow> 'c Currency \<Rightarrow> EraIndex \<Rightarrow> Origin \<Rightarrow> ChainKey \<Rightarrow> AccountId \<Rightarrow>
   ('c, 'z) RegistryState_scheme \<Rightarrow> (PalletError, ('c, 'z) RegistryState_scheme) dispatch" where
  "unregister_attestor cfg cur era origin k a s =
    (case origin of Signed who \<Rightarrow> remove_attestor_and_emit_event cfg cur era k who a s
     | _ \<Rightarrow> Inl BadOrigin)"

section \<open>Activation and chilling\<close>

definition start_attesting ::
  "('pk, 'sg) Bls \<Rightarrow> (ChainKey \<Rightarrow> bool) \<Rightarrow> ChainKey \<Rightarrow> AccountId \<Rightarrow> BlsPublicKey \<Rightarrow> BlsSignature \<Rightarrow>
   ('c, 'z) RegistryState_scheme \<Rightarrow> (PalletError, ('c, 'z) RegistryState_scheme) dispatch" where
  "start_attesting bls supp k a key pop s =
    (if \<not> supp k then Inl (Module ChainNotSupported)
     else case Attestors s k a of None \<Rightarrow> Inl (Module AddressNotAttestor)
     | Some attestor \<Rightarrow>
       if bls_public_key attestor \<noteq> None \<and> status attestor \<noteq> Idle then Inl (Module AttestorNotIdle)
       else case pk_from_bytes bls key of None \<Rightarrow> Inl (Module InvalidBlsPublicKey)
       | Some public_key \<Rightarrow>
         (case sig_from_bytes bls pop of None \<Rightarrow> Inl (Module InvalidBlsSignature)
          | Some sg \<Rightarrow>
            if \<not> verify_single bls sg (proof_of_possession_message k (as_bytes a) key) public_key
            then Inl (Module InvalidProofOfPossession)
            else if BlsKeyOwner s k key \<noteq> None \<and> BlsKeyOwner s k key \<noteq> Some a
            then Inl (Module BlsKeyAlreadyRegistered)
            else
              (let s1 = (case bls_public_key attestor of
                     Some old_key \<Rightarrow> if old_key \<noteq> key
                       then s\<lparr>BlsKeyOwner := dmap_set k old_key None (BlsKeyOwner s)\<rparr> else s
                   | None \<Rightarrow> s)
               in Inr (deposit_event (AttestorActivated k a key)
                 (s1\<lparr>BlsKeyOwner := dmap_set k key (Some a) (BlsKeyOwner s1),
                     Attestors := dmap_set k a
                       (Some (attestor\<lparr>status := Waiting, bls_public_key := Some key\<rparr>)) (Attestors s1)\<rparr>)))))"

definition attest ::
  "('pk, 'sg) Bls \<Rightarrow> (ChainKey \<Rightarrow> bool) \<Rightarrow> Origin \<Rightarrow> ChainKey \<Rightarrow> BlsPublicKey \<Rightarrow> BlsSignature \<Rightarrow>
   ('c, 'z) RegistryState_scheme \<Rightarrow> (PalletError, ('c, 'z) RegistryState_scheme) dispatch" where
  "attest bls supp origin k key pop s =
    (case origin of Signed who \<Rightarrow> start_attesting bls supp k who key pop s | _ \<Rightarrow> Inl BadOrigin)"

definition set_attestor_status ::
  "ChainKey \<Rightarrow> AccountId \<Rightarrow> AttestorStatus \<Rightarrow> ('c, 'z) RegistryState_scheme \<Rightarrow> ('c, 'z) RegistryState_scheme" where
  "set_attestor_status k a st s =
    (case Attestors s k a of None \<Rightarrow> s
     | Some at \<Rightarrow> s\<lparr>Attestors := dmap_set k a (Some (at\<lparr>status := st\<rparr>)) (Attestors s)\<rparr>)"

definition schedule_voluntary_chill ::
  "ChainKey \<Rightarrow> AccountId \<Rightarrow> ('c, 'z) RegistryState_scheme \<Rightarrow> ('c, 'z) RegistryState_scheme" where
  "schedule_voluntary_chill k a s = set_attestor_status k a Leaving s"

definition do_chill_attestor_immediate ::
  "ChainKey \<Rightarrow> AccountId \<Rightarrow> ('c, 'z) RegistryState_scheme \<Rightarrow> ('c, 'z) RegistryState_scheme" where
  "do_chill_attestor_immediate k a s =
    deposit_event (AttestorChilled k a)
      (remove_active_attestor_from_set k a (set_attestor_status k a Idle s))"

definition chill ::
  "Origin \<Rightarrow> ChainKey \<Rightarrow> AccountId \<Rightarrow> ('c, 'z) RegistryState_scheme \<Rightarrow>
   (PalletError, ('c, 'z) RegistryState_scheme) dispatch" where
  "chill origin k a s =
    (case origin of Signed who \<Rightarrow>
       (case Attestors s k a of None \<Rightarrow> Inl (Module AddressNotAttestor)
        | Some attestor \<Rightarrow>
          if stash attestor \<noteq> who then Inl (Module NotYourAttestor)
          else case status attestor of
              Idle \<Rightarrow> Inl (Module AttestorAlreadyIdle)
            | Leaving \<Rightarrow> Inl (Module AttestorChillAlreadyScheduled)
            | Waiting \<Rightarrow> Inr (do_chill_attestor_immediate k a s)
            | Active \<Rightarrow> Inr (schedule_voluntary_chill k a s))
     | _ \<Rightarrow> Inl BadOrigin)"

definition kick_active_attestor ::
  "PalletConfig \<Rightarrow> 'c Currency \<Rightarrow> EraIndex \<Rightarrow> Origin \<Rightarrow> ChainKey \<Rightarrow> AccountId \<Rightarrow> bool \<Rightarrow>
   ('c, 'z) RegistryState_scheme \<Rightarrow> (PalletError, ('c, 'z) RegistryState_scheme) dispatch" where
  "kick_active_attestor cfg cur era origin k a unregister s =
    (if \<not> OperatorsOrigin cfg origin then Inl BadOrigin
     else case Attestors s k a of None \<Rightarrow> Inl (Module AddressNotAttestor)
     | Some attestor \<Rightarrow>
       (let s1 = do_chill_attestor_immediate k a s in
        if unregister then remove_attestor_and_emit_event cfg cur era k (stash attestor) a s1
        else Inr s1))"

section \<open>Withdrawal\<close>

definition do_withdraw_unbonded ::
  "'c Currency \<Rightarrow> EraIndex \<Rightarrow> AccountId \<Rightarrow> ('c, 'z) RegistryState_scheme \<Rightarrow>
   (PalletError, ('c, 'z) RegistryState_scheme) dispatch" where
  "do_withdraw_unbonded cur current_era who s =
    (case Ledger s who of None \<Rightarrow> Inl (Module NotStash)
     | Some l0 \<Rightarrow>
       (let st = ledger_stash l0; old_total = total_staked l0;
            l = (if current_era > 0 then consolidate_unlocked current_era l0 else l0);
            s1 = purge_retired_bls_keys_for_stash st current_era s;
            new_total = total_staked l;
            ed = minimum_balance cur
        in case (if unlocking l = [] \<and> (active l < ed \<or> active l = 0)
                 then kill_stash cur (ledger_stash l) s1 else ledger_update cur l s1) of
             Inl e \<Rightarrow> Inl (Module e)
           | Inr s2 \<Rightarrow> Inr (if new_total < old_total
               then deposit_event (Withdrawn st (saturating_sub old_total new_total)) s2 else s2)))"

definition withdraw_unbonded ::
  "'c Currency \<Rightarrow> EraIndex \<Rightarrow> Origin \<Rightarrow> ('c, 'z) RegistryState_scheme \<Rightarrow>
   (PalletError, ('c, 'z) RegistryState_scheme) dispatch" where
  "withdraw_unbonded cur era origin s =
    (case origin of Signed who \<Rightarrow> do_withdraw_unbonded cur era who s | _ \<Rightarrow> Inl BadOrigin)"

section \<open>Election\<close>

text \<open>One attestor of the election: whether it is selected, and the state after its transition.\<close>

definition elect_one ::
  "AttestorElectionPolicy \<Rightarrow> ChainKey \<Rightarrow> AccountId \<times> Attestor \<Rightarrow> ('c, 'z) RegistryState_scheme \<Rightarrow>
   bool \<times> ('c, 'z) RegistryState_scheme" where
  "elect_one policy k entry s =
    (case entry of (account, attestor) \<Rightarrow>
       (let activated = s\<lparr>Attestors := dmap_set k account (Some (attestor\<lparr>status := Active\<rparr>)) (Attestors s)\<rparr> in
        case status attestor of
          Active \<Rightarrow> (True, s)
        | Waiting \<Rightarrow>
          (case policy of
             OpenToAny \<Rightarrow> (True, activated)
           | AuthorizedOnly \<Rightarrow> if \<not> AuthorizedAttestors s k account then (False, s) else (True, activated)
           | DeniedToAll \<Rightarrow> (False, s))
        | Idle \<Rightarrow> (False, s)
        | Leaving \<Rightarrow> (False, deposit_event (AttestorChilled k account)
            (s\<lparr>Attestors := dmap_set k account (Some (attestor\<lparr>status := Idle\<rparr>)) (Attestors s)\<rparr>))))"

fun elect_loop ::
  "AttestorElectionPolicy \<Rightarrow> ChainKey \<Rightarrow> (AccountId \<times> Attestor) list \<Rightarrow> ('c, 'z) RegistryState_scheme \<Rightarrow>
   AccountId list \<times> ('c, 'z) RegistryState_scheme" where
  "elect_loop policy k [] s = ([], s)"
| "elect_loop policy k (e # es) s =
    (let (selected, s1) = elect_one policy k e s; (rest, s2) = elect_loop policy k es s1
     in (if selected then fst e # rest else rest, s2))"

definition same_membership :: "AccountId list \<Rightarrow> AccountId list \<Rightarrow> bool" where
  "same_membership a b = (length a = length b \<and> list_all (\<lambda>x. x \<in> set b) a)"

text \<open>\<open>iter\<close> enumerates the attestors of a chain.\<close>

definition elect_attestors_for_chain ::
  "(AccountId set \<Rightarrow> AccountId list) \<Rightarrow> ChainKey \<Rightarrow> u64 \<Rightarrow> ('c, 'z) RegistryState_scheme \<Rightarrow>
   ('c, 'z) RegistryState_scheme" where
  "elect_attestors_for_chain iter k epoch s =
    (let entries = map (\<lambda>a. (a, the (Attestors s k a))) (iter (dom (Attestors s k)));
         (elected, s1) = elect_loop (chain_election_policy s k) k entries s
     in if same_membership elected (active_attestor_set s1 k) then s1
        else deposit_event (AttestorsElected epoch k elected)
          (s1\<lparr>ActiveAttestors := (ActiveAttestors s1)(k \<mapsto> elected)\<rparr>))"

definition do_start_election ::
  "(AccountId set \<Rightarrow> AccountId list) \<Rightarrow> ChainKey list \<Rightarrow> u64 \<Rightarrow> ('c, 'z) RegistryState_scheme \<Rightarrow>
   ('c, 'z) RegistryState_scheme" where
  "do_start_election iter supported epoch s =
    fold (\<lambda>k. elect_attestors_for_chain iter k epoch) supported s"

definition force_election ::
  "PalletConfig \<Rightarrow> (ChainKey \<Rightarrow> bool) \<Rightarrow> (AccountId set \<Rightarrow> AccountId list) \<Rightarrow> u64 \<Rightarrow> Origin \<Rightarrow> ChainKey \<Rightarrow>
   ('c, 'z) RegistryState_scheme \<Rightarrow> (PalletError, ('c, 'z) RegistryState_scheme) dispatch" where
  "force_election cfg supp iter epoch origin k s =
    (if \<not> OperatorsOrigin cfg origin then Inl BadOrigin
     else if \<not> supp k then Inl (Module ChainNotSupported)
     else Inr (deposit_event (ForcedElection k epoch) (elect_attestors_for_chain iter k epoch s)))"

definition on_new_epoch_randomness ::
  "(AccountId set \<Rightarrow> AccountId list) \<Rightarrow> (ChainKey set \<Rightarrow> ChainKey list) \<Rightarrow> ChainKey list \<Rightarrow> u64 \<Rightarrow>
   ('c, 'z) RegistryState_scheme \<Rightarrow> ('c, 'z) RegistryState_scheme" where
  "on_new_epoch_randomness iter chain_iter supported epoch s =
    snd (apply_interval_updates chain_iter (do_start_election iter supported epoch s))"

section \<open>Roster limits, invulnerables and authorisation\<close>

definition set_max_attestors ::
  "PalletConfig \<Rightarrow> (ChainKey \<Rightarrow> bool) \<Rightarrow> Origin \<Rightarrow> ChainKey \<Rightarrow> u32 \<Rightarrow>
   ('c, 'z) RegistryState_scheme \<Rightarrow> (PalletError, ('c, 'z) RegistryState_scheme) dispatch" where
  "set_max_attestors cfg supp origin k new_max s =
    (if \<not> OperatorsOrigin cfg origin then Inl BadOrigin
     else if \<not> new_max > 0 then Inl (Module InvalidMaxAttestors)
     else if \<not> new_max \<le> MaxAttestationNodes cfg then Inl (Module InvalidMaxAttestors)
     else if \<not> supp k then Inl (Module ChainNotSupported)
     else if \<not> new_max \<ge> max (attestors_count s k) (working_set_size s k) then Inl (Module InvalidMaxAttestors)
     else Inr (deposit_event (MaxAttestorsChanged k new_max)
       (s\<lparr>MaxAttestors := (MaxAttestors s)(k \<mapsto> new_max)\<rparr>)))"

definition address_is_invulnerable :: "('c, 'z) RegistryState_scheme \<Rightarrow> ChainKey \<Rightarrow> AccountId \<Rightarrow> bool" where
  "address_is_invulnerable s k a = (Invulnerables s k a \<noteq> None)"

definition vulnerable_list_has_space ::
  "PalletConfig \<Rightarrow> (AccountId set \<Rightarrow> AccountId list) \<Rightarrow> ('c, 'z) RegistryState_scheme \<Rightarrow> ChainKey \<Rightarrow> bool" where
  "vulnerable_list_has_space cfg iter s k =
    (len32 (iter (dom (Invulnerables s k))) < max_invulnerables cfg s k)"

definition try_insert_invulnerable_and_emit_event ::
  "PalletConfig \<Rightarrow> (ChainKey \<Rightarrow> bool) \<Rightarrow> (AccountId set \<Rightarrow> AccountId list) \<Rightarrow> ChainKey \<Rightarrow> AccountId \<Rightarrow>
   ('c, 'z) RegistryState_scheme \<Rightarrow> (PalletError, ('c, 'z) RegistryState_scheme) dispatch" where
  "try_insert_invulnerable_and_emit_event cfg supp iter k a s =
    (if \<not> supp k then Inl (Module ChainNotSupported)
     else if \<not> vulnerable_list_has_space cfg iter s k then Inl (Module InvulnerableListFull)
     else Inr (deposit_event (InvulnerableRegistered k a)
       (s\<lparr>Invulnerables := dmap_set k a (Some True) (Invulnerables s)\<rparr>)))"

definition remove_invulnerable_and_emit_event ::
  "ChainKey \<Rightarrow> AccountId \<Rightarrow> ('c, 'z) RegistryState_scheme \<Rightarrow> ('c, 'z) RegistryState_scheme" where
  "remove_invulnerable_and_emit_event k a s =
    deposit_event (InvulnerableUnregistered k a)
      (s\<lparr>Invulnerables := dmap_set k a None (Invulnerables s)\<rparr>)"

definition register_invulnerable ::
  "PalletConfig \<Rightarrow> (ChainKey \<Rightarrow> bool) \<Rightarrow> (AccountId set \<Rightarrow> AccountId list) \<Rightarrow> Origin \<Rightarrow> ChainKey \<Rightarrow> AccountId \<Rightarrow>
   ('c, 'z) RegistryState_scheme \<Rightarrow> (PalletError, ('c, 'z) RegistryState_scheme) dispatch" where
  "register_invulnerable cfg supp iter origin k a s =
    (if \<not> OperatorsOrigin cfg origin then Inl BadOrigin
     else try_insert_invulnerable_and_emit_event cfg supp iter k a s)"

definition unregister_invulnerable ::
  "PalletConfig \<Rightarrow> Origin \<Rightarrow> ChainKey \<Rightarrow> AccountId \<Rightarrow>
   ('c, 'z) RegistryState_scheme \<Rightarrow> (PalletError, ('c, 'z) RegistryState_scheme) dispatch" where
  "unregister_invulnerable cfg origin k a s =
    (if \<not> OperatorsOrigin cfg origin then Inl BadOrigin
     else if \<not> address_is_invulnerable s k a then Inl (Module AddressIsNotInvulnerable)
     else Inr (remove_invulnerable_and_emit_event k a s))"

definition set_max_invulnerables ::
  "PalletConfig \<Rightarrow> (AccountId set \<Rightarrow> AccountId list) \<Rightarrow> Origin \<Rightarrow> ChainKey \<Rightarrow> u32 \<Rightarrow>
   ('c, 'z) RegistryState_scheme \<Rightarrow> (PalletError, ('c, 'z) RegistryState_scheme) dispatch" where
  "set_max_invulnerables cfg iter origin k new_max s =
    (if \<not> OperatorsOrigin cfg origin then Inl BadOrigin
     else if \<not> new_max > 0 then Inl (Module InvalidMaxInvulnerables)
     else if \<not> new_max \<le> MaxAttestationNodes cfg then Inl (Module InvalidMaxInvulnerables)
     else if \<not> new_max \<ge> len32 (iter (dom (Invulnerables s k)))
       then Inl (Module MaxInvulnerablesCannotBeChanged)
     else Inr (s\<lparr>MaxInvulnerables := (MaxInvulnerables s)(k \<mapsto> new_max)\<rparr>))"

definition authorize_attestor ::
  "PalletConfig \<Rightarrow> (ChainKey \<Rightarrow> bool) \<Rightarrow> Origin \<Rightarrow> ChainKey \<Rightarrow> AccountId \<Rightarrow>
   ('c, 'z) RegistryState_scheme \<Rightarrow> (PalletError, ('c, 'z) RegistryState_scheme) dispatch" where
  "authorize_attestor cfg supp origin k a s =
    (if \<not> OperatorsOrigin cfg origin then Inl BadOrigin
     else if \<not> supp k then Inl (Module ChainNotSupported)
     else if AuthorizedAttestors s k a then Inl (Module AttestorAlreadyAuthorized)
     else Inr (deposit_event (AuthorizedAttestorAdded k a)
       (s\<lparr>AuthorizedAttestors := dmap_set k a True (AuthorizedAttestors s)\<rparr>)))"

definition remove_authorized_attestor ::
  "PalletConfig \<Rightarrow> Origin \<Rightarrow> ChainKey \<Rightarrow> AccountId \<Rightarrow>
   ('c, 'z) RegistryState_scheme \<Rightarrow> (PalletError, ('c, 'z) RegistryState_scheme) dispatch" where
  "remove_authorized_attestor cfg origin k a s =
    (if \<not> OperatorsOrigin cfg origin then Inl BadOrigin
     else if \<not> AuthorizedAttestors s k a then Inl (Module AttestorNotAuthorized)
     else Inr (deposit_event (AuthorizedAttestorRemoved k a)
       (s\<lparr>AuthorizedAttestors := dmap_set k a False (AuthorizedAttestors s)\<rparr>)))"

end
