(* ===== verification/RegistryInv.thy ===== *)
theory RegistryInv
  imports Registry "HOL-Library.AList"
begin

text \<open>The invariant of the attestor registry and its consequences.

  \<open>reg_ok\<close> states, for one chain, that the counter is the number of registered attestors, that the
  active set is exactly the attestors in status \<open>Active\<close> or \<open>Leaving\<close>, that every attestor past
  \<open>Idle\<close> has a BLS key, and that every key of a registered or retired attestor is owned by that
  attestor, so that no key is ever held by two accounts.  It is proved for the abstract update each
  operation makes and then transferred to the operations.\<close>

section \<open>The invariant of one chain\<close>

definition holds_key ::
  "(AccountId \<rightharpoonup> Attestor) \<Rightarrow> (AccountId \<rightharpoonup> RetiredAttestorBlsKeyEntry) \<Rightarrow> AccountId \<Rightarrow> BlsPublicKey \<Rightarrow> bool" where
  "holds_key at ret a key \<longleftrightarrow>
    (\<exists>x. at a = Some x \<and> bls_public_key x = Some key) \<or>
    (\<exists>e. ret a = Some e \<and> retired_bls_public_key e = key)"

definition sits :: "(AccountId \<rightharpoonup> Attestor) \<Rightarrow> AccountId \<Rightarrow> bool" where
  "sits at a \<longleftrightarrow> (\<exists>x. at a = Some x \<and> status x \<in> {Active, Leaving})"

definition reg_ok ::
  "(AccountId \<rightharpoonup> Attestor) \<Rightarrow> u32 \<Rightarrow> AccountId list \<Rightarrow> (AccountId \<rightharpoonup> RetiredAttestorBlsKeyEntry) \<Rightarrow>
   (BlsPublicKey \<rightharpoonup> AccountId) \<Rightarrow> bool" where
  "reg_ok at cnt act ret own \<longleftrightarrow>
    unat cnt = card (dom at) \<and> distinct act \<and> set act = {a. sits at a} \<and>
    (\<forall>a x. at a = Some x \<longrightarrow> ret a = None \<and> (status x \<noteq> Idle \<longrightarrow> bls_public_key x \<noteq> None)) \<and>
    (\<forall>a key. holds_key at ret a key \<longrightarrow> own key = Some a)"

lemma reg_okI:
  assumes "unat cnt = card (dom at)" and "distinct act" and "set act = {a. sits at a}"
    and "\<And>a x. at a = Some x \<Longrightarrow> ret a = None"
    and "\<And>a x. at a = Some x \<Longrightarrow> status x \<noteq> Idle \<Longrightarrow> bls_public_key x \<noteq> None"
    and "\<And>a x key. at a = Some x \<Longrightarrow> bls_public_key x = Some key \<Longrightarrow> own key = Some a"
    and "\<And>a e. ret a = Some e \<Longrightarrow> own (retired_bls_public_key e) = Some a"
  shows "reg_ok at cnt act ret own"
  using assms by (auto simp: reg_ok_def holds_key_def)

lemma reg_okD:
  assumes "reg_ok at cnt act ret own"
  shows "unat cnt = card (dom at)" and "distinct act" and "set act = {a. sits at a}"
    and "\<And>a x. at a = Some x \<Longrightarrow> ret a = None"
    and "\<And>a x. at a = Some x \<Longrightarrow> status x \<noteq> Idle \<Longrightarrow> bls_public_key x \<noteq> None"
    and "\<And>a x key. at a = Some x \<Longrightarrow> bls_public_key x = Some key \<Longrightarrow> own key = Some a"
    and "\<And>a e. ret a = Some e \<Longrightarrow> own (retired_bls_public_key e) = Some a"
  using assms by (auto simp: reg_ok_def holds_key_def)

definition release :: "BlsPublicKey \<Rightarrow> AccountId \<Rightarrow> (BlsPublicKey \<rightharpoonup> AccountId) \<Rightarrow> BlsPublicKey \<rightharpoonup> AccountId" where
  "release key a own = (if own key = Some a then own(key := None) else own)"

lemma reg_ok_purge:
  assumes "reg_ok at cnt act ret own" and "ret a = Some e"
  shows "reg_ok at cnt act (ret(a := None)) (release (retired_bls_public_key e) a own)"
proof (rule reg_okI)
  note d = reg_okD [OF assms(1)]
  show "(ret(a := None)) b = None" if "at b = Some x" for b x using d(4) that by simp
  show "release (retired_bls_public_key e) a own key = Some b"
    if "at b = Some x" "bls_public_key x = Some key" for b x key
    using d(4) [OF that(1)] d(6) [OF that] d(7) [OF assms(2)] assms(2) by (auto simp: release_def)
  show "release (retired_bls_public_key e) a own (retired_bls_public_key f) = Some b"
    if "(ret(a := None)) b = Some f" for b f
    using d(7) [of b f] d(7) [OF assms(2)] that by (auto simp: release_def split: if_splits)
qed (use reg_okD [OF assms(1)] in auto)

lemma reg_ok_insert:
  assumes "reg_ok at cnt act ret own" and "at a = None" and "ret a = None" and "cnt < m"
    and "bls_public_key x = None" and "status x = Idle"
  shows "reg_ok (at(a \<mapsto> x)) (saturating_add cnt 1) act ret own"
proof (rule reg_okI)
  note d = reg_okD [OF assms(1)]
  have "unat cnt + 1 < 2 ^ 32"
    using assms(4) unat_less_2p [of m] by (simp add: word_less_nat_alt)
  then have "unat (saturating_add cnt 1) = unat cnt + 1" by (simp add: unat_saturating_add)
  then show "unat (saturating_add cnt 1) = card (dom (at(a \<mapsto> x)))"
    using d(1) assms(2) by (simp add: domIff)
  show "set act = {b. sits (at(a \<mapsto> x)) b}"
    using d(3) assms(2,6) by (auto simp: sits_def)
qed (use reg_okD [OF assms(1)] assms in \<open>auto split: if_splits\<close>)

lemma reg_ok_remove:
  assumes "reg_ok at cnt act ret own" and "at a = Some x" and "status x = Idle"
    and "\<And>key. bls_public_key x = Some key \<Longrightarrow> \<exists>e. ret' = ret(a \<mapsto> e) \<and> retired_bls_public_key e = key"
    and "bls_public_key x = None \<Longrightarrow> ret' = ret"
  shows "reg_ok (at(a := None)) (saturating_sub cnt 1) act ret' own"
proof (rule reg_okI)
  note d = reg_okD [OF assms(1)]
  show "unat (saturating_sub cnt 1) = card (dom (at(a := None)))"
    using d(1) assms(2) by (simp add: unat_saturating_sub card_Diff_singleton domIff)
  show "set act = {b. sits (at(a := None)) b}"
    using d(3) assms(2,3) by (auto simp: sits_def)
  show "ret' b = None" if "(at(a := None)) b = Some y" for b y
    using assms(4,5) d(4) [of b y] that by (cases "bls_public_key x") (auto split: if_splits)
  show "own (retired_bls_public_key f) = Some b" if "ret' b = Some f" for b f
    using assms(4,5) d(7) [of b f] d(6) [OF assms(2)] that
    by (cases "bls_public_key x") (auto split: if_splits)
qed (use reg_okD [OF assms(1)] in \<open>auto split: if_splits\<close>)

lemma reg_ok_activate:
  assumes "reg_ok at cnt act ret own" and "at a = Some x" and "bls_public_key x = None \<or> status x = Idle"
    and "own key = None \<or> own key = Some a" and "bls_public_key y = Some key" and "status y = Waiting"
    and "own' = (case bls_public_key x of Some old \<Rightarrow> if old \<noteq> key then own(old := None) else own | None \<Rightarrow> own)"
  shows "reg_ok (at(a \<mapsto> y)) cnt act ret (own'(key \<mapsto> a))"
proof (rule reg_okI)
  note d = reg_okD [OF assms(1)]
  have idle: "status x = Idle" using assms(3) d(5) [OF assms(2)] by blast
  show "unat cnt = card (dom (at(a \<mapsto> y)))" using d(1) assms(2) by (simp add: insert_absorb domI)
  show "set act = {b. sits (at(a \<mapsto> y)) b}"
    using d(3) assms(2,6) idle by (auto simp: sits_def)
  show "(own'(key \<mapsto> a)) k = Some b" if "(at(a \<mapsto> y)) b = Some z" "bls_public_key z = Some k" for b z k
    using that assms(4,5,7) d(6) [of b z k] d(6) [OF assms(2)]
    by (auto split: if_splits option.splits)
  show "(own'(key \<mapsto> a)) (retired_bls_public_key f) = Some b" if "ret b = Some f" for b f
    using d(7) [OF that] d(4) [OF assms(2)] that assms(4,7) d(6) [OF assms(2)]
    by (auto split: if_splits option.splits)
qed (use reg_okD [OF assms(1)] assms in \<open>auto split: if_splits\<close>)

lemma reg_ok_status:
  assumes "reg_ok at cnt act ret own" and "at a = Some x"
    and "st \<noteq> Idle \<Longrightarrow> bls_public_key x \<noteq> None" and "distinct act'"
    and "set act' = {b. sits (at(a \<mapsto> x\<lparr>status := st\<rparr>)) b}"
  shows "reg_ok (at(a \<mapsto> x\<lparr>status := st\<rparr>)) cnt act' ret own"
proof (rule reg_okI)
  note d = reg_okD [OF assms(1)]
  show "unat cnt = card (dom (at(a \<mapsto> x\<lparr>status := st\<rparr>)))"
    using d(1) assms(2) by (simp add: insert_absorb domI)
qed (use reg_okD [OF assms(1)] assms in \<open>auto split: if_splits\<close>)

definition drop_attestor :: "AccountId \<Rightarrow> AccountId list \<Rightarrow> AccountId list" where
  "drop_attestor a act =
    (case position (\<lambda>x. x = a) act of Some pos \<Rightarrow> swap_remove pos act | None \<Rightarrow> act)"

lemma drop_attestor_aux:
  assumes "distinct act"
  shows "distinct (drop_attestor a act) \<and> set (drop_attestor a act) = set act - {a}"
proof (cases "position (\<lambda>x. x = a) act")
  case None
  then have "a \<notin> set act" by (auto simp: position_None)
  with None assms show ?thesis by (simp add: drop_attestor_def)
next
  case (Some i)
  from position_Some [OF this] have "i < length act" "act ! i = a" by auto
  with Some assms show ?thesis by (simp add: drop_attestor_def distinct_swap_remove)
qed

lemma drop_attestor:
  assumes "distinct act"
  shows "distinct (drop_attestor a act)" and "set (drop_attestor a act) = set act - {a}"
  using drop_attestor_aux [OF assms] by auto

lemma reg_ok_chill:
  assumes "reg_ok at cnt act ret own" and "at a = Some x"
  shows "reg_ok (at(a \<mapsto> x\<lparr>status := Idle\<rparr>)) cnt (drop_attestor a act) ret own"
  using assms(1,2)
proof (rule reg_ok_status)
  note d = reg_okD [OF assms(1)]
  show "distinct (drop_attestor a act)" using d(2) by (rule drop_attestor)
  show "set (drop_attestor a act) = {b. sits (at(a \<mapsto> x\<lparr>status := Idle\<rparr>)) b}"
    using d(2,3) by (auto simp: drop_attestor sits_def)
qed simp

lemma reg_ok_drop_idle:
  assumes "reg_ok at cnt act ret own" and "at a = Some x" and "status x = Idle"
  shows "drop_attestor a act = act"
proof -
  have "a \<notin> set act" using reg_okD(3) [OF assms(1)] assms(2,3) by (simp add: sits_def)
  then have "position (\<lambda>x. x = a) act = None" by (auto simp: position_None)
  then show ?thesis by (simp add: drop_attestor_def)
qed

section \<open>What the operations touch\<close>

text \<open>A lower layer leaves the registry alone; the registry fields depend on the record extension
  only.\<close>

lemma registry_more:
  assumes "LedgerState.more s' = LedgerState.more (s :: ('c, 'z) RegistryState_scheme)"
  shows "Attestors s' = Attestors s" "AttestorsCount s' = AttestorsCount s"
    "ActiveAttestors s' = ActiveAttestors s" "RetiredAttestorBlsKeys s' = RetiredAttestorBlsKeys s"
    "RetiredAttestorKeysByStash s' = RetiredAttestorKeysByStash s" "BlsKeyOwner s' = BlsKeyOwner s"
    "Invulnerables s' = Invulnerables s" "AuthorizedAttestors s' = AuthorizedAttestors s"
    "AttestorCollateral s' = AttestorCollateral s"
  using assms by (cases s; cases s'; simp)+

lemma LedgerState_more_params:
  "ParamsState.more s' = ParamsState.more (s :: ('c, 'z) LedgerState_scheme) \<Longrightarrow>
    LedgerState.more s' = LedgerState.more s"
  by (cases s; cases s'; simp)

lemma deposit_event_layers [simp]:
  "LedgerState.more (deposit_event e s) = LedgerState.more s"
  "Ledger (deposit_event e s) = Ledger s" "balances (deposit_event e s) = balances s"
  by (simp_all add: deposit_event_def)

lemmas deposit_event_registry [simp] = registry_more [OF deposit_event_layers(1)]

lemma ledger_ops_more:
  "ledger_update cur l s = Inr s' \<Longrightarrow> LedgerState.more s' = LedgerState.more s"
  "ledger_bond cur l s = Inr s' \<Longrightarrow> LedgerState.more s' = LedgerState.more s"
  "bond_extra cfg cur k st s = Inr s' \<Longrightarrow> LedgerState.more s' = LedgerState.more s"
  "kill_stash cur st s = Inr s' \<Longrightarrow> LedgerState.more s' = LedgerState.more s"
  by (auto simp: ledger_update_def ledger_bond_def bond_extra_def kill_stash_def ledger_kill_def Let_def
      split: if_splits option.splits sum.splits)

lemma unbond_more: "unbond cfg cur e p v st l s = Inr s' \<Longrightarrow> LedgerState.more s' = LedgerState.more s"
  by (auto simp: unbond_def Let_def split: if_splits option.splits sum.splits dest!: ledger_ops_more(1))

lemma release_bls_key_fields [simp]:
  "Attestors (release_bls_key k a key s) = Attestors s"
  "AttestorsCount (release_bls_key k a key s) = AttestorsCount s"
  "ActiveAttestors (release_bls_key k a key s) = ActiveAttestors s"
  "RetiredAttestorBlsKeys (release_bls_key k a key s) = RetiredAttestorBlsKeys s"
  "AuthorizedAttestors (release_bls_key k a key s) = AuthorizedAttestors s"
  "BlsKeyOwner (release_bls_key k a key s) =
    (BlsKeyOwner s)(k := release key a (BlsKeyOwner s k))"
  "ParamsState.truncate (release_bls_key k a key s) = ParamsState.truncate s"
  "LedgerState.truncate (release_bls_key k a key s) = LedgerState.truncate s"
  by (auto simp: release_bls_key_def release_def dmap_set_def ParamsState.defs LedgerState.defs)

lemma remove_stash_retired_index_pair_fields [simp]:
  "Attestors (remove_stash_retired_index_pair st k a s) = Attestors s"
  "AttestorsCount (remove_stash_retired_index_pair st k a s) = AttestorsCount s"
  "ActiveAttestors (remove_stash_retired_index_pair st k a s) = ActiveAttestors s"
  "RetiredAttestorBlsKeys (remove_stash_retired_index_pair st k a s) = RetiredAttestorBlsKeys s"
  "BlsKeyOwner (remove_stash_retired_index_pair st k a s) = BlsKeyOwner s"
  by (auto simp: remove_stash_retired_index_pair_def Let_def split: option.splits)

section \<open>Every operation keeps the invariant\<close>

definition registry_view :: "('c, 'z) RegistryState_scheme \<Rightarrow> ChainKey \<Rightarrow> _" where
  "registry_view s k = (Attestors s k, attestors_count s k, active_attestor_set s k,
     RetiredAttestorBlsKeys s k, BlsKeyOwner s k)"

definition registry_ok :: "('c, 'z) RegistryState_scheme \<Rightarrow> ChainKey \<Rightarrow> bool" where
  "registry_ok s k \<longleftrightarrow> (case registry_view s k of (at, cnt, act, ret, own) \<Rightarrow> reg_ok at cnt act ret own)"

lemma registry_ok_alt:
  "registry_ok s k \<longleftrightarrow> reg_ok (Attestors s k) (attestors_count s k) (active_attestor_set s k)
     (RetiredAttestorBlsKeys s k) (BlsKeyOwner s k)"
  by (simp add: registry_ok_def registry_view_def)

lemma registry_ok_view: "registry_view s' k = registry_view s k \<Longrightarrow> registry_ok s k \<Longrightarrow> registry_ok s' k"
  by (simp add: registry_ok_def)

lemma registry_view_more:
  "LedgerState.more s' = LedgerState.more s \<Longrightarrow> registry_view s' k = registry_view s k"
  by (simp add: registry_view_def registry_more [of s' s] attestors_count_def active_attestor_set_def)

lemmas counts = attestors_count_def active_attestor_set_def

lemma registry_ok_deposit [simp]: "registry_ok (deposit_event e s) k = registry_ok s k"
  by (simp add: registry_ok_def registry_view_more [of "deposit_event e s" s])

lemma clear_retired_ok:
  assumes "clear_retired_bls_entry_for_controller k a st s = Inr s'" and "registry_ok s k'"
  shows "registry_ok s' k'" and "Attestors s' = Attestors s" and "AttestorsCount s' = AttestorsCount s"
    and "RetiredAttestorBlsKeys s' k a = None"
  using assms reg_ok_purge [of "Attestors s k" "attestors_count s k" "active_attestor_set s k"
      "RetiredAttestorBlsKeys s k" "BlsKeyOwner s k" a]
  by (auto simp: clear_retired_bls_entry_for_controller_def registry_ok_alt counts dmap_set_def
      split: option.splits if_splits)

lemma purge_loop_ok:
  "purge_loop st era pairs kept s = (kept', s') \<Longrightarrow> registry_ok s k' \<Longrightarrow> registry_ok s' k'"
proof (induction st era pairs kept s rule: purge_loop.induct)
  case (2 st era k a pairs kept s)
  have "registry_ok ((release_bls_key k a (retired_bls_public_key e) s)\<lparr>RetiredAttestorBlsKeys :=
      dmap_set k a None (RetiredAttestorBlsKeys s)\<rparr>) k'" if "RetiredAttestorBlsKeys s k a = Some e" for e
    using reg_ok_purge [of "Attestors s k" "attestors_count s k" "active_attestor_set s k"
      "RetiredAttestorBlsKeys s k" "BlsKeyOwner s k" a e] that "2.prems"(2)
    by (auto simp: registry_ok_alt counts dmap_set_def)
  with 2 show ?case by (auto simp: Let_def split: option.splits if_splits)
qed simp

lemma purge_retired_ok:
  assumes "registry_ok s k"
  shows "registry_ok (purge_retired_bls_keys_for_stash st era s) k"
proof -
  obtain kept s' where p: "purge_loop st era (map_get [] (RetiredAttestorKeysByStash s) st) [] s = (kept, s')"
    by (cases "purge_loop st era (map_get [] (RetiredAttestorKeysByStash s) st) [] s")
  show ?thesis
    using assms purge_loop_ok [OF p assms]
    by (simp add: purge_retired_bls_keys_for_stash_def p registry_ok_alt counts Let_def)
qed

lemma registry_view_simps [simp]:
  "registry_view (deposit_event e s) = registry_view s"
  "registry_view (s\<lparr>AttestorCollateral := c\<rparr>) = registry_view s"
  "registry_view (s\<lparr>balances := b\<rparr>) = registry_view s"
  "registry_view (s\<lparr>RetiredAttestorKeysByStash := r\<rparr>) = registry_view s"
  by (simp_all add: registry_view_def counts fun_eq_iff)

lemma ledger_ops_view:
  "ledger_bond cur l s = Inr s' \<Longrightarrow> registry_view s' = registry_view s"
  "bond_extra cfg cur k st s = Inr s' \<Longrightarrow> registry_view s' = registry_view s"
  "ledger_update cur l s = Inr s' \<Longrightarrow> registry_view s' = registry_view s"
  "kill_stash cur st s = Inr s' \<Longrightarrow> registry_view s' = registry_view s"
  by (auto simp: fun_eq_iff intro!: registry_view_more dest: ledger_ops_more)

lemma try_insert_effect:
  assumes "try_insert_attestor_and_emit_event cfg cur supp k st a s = Inr s'"
  obtains s1 where "clear_retired_bls_entry_for_controller k a st s = Inr s1" and "supp k"
    and "Attestors s k a = None" and "attestors_count s1 k < max_attestors cfg s1 k" and "a \<noteq> st"
    and "registry_view s' = registry_view (s1\<lparr>Attestors := dmap_set k a
           (Some \<lparr>bls_public_key = None, status = Idle, stash = st\<rparr>) (Attestors s1),
         AttestorsCount := (AttestorsCount s1)(k \<mapsto> saturating_add (attestors_count s1 k) 1)\<rparr>)"
proof -
  obtain s1 where s1: "clear_retired_bls_entry_for_controller k a st s = Inr s1" and c: "supp k"
      "Attestors s k a = None" "attestors_count s1 k < max_attestors cfg s1 k" "a \<noteq> st"
    using assms by (auto simp: try_insert_attestor_and_emit_event_def attestor_is_registered_def
        attestor_list_has_space_def Let_def split: if_splits sum.splits)
  let ?s2 = "s1\<lparr>Attestors := dmap_set k a
           (Some \<lparr>bls_public_key = None, status = Idle, stash = st\<rparr>) (Attestors s1),
         AttestorsCount := (AttestorsCount s1)(k \<mapsto> saturating_add (attestors_count s1 k) 1)\<rparr>"
  have "registry_view s' = registry_view ?s2"
    using assms s1 c by (auto simp: try_insert_attestor_and_emit_event_def attestor_is_registered_def
        attestor_list_has_space_def Let_def split: if_splits sum.splits dest!: ledger_ops_view)
  with s1 c that show ?thesis by simp
qed

lemma try_insert_ok:
  fixes s :: "('c, 'z) RegistryState_scheme"
  assumes "try_insert_attestor_and_emit_event cfg cur supp k st a s = Inr s'" and "registry_ok s k'"
  shows "registry_ok s' k'"
  using assms(1)
proof (rule try_insert_effect)
  fix s1 :: "('c, 'z) RegistryState_scheme"
  let ?x = "\<lparr>bls_public_key = None, status = Idle, stash = st\<rparr>"
  let ?s2 = "s1\<lparr>Attestors := dmap_set k a (Some ?x) (Attestors s1),
         AttestorsCount := (AttestorsCount s1)(k \<mapsto> saturating_add (attestors_count s1 k) 1)\<rparr>"
  assume c: "clear_retired_bls_entry_for_controller k a st s = Inr s1"
    and new: "Attestors s k a = None" and room: "attestors_count s1 k < max_attestors cfg s1 k"
    and v: "registry_view s' = registry_view ?s2"
  note r = clear_retired_ok [OF c assms(2)]
  have "registry_ok ?s2 k'"
  proof (cases "k' = k")
    case True
    have "reg_ok ((Attestors s1 k)(a \<mapsto> ?x)) (saturating_add (attestors_count s1 k) 1)
        (active_attestor_set s1 k) (RetiredAttestorBlsKeys s1 k) (BlsKeyOwner s1 k)"
      by (rule reg_ok_insert [OF _ _ _ room]) (use r new True in \<open>simp_all add: registry_ok_alt\<close>)
    with True show ?thesis by (simp add: registry_ok_alt counts dmap_set_def)
  next
    case False
    with r(1) show ?thesis by (simp add: registry_ok_alt counts dmap_set_def)
  qed
  then show ?thesis by (simp add: registry_ok_def v)
qed

lemma remove_active_fields [simp]:
  "Attestors (remove_active_attestor_from_set k a s) = Attestors s"
  "AttestorsCount (remove_active_attestor_from_set k a s) = AttestorsCount s"
  "RetiredAttestorBlsKeys (remove_active_attestor_from_set k a s) = RetiredAttestorBlsKeys s"
  "BlsKeyOwner (remove_active_attestor_from_set k a s) = BlsKeyOwner s"
  "active_attestor_set (remove_active_attestor_from_set k a s) k' =
    (if k' = k then drop_attestor a (active_attestor_set s k) else active_attestor_set s k')"
  by (simp_all add: remove_active_attestor_from_set_def drop_attestor_def counts Let_def)

lemma settle_bond_view:
  assumes "settle_bond cfg cur era p k st a s = Inr s'"
  shows "registry_view s' = registry_view s"
proof -
  let ?s0 = "s\<lparr>AttestorCollateral := dmap_set k a None (AttestorCollateral s)\<rparr>"
  have "LedgerState.more s' = LedgerState.more ?s0"
    using assms by (auto simp: settle_bond_def Let_def split: if_splits option.splits dest: unbond_more)
  then have "registry_view s' = registry_view ?s0" by (intro ext registry_view_more)
  then show ?thesis by simp
qed

lemma registry_viewD:
  assumes "registry_view s' = registry_view s"
  shows "Attestors s' = Attestors s" "attestors_count s' = attestors_count s"
    "active_attestor_set s' = active_attestor_set s"
    "RetiredAttestorBlsKeys s' = RetiredAttestorBlsKeys s" "BlsKeyOwner s' = BlsKeyOwner s"
proof -
  have e: "registry_view s' k = registry_view s k" for k using assms by simp
  show "Attestors s' = Attestors s" "attestors_count s' = attestors_count s"
    "active_attestor_set s' = active_attestor_set s"
    "RetiredAttestorBlsKeys s' = RetiredAttestorBlsKeys s" "BlsKeyOwner s' = BlsKeyOwner s"
    by (rule ext; use e in \<open>simp add: registry_view_def\<close>)+
qed

lemma drop_row_fields [simp]:
  "Attestors (drop_row k a s) = dmap_set k a None (Attestors s)"
  "attestors_count (drop_row k a s) = (attestors_count s)(k := saturating_sub (attestors_count s k) 1)"
  "active_attestor_set (drop_row k a s) =
    (active_attestor_set s)(k := drop_attestor a (active_attestor_set s k))"
  "RetiredAttestorBlsKeys (drop_row k a s) = RetiredAttestorBlsKeys s"
  "BlsKeyOwner (drop_row k a s) = BlsKeyOwner s"
  by (simp_all add: drop_row_def Let_def counts fun_eq_iff remove_active_attestor_from_set_def drop_attestor_def)

lemma retire_key_fields:
  assumes "retire_key p k st a key_opt s = Inr s'"
  shows "Attestors s' = Attestors s" "attestors_count s' = attestors_count s"
    "active_attestor_set s' = active_attestor_set s" "BlsKeyOwner s' = BlsKeyOwner s"
    "RetiredAttestorBlsKeys s' = (case key_opt of None \<Rightarrow> RetiredAttestorBlsKeys s
      | Some key \<Rightarrow> dmap_set k a
          (Some \<lparr>retired_bls_public_key = key, purge_at_era = p, retired_stash = st\<rparr>) (RetiredAttestorBlsKeys s))"
  using assms by (auto simp: retire_key_def Let_def counts split: option.splits if_splits)

lemma deposit_event_counts [simp]:
  "attestors_count (deposit_event e s) = attestors_count s"
  "active_attestor_set (deposit_event e s) = active_attestor_set s"
  by (simp_all add: counts)

lemma remove_attestor_effect:
  assumes "remove_attestor_and_emit_event cfg cur era k st a s = Inr s'"
  obtains x where "Attestors s k a = Some x" and "stash x = st" and "status x = Idle"
    and "case bls_public_key x of None \<Rightarrow> RetiredAttestorBlsKeys s' = RetiredAttestorBlsKeys s
      | Some key \<Rightarrow> RetiredAttestorBlsKeys s' = dmap_set k a
          (Some \<lparr>retired_bls_public_key = key, purge_at_era = saturating_add era (BondingDuration cfg),
             retired_stash = st\<rparr>) (RetiredAttestorBlsKeys s)"
    and "Attestors s' = dmap_set k a None (Attestors s)" and "BlsKeyOwner s' = BlsKeyOwner s"
    and "attestors_count s' = (attestors_count s)(k := saturating_sub (attestors_count s k) 1)"
    and "active_attestor_set s' = (active_attestor_set s)(k := drop_attestor a (active_attestor_set s k))"
proof -
  obtain x s1 s2 where x: "Attestors s k a = Some x" "stash x = st" "status x = Idle"
    and s1: "settle_bond cfg cur era (saturating_add era (BondingDuration cfg)) k st a s = Inr s1"
    and s2: "retire_key (saturating_add era (BondingDuration cfg)) k st a (bls_public_key x) s1 = Inr s2"
    and s': "s' = deposit_event (AttestorUnregistered k a) (drop_row k a s2)"
    using assms by (auto simp: remove_attestor_and_emit_event_def Let_def split: option.splits if_splits sum.splits)
  note f = registry_viewD [OF settle_bond_view [OF s1]] retire_key_fields [OF s2]
  show ?thesis
    by (rule that [OF x]) (simp_all add: s' f split: option.split)
qed

lemma remove_attestor_ok:
  assumes "remove_attestor_and_emit_event cfg cur era k st a s = Inr s'" and "registry_ok s k'"
  shows "registry_ok s' k'"
  using assms(1)
proof (rule remove_attestor_effect)
  fix x
  assume x: "Attestors s k a = Some x" "stash x = st" "status x = Idle"
    and ret: "case bls_public_key x of None \<Rightarrow> RetiredAttestorBlsKeys s' = RetiredAttestorBlsKeys s
      | Some key \<Rightarrow> RetiredAttestorBlsKeys s' = dmap_set k a
          (Some \<lparr>retired_bls_public_key = key, purge_at_era = saturating_add era (BondingDuration cfg),
             retired_stash = st\<rparr>) (RetiredAttestorBlsKeys s)"
    and f: "Attestors s' = dmap_set k a None (Attestors s)" "BlsKeyOwner s' = BlsKeyOwner s"
      "attestors_count s' = (attestors_count s)(k := saturating_sub (attestors_count s k) 1)"
      "active_attestor_set s' = (active_attestor_set s)(k := drop_attestor a (active_attestor_set s k))"
  show ?thesis
  proof (cases "k' = k")
    case True
    have ok: "reg_ok (Attestors s k) (attestors_count s k) (active_attestor_set s k)
        (RetiredAttestorBlsKeys s k) (BlsKeyOwner s k)"
      using assms(2) True by (simp add: registry_ok_alt)
    have "reg_ok ((Attestors s k)(a := None)) (saturating_sub (attestors_count s k) 1)
        (active_attestor_set s k) (RetiredAttestorBlsKeys s' k) (BlsKeyOwner s k)"
      by (rule reg_ok_remove [OF ok x(1,3)]) (use ret in \<open>auto simp: dmap_set_def\<close>)
    with True show ?thesis
      by (simp add: registry_ok_alt f dmap_set_def reg_ok_drop_idle [OF ok x(1,3)])
  next
    case False
    then have "RetiredAttestorBlsKeys s' k' = RetiredAttestorBlsKeys s k'"
      using ret by (auto simp: dmap_set_def split: option.splits)
    with False assms(2) show ?thesis by (simp add: registry_ok_alt f dmap_set_def)
  qed
qed

lemma start_attesting_ok:
  assumes "start_attesting bls supp k a key pop s = Inr s'" and "registry_ok s k'"
  shows "registry_ok s' k'"
proof -
  obtain x where x: "Attestors s k a = Some x" "bls_public_key x = None \<or> status x = Idle"
    and own: "BlsKeyOwner s k key = None \<or> BlsKeyOwner s k key = Some a"
    and f: "Attestors s' = dmap_set k a (Some (x\<lparr>status := Waiting, bls_public_key := Some key\<rparr>)) (Attestors s)"
      "attestors_count s' = attestors_count s" "active_attestor_set s' = active_attestor_set s"
      "RetiredAttestorBlsKeys s' = RetiredAttestorBlsKeys s"
      "BlsKeyOwner s' = (BlsKeyOwner s)(k := (case bls_public_key x of
          Some old \<Rightarrow> if old \<noteq> key then (BlsKeyOwner s k)(old := None) else BlsKeyOwner s k
        | None \<Rightarrow> BlsKeyOwner s k)(key \<mapsto> a))"
    using assms(1)
    by (auto simp: start_attesting_def Let_def counts dmap_set_def split: if_splits option.splits)
  show ?thesis
  proof (cases "k' = k")
    case True
    then have ok: "reg_ok (Attestors s k) (attestors_count s k) (active_attestor_set s k)
        (RetiredAttestorBlsKeys s k) (BlsKeyOwner s k)"
      using assms(2) by (simp add: registry_ok_alt)
    have "reg_ok ((Attestors s k)(a \<mapsto> x\<lparr>status := Waiting, bls_public_key := Some key\<rparr>)) (attestors_count s k)
        (active_attestor_set s k) (RetiredAttestorBlsKeys s k) (BlsKeyOwner s' k)"
      unfolding f fun_upd_same
      by (rule reg_ok_activate [OF ok x own]) simp_all
    with True show ?thesis by (simp add: registry_ok_alt f dmap_set_def)
  next
    case False
    with assms(2) show ?thesis by (simp add: registry_ok_alt f dmap_set_def)
  qed
qed

lemma set_status_fields [simp]:
  "attestors_count (set_attestor_status k a st s) = attestors_count s"
  "active_attestor_set (set_attestor_status k a st s) = active_attestor_set s"
  "RetiredAttestorBlsKeys (set_attestor_status k a st s) = RetiredAttestorBlsKeys s"
  "BlsKeyOwner (set_attestor_status k a st s) = BlsKeyOwner s"
  by (simp_all add: set_attestor_status_def counts split: option.splits)

lemma Attestors_set_status:
  "Attestors s k a = Some x \<Longrightarrow>
    Attestors (set_attestor_status k a st s) = (Attestors s)(k := (Attestors s k)(a \<mapsto> x\<lparr>status := st\<rparr>))"
  by (simp add: set_attestor_status_def dmap_set_def)

lemma remove_active_count [simp]:
  "attestors_count (remove_active_attestor_from_set k a s) = attestors_count s"
  by (simp add: counts)

lemma chill_immediate_ok:
  assumes "registry_ok s k'" and "Attestors s k a = Some x"
  shows "registry_ok (do_chill_attestor_immediate k a s) k'"
  using assms reg_ok_chill [of "Attestors s k" "attestors_count s k" "active_attestor_set s k"
      "RetiredAttestorBlsKeys s k" "BlsKeyOwner s k" a x]
  by (auto simp: do_chill_attestor_immediate_def registry_ok_alt Attestors_set_status)

lemma schedule_chill_ok:
  assumes "registry_ok s k'" and "Attestors s k a = Some x" and "status x = Active"
  shows "registry_ok (schedule_voluntary_chill k a s) k'"
proof (cases "k' = k")
  case True
  then have ok: "reg_ok (Attestors s k) (attestors_count s k) (active_attestor_set s k)
      (RetiredAttestorBlsKeys s k) (BlsKeyOwner s k)"
    using assms(1) by (simp add: registry_ok_alt)
  have "reg_ok ((Attestors s k)(a \<mapsto> x\<lparr>status := Leaving\<rparr>)) (attestors_count s k) (active_attestor_set s k)
      (RetiredAttestorBlsKeys s k) (BlsKeyOwner s k)"
  proof (rule reg_ok_status [OF ok assms(2)])
    show "set (active_attestor_set s k) = {b. sits ((Attestors s k)(a \<mapsto> x\<lparr>status := Leaving\<rparr>)) b}"
      using reg_okD(3) [OF ok] assms(2,3) by (auto simp: sits_def)
  qed (use reg_okD(2,5) [OF ok] assms(2,3) in auto)
  with True show ?thesis by (simp add: registry_ok_alt schedule_voluntary_chill_def Attestors_set_status [OF assms(2)])
next
  case False
  with assms(1) show ?thesis
    by (simp add: registry_ok_alt schedule_voluntary_chill_def Attestors_set_status [OF assms(2)])
qed

lemma chill_ok:
  assumes "chill origin k a s = Inr s'" and "registry_ok s k'"
  shows "registry_ok s' k'"
  using assms chill_immediate_ok [of s k' k a] schedule_chill_ok [of s k' k a]
  by (auto simp: chill_def split: Origin.splits option.splits if_splits AttestorStatus.splits)

lemma kick_ok:
  assumes "kick_active_attestor cfg cur era origin k a u s = Inr s'" and "registry_ok s k'"
  shows "registry_ok s' k'"
  using assms chill_immediate_ok [of s k' k a]
  by (auto simp: kick_active_attestor_def Let_def split: option.splits if_splits dest: remove_attestor_ok)

lemma withdraw_ok:
  assumes "withdraw_unbonded cur era origin s = Inr s'" and "registry_ok s k"
  shows "registry_ok s' k"
proof -
  have "\<exists>st. registry_view s' = registry_view (purge_retired_bls_keys_for_stash st era s)"
    using assms(1)
    by (auto simp: withdraw_unbonded_def do_withdraw_unbonded_def Let_def
        split: Origin.splits option.splits if_splits sum.splits dest!: ledger_ops_view(3,4))
  then obtain st where "registry_view s' = registry_view (purge_retired_bls_keys_for_stash st era s)" ..
  with purge_retired_ok [OF assms(2), of st era] show ?thesis by (simp add: registry_ok_def)
qed

section \<open>Elections\<close>

text \<open>The transition an election makes, as a function of the status and of whether the policy
  admits the account.\<close>

definition admits :: "AttestorElectionPolicy \<Rightarrow> bool \<Rightarrow> bool" where
  "admits policy authorized = (case policy of OpenToAny \<Rightarrow> True | AuthorizedOnly \<Rightarrow> authorized | DeniedToAll \<Rightarrow> False)"

definition elected_status :: "bool \<Rightarrow> AttestorStatus \<Rightarrow> AttestorStatus" where
  "elected_status adm st = (case st of Active \<Rightarrow> Active | Waiting \<Rightarrow> if adm then Active else Waiting
     | Idle \<Rightarrow> Idle | Leaving \<Rightarrow> Idle)"

definition elect_attestor :: "bool \<Rightarrow> Attestor \<Rightarrow> Attestor" where
  "elect_attestor adm x = x\<lparr>status := elected_status adm (status x)\<rparr>"

lemma elect_one_spec:
  assumes "elect_one policy k (a, x) s = (b, s')" and "Attestors s k a = Some x"
  shows "Attestors s' = (Attestors s)(k := (Attestors s k)(a \<mapsto>
      elect_attestor (admits policy (AuthorizedAttestors s k a)) x))"
    and "b \<longleftrightarrow> elected_status (admits policy (AuthorizedAttestors s k a)) (status x) = Active"
    and "AttestorsCount s' = AttestorsCount s" "ActiveAttestors s' = ActiveAttestors s"
    "RetiredAttestorBlsKeys s' = RetiredAttestorBlsKeys s" "BlsKeyOwner s' = BlsKeyOwner s"
    "AuthorizedAttestors s' = AuthorizedAttestors s"
proof -
  have id: "x\<lparr>status := st\<rparr> = x" if "status x = st" for st using that by simp
  have "Attestors s' = (Attestors s)(k := (Attestors s k)(a \<mapsto>
      elect_attestor (admits policy (AuthorizedAttestors s k a)) x)) \<and>
    (b \<longleftrightarrow> elected_status (admits policy (AuthorizedAttestors s k a)) (status x) = Active) \<and>
    AttestorsCount s' = AttestorsCount s \<and> ActiveAttestors s' = ActiveAttestors s \<and>
    RetiredAttestorBlsKeys s' = RetiredAttestorBlsKeys s \<and> BlsKeyOwner s' = BlsKeyOwner s \<and>
    AuthorizedAttestors s' = AuthorizedAttestors s"
    using assms
    by (cases "status x"; cases policy)
      (auto simp: elect_one_def Let_def admits_def elected_status_def elect_attestor_def dmap_set_def
        id fun_upd_idem split: if_splits)
  then show "Attestors s' = (Attestors s)(k := (Attestors s k)(a \<mapsto>
      elect_attestor (admits policy (AuthorizedAttestors s k a)) x))"
    "b \<longleftrightarrow> elected_status (admits policy (AuthorizedAttestors s k a)) (status x) = Active"
    "AttestorsCount s' = AttestorsCount s" "ActiveAttestors s' = ActiveAttestors s"
    "RetiredAttestorBlsKeys s' = RetiredAttestorBlsKeys s" "BlsKeyOwner s' = BlsKeyOwner s"
    "AuthorizedAttestors s' = AuthorizedAttestors s"
    by auto
qed

lemma elect_loop_spec:
  assumes "elect_loop policy k es s = (sel, s')" and "distinct (map fst es)"
    and "\<And>a x. (a, x) \<in> set es \<Longrightarrow> Attestors s k a = Some x"
  shows "Attestors s' = (Attestors s)(k := (\<lambda>a. if a \<in> fst ` set es
        then map_option (elect_attestor (admits policy (AuthorizedAttestors s k a))) (Attestors s k a)
        else Attestors s k a)) \<and>
    sel = map fst (filter (\<lambda>(a, x). elected_status (admits policy (AuthorizedAttestors s k a)) (status x) = Active) es) \<and>
    AttestorsCount s' = AttestorsCount s \<and> ActiveAttestors s' = ActiveAttestors s \<and>
    RetiredAttestorBlsKeys s' = RetiredAttestorBlsKeys s \<and> BlsKeyOwner s' = BlsKeyOwner s"
  using assms
proof (induction es arbitrary: s sel s')
  case (Cons e es)
  obtain a x where e: "e = (a, x)" by (cases e)
  obtain b s1 where one: "elect_one policy k (a, x) s = (b, s1)" by (cases "elect_one policy k (a, x) s")
  obtain rest s2 where loop: "elect_loop policy k es s1 = (rest, s2)" by (cases "elect_loop policy k es s1")
  have ax: "Attestors s k a = Some x" using Cons.prems(3) [of a x] by (simp add: e)
  note f = elect_one_spec [OF one ax]
  have new: "a \<notin> fst ` set es" using Cons.prems(2) by (simp add: e)
  have r: "sel = (if b then a # rest else rest)" "s' = s2"
    using Cons.prems(1) by (auto simp: e one loop split: if_splits)
  have ih: "Attestors s2 = (Attestors s1)(k := (\<lambda>c. if c \<in> fst ` set es
        then map_option (elect_attestor (admits policy (AuthorizedAttestors s1 k c))) (Attestors s1 k c)
        else Attestors s1 k c)) \<and>
    rest = map fst (filter (\<lambda>(c, y). elected_status (admits policy (AuthorizedAttestors s1 k c)) (status y) = Active) es) \<and>
    AttestorsCount s2 = AttestorsCount s1 \<and> ActiveAttestors s2 = ActiveAttestors s1 \<and>
    RetiredAttestorBlsKeys s2 = RetiredAttestorBlsKeys s1 \<and> BlsKeyOwner s2 = BlsKeyOwner s1"
  proof (rule Cons.IH [OF loop])
    show "distinct (map fst es)" using Cons.prems(2) by simp
    show "Attestors s1 k c = Some y" if "(c, y) \<in> set es" for c y
      using Cons.prems(3) [of c y] that new by (auto simp: f e image_iff)
  qed
  have "Attestors s2 = (Attestors s)(k := (\<lambda>c. if c \<in> fst ` set (e # es)
        then map_option (elect_attestor (admits policy (AuthorizedAttestors s k c))) (Attestors s k c)
        else Attestors s k c))"
    using new by (auto simp: conjunct1 [OF ih] f e ax fun_eq_iff)
  with ih show ?case by (simp add: r f e)
qed simp

lemma same_membership_set:
  assumes "distinct xs" and "distinct ys"
  shows "same_membership xs ys \<longleftrightarrow> set xs = set ys"
proof
  assume "same_membership xs ys"
  then have "length xs = length ys" "set xs \<subseteq> set ys"
    by (auto simp: same_membership_def list_all_iff)
  then show "set xs = set ys"
    using assms by (intro card_subset_eq) (simp_all add: distinct_card)
next
  assume e: "set xs = set ys"
  have "length xs = length ys" using distinct_card [OF assms(1)] distinct_card [OF assms(2)] e by simp
  with e show "same_membership xs ys" by (simp add: same_membership_def list_all_iff)
qed

lemma elect_attestors_spec:
  assumes "storage_iteration iter" and "distinct (active_attestor_set s k)"
    and s': "elect_attestors_for_chain iter k epoch s = s'"
  shows "Attestors s' = (Attestors s)(k := (\<lambda>a. map_option
        (elect_attestor (admits (chain_election_policy s k) (AuthorizedAttestors s k a))) (Attestors s k a)))"
    and "distinct (active_attestor_set s' k)"
    and "set (active_attestor_set s' k) = {a. \<exists>x. Attestors s' k a = Some x \<and> status x = Active}"
    and "k' \<noteq> k \<Longrightarrow> active_attestor_set s' k' = active_attestor_set s k'"
    and "attestors_count s' = attestors_count s" "RetiredAttestorBlsKeys s' = RetiredAttestorBlsKeys s"
    "BlsKeyOwner s' = BlsKeyOwner s"
proof -
  let ?ks = "iter (dom (Attestors s k))" and ?p = "chain_election_policy s k"
  let ?es = "map (\<lambda>a. (a, the (Attestors s k a))) ?ks"
  obtain el s1 where loop: "elect_loop ?p k ?es s = (el, s1)" by (cases "elect_loop ?p k ?es s")
  have ks: "set ?ks = dom (Attestors s k)" "distinct ?ks"
    using storage_iteration.set_iter [OF assms(1)] storage_iteration.distinct_iter [OF assms(1)] by simp_all
  have mf: "map fst ?es = ?ks" by (simp add: comp_def)
  have es: "fst ` set ?es = dom (Attestors s k)" using ks(1) by (metis mf set_map)
  have ds: "distinct (map fst ?es)" using ks(2) mf by simp
  have at: "\<And>a x. (a, x) \<in> set ?es \<Longrightarrow> Attestors s k a = Some x" using ks(1) by auto
  note spec = elect_loop_spec [OF loop ds at]
  have ext: "(\<lambda>a. if a \<in> fst ` set ?es then map_option (g a) (Attestors s k a) else Attestors s k a) =
      (\<lambda>a. map_option (g a) (Attestors s k a))" for g :: "AccountId \<Rightarrow> Attestor \<Rightarrow> Attestor"
    unfolding es by (rule ext) (simp add: domIff)
  have f: "Attestors s1 = (Attestors s)(k := (\<lambda>a. map_option
        (elect_attestor (admits ?p (AuthorizedAttestors s k a))) (Attestors s k a)))"
    using conjunct1 [OF spec] unfolding ext .
  have el_eq: "el = map fst (filter (\<lambda>(a, x). elected_status (admits ?p (AuthorizedAttestors s k a)) (status x) = Active) ?es)"
    and f': "AttestorsCount s1 = AttestorsCount s" "ActiveAttestors s1 = ActiveAttestors s"
    "RetiredAttestorBlsKeys s1 = RetiredAttestorBlsKeys s" "BlsKeyOwner s1 = BlsKeyOwner s"
    using conjunct2 [OF spec] by blast+
  have el: "distinct el" "set el = {a. \<exists>x. Attestors s1 k a = Some x \<and> status x = Active}"
    using ks by (auto simp: f el_eq filter_map comp_def elect_attestor_def)
  have eq: "s' = (if same_membership el (active_attestor_set s1 k) then s1
      else deposit_event (AttestorsElected epoch k el) (s1\<lparr>ActiveAttestors := (ActiveAttestors s1)(k \<mapsto> el)\<rparr>))"
    by (simp add: s' [symmetric] elect_attestors_for_chain_def loop Let_def)
  have d: "distinct (active_attestor_set s1 k)" using assms(2) by (simp add: counts f')
  note sm = same_membership_set [OF el(1) d]
  show "Attestors s' = (Attestors s)(k := (\<lambda>a. map_option
        (elect_attestor (admits (chain_election_policy s k) (AuthorizedAttestors s k a))) (Attestors s k a)))"
    "attestors_count s' = attestors_count s" "RetiredAttestorBlsKeys s' = RetiredAttestorBlsKeys s"
    "BlsKeyOwner s' = BlsKeyOwner s" "distinct (active_attestor_set s' k)"
    using el(1) d by (simp_all add: eq f f' counts)
  show "k' \<noteq> k \<Longrightarrow> active_attestor_set s' k' = active_attestor_set s k'"
    by (simp add: eq counts f')
  show "set (active_attestor_set s' k) = {a. \<exists>x. Attestors s' k a = Some x \<and> status x = Active}"
    using el(2) sm by (simp add: eq counts)
qed

lemma elected_not_leaving: "status (elect_attestor adm x) \<noteq> Leaving"
  by (cases "status x") (simp_all add: elect_attestor_def elected_status_def)

lemma elect_ok:
  assumes "storage_iteration iter" and "registry_ok s k" and "registry_ok s k'"
  shows "registry_ok (elect_attestors_for_chain iter k epoch s) k'"
proof -
  let ?s = "elect_attestors_for_chain iter k epoch s"
  let ?e = "\<lambda>a. elect_attestor (admits (chain_election_policy s k) (AuthorizedAttestors s k a))"
  have ok: "reg_ok (Attestors s k) (attestors_count s k) (active_attestor_set s k)
      (RetiredAttestorBlsKeys s k) (BlsKeyOwner s k)"
    using assms(2) by (simp add: registry_ok_alt)
  note d = reg_okD [OF ok]
  note f = elect_attestors_spec [where epoch = epoch, OF assms(1) d(2) refl]
  have at: "Attestors ?s k = (\<lambda>a. map_option (?e a) (Attestors s k a))" by (simp add: f(1))
  show ?thesis
  proof (cases "k' = k")
    case True
    have "reg_ok (Attestors ?s k) (attestors_count s k) (active_attestor_set ?s k)
        (RetiredAttestorBlsKeys s k) (BlsKeyOwner s k)"
    proof (rule reg_okI)
      show "unat (attestors_count s k) = card (dom (Attestors ?s k))"
        unfolding at d(1) by (simp add: dom_def)
      show "set (active_attestor_set ?s k) = {a. sits (Attestors ?s k) a}"
        unfolding f(3) sits_def unfolding at using elected_not_leaving by fastforce
    next
      fix a x assume "Attestors ?s k a = Some x"
      then obtain y where y: "Attestors s k a = Some y" "x = ?e a y" by (auto simp: at)
      show "RetiredAttestorBlsKeys s k a = None" using d(4) [OF y(1)] .
      show "bls_public_key x \<noteq> None" if "status x \<noteq> Idle"
        using d(5) [OF y(1)] that y(2)
        by (auto simp: elect_attestor_def elected_status_def split: AttestorStatus.splits)
      show "BlsKeyOwner s k key = Some a" if "bls_public_key x = Some key" for key
        using d(6) [OF y(1)] that y(2) by (simp add: elect_attestor_def)
    qed (use f(2) d(7) in simp_all)
    with True show ?thesis by (simp add: registry_ok_alt f(5-7))
  next
    case False
    with assms(3) show ?thesis by (simp add: registry_ok_alt f(4) f(5-7)) (simp add: f(1))
  qed
qed

text \<open>An election only reads the chain it is for, so it keeps the invariant of every supported
  chain.\<close>

lemma do_start_election_ok:
  assumes "storage_iteration iter" and "\<forall>k\<in>set supported \<union> {k'}. registry_ok s k"
  shows "\<forall>k\<in>set supported \<union> {k'}. registry_ok (do_start_election iter supported epoch s) k"
proof -
  have "\<forall>k\<in>S. registry_ok (fold (\<lambda>k. elect_attestors_for_chain iter k epoch) ks s) k"
    if "set ks \<subseteq> S" "\<forall>k\<in>S. registry_ok s k" for ks S and s
    using that by (induction ks arbitrary: s) (simp_all add: elect_ok [OF assms(1)])
  from this [of supported "set supported \<union> {k'}" s] assms(2) show ?thesis
    unfolding do_start_election_def by blast
qed

lemma apply_updates_view:
  assumes "chain_iteration chain_iter"
  shows "registry_view (snd (apply_interval_updates chain_iter s)) = registry_view s"
proof -
  obtain n s' where s': "apply_interval_updates chain_iter s = (n, s')"
    by (cases "apply_interval_updates chain_iter s")
  have "registry_view s' = registry_view s"
    by (intro ext registry_view_more LedgerState_more_params apply_interval_updates_fields [OF assms s'])
  with s' show ?thesis by simp
qed

lemma epoch_ok:
  assumes "storage_iteration iter" and "chain_iteration chain_iter"
    and "\<forall>k\<in>set supported \<union> {k'}. registry_ok s k"
  shows "registry_ok (on_new_epoch_randomness iter chain_iter supported epoch s) k'"
  using do_start_election_ok [OF assms(1,3), of epoch]
    apply_updates_view [OF assms(2), of "do_start_election iter supported epoch s"]
  by (simp add: on_new_epoch_randomness_def registry_ok_def)

section \<open>Reachable states\<close>

text \<open>A step is a successful call, an epoch change, the registration of a chain with an unused
  key, or any other transition of the runtime that leaves the registry of the chains that stay
  supported as it is.\<close>

inductive registry_step ::
  "PalletConfig \<Rightarrow> 'c Currency \<Rightarrow> ('pk, 'sg) Bls \<Rightarrow> (AccountId set \<Rightarrow> AccountId list) \<Rightarrow> (ChainKey set \<Rightarrow> ChainKey list) \<Rightarrow>
   (ChainKey \<Rightarrow> bool) \<times> ('c, 'z) RegistryState_scheme \<Rightarrow> (ChainKey \<Rightarrow> bool) \<times> ('c, 'z) RegistryState_scheme \<Rightarrow> bool"
  for cfg cur bls iter chain_iter where
  register: "register_attestor cfg cur supp origin k a s = Inr s' \<Longrightarrow>
    registry_step cfg cur bls iter chain_iter (supp, s) (supp, s')"
| unregister: "unregister_attestor cfg cur era origin k a s = Inr s' \<Longrightarrow>
    registry_step cfg cur bls iter chain_iter (supp, s) (supp, s')"
| attest: "attest bls supp origin k key pop s = Inr s' \<Longrightarrow>
    registry_step cfg cur bls iter chain_iter (supp, s) (supp, s')"
| chill: "chill origin k a s = Inr s' \<Longrightarrow> registry_step cfg cur bls iter chain_iter (supp, s) (supp, s')"
| kick: "kick_active_attestor cfg cur era origin k a u s = Inr s' \<Longrightarrow>
    registry_step cfg cur bls iter chain_iter (supp, s) (supp, s')"
| withdraw: "withdraw_unbonded cur era origin s = Inr s' \<Longrightarrow>
    registry_step cfg cur bls iter chain_iter (supp, s) (supp, s')"
| epoch: "(\<forall>k\<in>set supported. supp k) \<Longrightarrow> registry_step cfg cur bls iter chain_iter (supp, s)
    (supp, on_new_epoch_randomness iter chain_iter supported e s)"
| force: "force_election cfg supp iter e origin k s = Inr s' \<Longrightarrow>
    registry_step cfg cur bls iter chain_iter (supp, s) (supp, s')"
| new_chain: "registry_view s' k = (Map.empty, 0, [], Map.empty, Map.empty) \<Longrightarrow>
    (\<forall>k'. supp k' \<longrightarrow> registry_view s' k' = registry_view s k') \<Longrightarrow>
    registry_step cfg cur bls iter chain_iter (supp, s) (supp(k := True), s')"
| elsewhere: "(\<forall>k. supp' k \<longrightarrow> supp k \<and> registry_view s' k = registry_view s k) \<Longrightarrow>
    registry_step cfg cur bls iter chain_iter (supp, s) (supp', s')"

definition registry_inv :: "(ChainKey \<Rightarrow> bool) \<times> ('c, 'z) RegistryState_scheme \<Rightarrow> bool" where
  "registry_inv st \<longleftrightarrow> (\<forall>k. fst st k \<longrightarrow> registry_ok (snd st) k)"

definition registry_genesis :: "(ChainKey \<Rightarrow> bool) \<times> ('c, 'z) RegistryState_scheme \<Rightarrow> bool" where
  "registry_genesis st \<longleftrightarrow> (\<forall>k. registry_view (snd st) k = (Map.empty, 0, [], Map.empty, Map.empty))"

lemma registry_ok_empty:
  "registry_view s k = (Map.empty, 0, [], Map.empty, Map.empty) \<Longrightarrow> registry_ok s k"
  by (auto simp: registry_ok_def sits_def intro!: reg_okI)

lemma registry_step_inv:
  assumes "storage_iteration iter" and "chain_iteration chain_iter"
    and "registry_step cfg cur bls iter chain_iter st st'" and "registry_inv st"
  shows "registry_inv st'"
  using assms(3,4)
proof (cases rule: registry_step.cases)
  case (epoch supported supp s e)
  then show ?thesis using assms(4) by (auto simp: registry_inv_def intro!: epoch_ok [OF assms(1,2)])
next
  case (force supp e origin k s s')
  then show ?thesis using elect_ok [OF assms(1), of s k _ e] assms(4)
    by (auto simp: registry_inv_def force_election_def split: if_splits)
next
  case (new_chain s' k supp s)
  then show ?thesis using registry_ok_empty [of s' k] registry_ok_view [of s' _ s] assms(4)
    by (auto simp: registry_inv_def)
next
  case (elsewhere supp' supp s' s)
  then show ?thesis using registry_ok_view [of s' _ s] assms(4) by (fastforce simp: registry_inv_def)
qed (use assms(4) in \<open>auto simp: registry_inv_def register_attestor_def unregister_attestor_def attest_def
    split: Origin.splits intro: try_insert_ok remove_attestor_ok start_attesting_ok chill_ok kick_ok withdraw_ok\<close>)

lemma registry_genesis_inv: "registry_genesis st \<Longrightarrow> registry_inv st"
  by (simp add: registry_genesis_def registry_inv_def registry_ok_empty)

interpretation registry_sys: invariant_system registry_genesis
  "\<lambda>st st'. storage_iteration iter \<and> chain_iteration chain_iter \<and> registry_step cfg cur bls iter chain_iter st st'"
  registry_inv for iter chain_iter cfg cur bls
  by unfold_locales (blast intro: registry_genesis_inv registry_step_inv)+

lemma reachable_registry_ok:
  assumes "storage_iteration iter" and "chain_iteration chain_iter" and "registry_genesis st0"
    and "(registry_step cfg cur bls iter chain_iter)\<^sup>*\<^sup>* st0 st" and "fst st k"
  shows "registry_ok (snd st) k"
proof -
  have "registry_inv st"
    by (rule registry_sys.reachable_inv [where iter = iter and chain_iter = chain_iter and cfg = cfg and
          cur = cur and bls = bls, OF assms(3)]) (use assms(1,2,4) in simp)
  with assms(5) show ?thesis by (simp add: registry_inv_def)
qed

section \<open>An example run\<close>

text \<open>The storage at genesis, and a currency that keeps a table of locks over a fixed balance.\<close>

definition registry_default :: "'c \<Rightarrow> 'c RegistryState" where
  "registry_default c =
    LedgerState.extend (ParamsState.extend params_default (LedgerState.fields Map.empty c))
      (RegistryState.fields (\<lambda>_. Map.empty) Map.empty Map.empty (\<lambda>_. Map.empty) Map.empty
        (\<lambda>_. Map.empty) (\<lambda>_. Map.empty) (\<lambda>_ _. False) (\<lambda>_. Map.empty))"

lemma registry_default_simps [simp]:
  "Attestors (registry_default c) = (\<lambda>_. Map.empty)" "AttestorsCount (registry_default c) = Map.empty"
  "ActiveAttestors (registry_default c) = Map.empty"
  "RetiredAttestorBlsKeys (registry_default c) = (\<lambda>_. Map.empty)"
  "RetiredAttestorKeysByStash (registry_default c) = Map.empty"
  "BlsKeyOwner (registry_default c) = (\<lambda>_. Map.empty)" "Invulnerables (registry_default c) = (\<lambda>_. Map.empty)"
  "AuthorizedAttestors (registry_default c) = (\<lambda>_ _. False)"
  "AttestorCollateral (registry_default c) = (\<lambda>_. Map.empty)"
  "Ledger (registry_default c) = Map.empty" "balances (registry_default c) = c"
  "MaxAttestors (registry_default c) = Map.empty" "MinBondRequirement (registry_default c) = Map.empty"
  "ChainElectionPolicy (registry_default c) = Map.empty"
  by (simp_all add: registry_default_def LedgerState.defs ParamsState.defs RegistryState.defs params_default_def)

lemma registry_default_genesis: "registry_genesis (supp, registry_default c)"
  by (simp add: registry_genesis_def registry_view_def counts)

type_synonym lock_table = "AccountId \<Rightarrow> (LockIdentifier \<times> Balance) list"

definition table_currency :: "lock_table Currency" where
  "table_currency = \<lparr>minimum_balance = 1, free_balance = (\<lambda>_ _. 10 ^ 30), locks = (\<lambda>c a. AList.clearjunk (c a)),
     set_lock = (\<lambda>i a v c. if v = 0 then c else c(a := AList.update i v (c a))),
     remove_lock = (\<lambda>i a c. c(a := AList.delete i (c a))), transfer_keep_alive = (\<lambda>_ _ _ c. Inr c),
     inc_consumers = (\<lambda>_ c. Inr c), dec_consumers = (\<lambda>_ c. c)\<rparr>"

definition accepting_bls :: "(BlsPublicKey, BlsSignature) Bls" where
  "accepting_bls = \<lparr>pk_from_bytes = Some, pk_as_bytes = (\<lambda>_. []), sig_from_bytes = Some,
     verify_single = (\<lambda>_ _ _. True), aggregate_public_keys = (\<lambda>_. None), verify_agg_message = (\<lambda>_ _ _. True)\<rparr>"

definition example_registered :: "lock_table RegistryState" where
  "example_registered = commit (registry_default (\<lambda>_. []))
     (register_attestor example_pallet_config table_currency (\<lambda>_. True) (Signed 1) 7 2 (registry_default (\<lambda>_. [])))"

definition example_attesting :: "lock_table RegistryState" where
  "example_attesting = commit example_registered
     (attest accepting_bls (\<lambda>_. True) (Signed 2) 7 99 5 example_registered)"

lemma commit_register_step:
  "registry_step cfg cur bls iter chain_iter (supp, s) (supp, commit s (register_attestor cfg cur supp origin k a s))"
  by (cases "register_attestor cfg cur supp origin k a s")
    (auto intro: registry_step.elsewhere registry_step.register)

lemma commit_attest_step:
  "registry_step cfg cur bls iter chain_iter (supp, s) (supp, commit s (attest bls supp origin k key pop s))"
  by (cases "attest bls supp origin k key pop s") (auto intro: registry_step.elsewhere registry_step.attest)

interpretation account_order: storage_iteration "sorted_list_of_set :: AccountId set \<Rightarrow> AccountId list"
  by unfold_locales simp_all

lemma example_attesting_reachable:
  "(registry_step example_pallet_config table_currency accepting_bls sorted_list_of_set sorted_list_of_set)\<^sup>*\<^sup>*
     (\<lambda>_. True, registry_default (\<lambda>_. [])) (\<lambda>_. True, example_attesting)"
  unfolding example_attesting_def example_registered_def
  by (rule rtranclp.rtrancl_into_rtrancl [OF r_into_rtranclp]; rule commit_register_step commit_attest_step)

lemma example_registered_attestor:
  "Attestors example_registered 7 = [2 \<mapsto> \<lparr>bls_public_key = None, status = Idle, stash = 1\<rparr>] \<and>
   BlsKeyOwner example_registered = (\<lambda>_. Map.empty)"
  by (simp add: example_registered_def register_attestor_def try_insert_attestor_and_emit_event_def
      chain_election_policy_def attestor_is_registered_def clear_retired_bls_entry_for_controller_def
      attestor_list_has_space_def attestors_count_def max_attestors_def example_pallet_config_def
      min_bond_requirement_def get_free_balance_def get_locked_balance_def table_currency_def
      ONE_TENTH_CTC_def ledger_bond_def ledger_new_def ledger_update_def Let_def dmap_set_def
      saturating_add_def saturating_sub_def)

lemma example_attesting_attestor:
  "Attestors example_attesting 7 2 = Some \<lparr>bls_public_key = Some 99, status = Waiting, stash = 1\<rparr>"
  using example_registered_attestor
  by (simp add: example_attesting_def attest_def start_attesting_def accepting_bls_def Let_def)

section \<open>Properties\<close>

text \<open>C11: In every state reachable from genesis, for every chain that is supported, the attestor
  counter is the number of registered attestors, the active set lists without repetition exactly
  the attestors that are active or leaving, every attestor past \<open>Idle\<close> has a BLS key, no
  registered attestor is also retired, and every key of a registered or retired attestor is owned
  by it.\<close>

theorem registry_invariant:
  assumes "storage_iteration iter" and "chain_iteration chain_iter" and "registry_genesis st0"
    and "(registry_step cfg cur bls iter chain_iter)\<^sup>*\<^sup>* st0 st" and "fst st k"
  shows "registry_ok (snd st) k"
  using assms by (rule reachable_registry_ok)

theorem registry_invariant_witness: "registry_ok example_attesting 7"
  using registry_invariant [OF account_order.storage_iteration_axioms chain_key_order.chain_iteration_axioms
      registry_default_genesis example_attesting_reachable, of 7]
  by simp

text \<open>C12: A BLS key held by a registered or a retired attestor of a supported chain is held by no
  other account, and no other account can claim it: every call of \<open>attest\<close> with it by another
  account fails, whatever proof of possession it brings.\<close>

theorem bls_key_not_shared:
  assumes "storage_iteration iter" and "chain_iteration chain_iter" and "registry_genesis st0"
    and "(registry_step cfg cur bls iter chain_iter)\<^sup>*\<^sup>* st0 st" and "fst st k"
    and "holds_key (Attestors (snd st) k) (RetiredAttestorBlsKeys (snd st) k) a key" and "b \<noteq> a"
  shows "\<not> holds_key (Attestors (snd st) k) (RetiredAttestorBlsKeys (snd st) k) b key \<and>
    (\<forall>pop s'. attest bls (fst st) (Signed b) k key pop (snd st) \<noteq> Inr s')"
proof -
  have "registry_ok (snd st) k" using assms(1-5) by (rule reachable_registry_ok)
  then have own: "holds_key (Attestors (snd st) k) (RetiredAttestorBlsKeys (snd st) k) c key \<Longrightarrow>
      BlsKeyOwner (snd st) k key = Some c" for c
    by (simp add: registry_ok_alt reg_ok_def)
  from own [OF assms(6)] have "attest bls (fst st) (Signed b) k key pop (snd st) \<noteq> Inr s'" for pop s'
    using assms(7) by (auto simp: attest_def start_attesting_def split: option.splits if_splits)
  with own [OF assms(6)] own [of b] assms(7) show ?thesis by auto
qed

theorem bls_key_not_shared_witness:
  "\<forall>s'. attest accepting_bls (\<lambda>_. True) (Signed 3) 7 99 5 example_attesting \<noteq> Inr s'"
  using bls_key_not_shared [OF account_order.storage_iteration_axioms chain_key_order.chain_iteration_axioms
      registry_default_genesis example_attesting_reachable, of 7 2 99 3]
    example_attesting_attestor
  by (auto simp: holds_key_def)

text \<open>C16: An election turns a waiting attestor active exactly when the chain's policy admits it,
  turns a leaving one idle and leaves every other status and every other field alone; afterwards
  the active set holds exactly the attestors that were active before or were waiting and admitted,
  each once, in whatever order the storage enumerates the attestors.\<close>

theorem election_outcome:
  assumes "storage_iteration iter" and "registry_ok s k"
  shows "Attestors (elect_attestors_for_chain iter k epoch s) k =
      (\<lambda>a. map_option (elect_attestor (admits (chain_election_policy s k) (AuthorizedAttestors s k a))) (Attestors s k a)) \<and>
    distinct (active_attestor_set (elect_attestors_for_chain iter k epoch s) k) \<and>
    (is_attestor (elect_attestors_for_chain iter k epoch s) k a \<longleftrightarrow>
      (\<exists>x. Attestors s k a = Some x \<and> (status x = Active \<or>
        status x = Waiting \<and> admits (chain_election_policy s k) (AuthorizedAttestors s k a))))"
proof -
  have d: "distinct (active_attestor_set s k)"
    using assms(2) by (simp add: registry_ok_alt reg_ok_def)
  note f = elect_attestors_spec [where epoch = epoch, OF assms(1) d refl]
  have "elected_status adm st = Active \<longleftrightarrow> st = Active \<or> st = Waiting \<and> adm" for adm st
    by (cases st) (simp_all add: elected_status_def)
  then have "is_attestor (elect_attestors_for_chain iter k epoch s) k a \<longleftrightarrow>
      (\<exists>x. Attestors s k a = Some x \<and> (status x = Active \<or>
        status x = Waiting \<and> admits (chain_election_policy s k) (AuthorizedAttestors s k a)))"
    unfolding is_attestor_def f(3) f(1) by (auto simp: elect_attestor_def)
  then show ?thesis using f(1,2) by simp
qed

theorem election_outcome_witness:
  "is_attestor (elect_attestors_for_chain sorted_list_of_set 7 3 example_attesting) 7 2 \<longleftrightarrow>
     admits (chain_election_policy example_attesting 7) (AuthorizedAttestors example_attesting 7 2)"
proof -
  have "registry_ok example_attesting 7"
    using reachable_registry_ok [OF account_order.storage_iteration_axioms chain_key_order.chain_iteration_axioms
        registry_default_genesis example_attesting_reachable, of 7]
    by simp
  from election_outcome [OF account_order.storage_iteration_axioms this, of 3 2] example_attesting_attestor
  show ?thesis by simp
qed

section \<open>The ledgers\<close>

text \<open>The currency's contract for locks: an account holds at most one lock per identifier, setting
  a lock of a non-zero amount replaces it, setting a zero amount does nothing, and moving funds or
  changing reference counts leaves the locks alone.\<close>

locale lockable_currency =
  fixes cur :: "'c Currency"
  assumes distinct_locks: "distinct (map fst (locks cur c a))"
    and locks_set: "map_of (locks cur (set_lock cur i a v c) b) =
      (if b = a \<and> v \<noteq> 0 then (map_of (locks cur c b))(i \<mapsto> v) else map_of (locks cur c b))"
    and locks_remove: "map_of (locks cur (remove_lock cur i a c) b) =
      (if b = a then (map_of (locks cur c b))(i := None) else map_of (locks cur c b))"
    and locks_transfer: "transfer_keep_alive cur x y v c = Inr c' \<Longrightarrow> locks cur c' = locks cur c"
    and locks_inc: "inc_consumers cur x c = Inr c' \<Longrightarrow> locks cur c' = locks cur c"
    and locks_dec: "locks cur (dec_consumers cur x c) = locks cur c"
begin

lemma get_locked_balance_map_of:
  "get_locked_balance cur c a = (case map_of (locks cur c a) BOND_LOCK_ID of Some v \<Rightarrow> v | None \<Rightarrow> 0)"
proof -
  have "foldl (\<lambda>acc (i, amount). if i = BOND_LOCK_ID then acc + amount else acc) x ls =
      x + (case map_of ls BOND_LOCK_ID of Some v \<Rightarrow> v | None \<Rightarrow> 0)"
    if "distinct (map fst ls)" for x :: Balance and ls
    using that
  proof (induction ls arbitrary: x)
    case (Cons l ls)
    show ?case
    proof (cases "fst l = BOND_LOCK_ID")
      case True
      then have "map_of ls BOND_LOCK_ID = None" using Cons.prems by (auto simp: map_of_eq_None_iff)
      with True Cons.IH [of "x + snd l"] Cons.prems show ?thesis by (cases l) simp
    next
      case False
      with Cons.IH [of x] Cons.prems show ?thesis by (cases l) simp
    qed
  qed simp
  from this [OF distinct_locks, of 0 c a] show ?thesis by (simp add: get_locked_balance_def)
qed

lemma locked_simps:
  "get_locked_balance cur (set_lock cur BOND_LOCK_ID a v c) b =
    (if b = a \<and> v \<noteq> 0 then v else get_locked_balance cur c b)"
  "get_locked_balance cur (remove_lock cur BOND_LOCK_ID a c) b =
    (if b = a then 0 else get_locked_balance cur c b)"
  "get_locked_balance cur (dec_consumers cur x c) b = get_locked_balance cur c b"
  "transfer_keep_alive cur x y v c = Inr c' \<Longrightarrow> get_locked_balance cur c' b = get_locked_balance cur c b"
  "inc_consumers cur x c = Inr c' \<Longrightarrow> get_locked_balance cur c' b = get_locked_balance cur c b"
  by (simp_all add: get_locked_balance_map_of locks_set locks_remove locks_dec locks_transfer locks_inc)

end

interpretation table: lockable_currency table_currency
  by unfold_locales
    (auto simp: table_currency_def AList.update_conv' AList.delete_conv' map_of_clearjunk distinct_clearjunk)

text \<open>A ledger is backed when its total is its active amount plus its chunks, no chunk is empty,
  and the lock on the account is the total; an account without a ledger has no lock.\<close>

definition ledger_good :: "AccountId \<Rightarrow> AttestorLedger \<Rightarrow> bool" where
  "ledger_good st l \<longleftrightarrow> ledger_ok l \<and> ledger_stash l = st \<and> (\<forall>c\<in>set (unlocking l). uc_value c \<noteq> 0)"

definition backed :: "'c Currency \<Rightarrow> ('c, 'z) LedgerState_scheme \<Rightarrow> bool" where
  "backed cur s \<longleftrightarrow> (\<forall>st. case Ledger s st of
       None \<Rightarrow> get_locked_balance cur (balances s) st = 0
     | Some l \<Rightarrow> ledger_good st l \<and> get_locked_balance cur (balances s) st = total_staked l)"

lemma backedD:
  "backed cur s \<Longrightarrow> Ledger s st = Some l \<Longrightarrow> ledger_good st l \<and> get_locked_balance cur (balances s) st = total_staked l"
  "backed cur s \<Longrightarrow> Ledger s st = None \<Longrightarrow> get_locked_balance cur (balances s) st = 0"
  by (auto simp: backed_def split: option.splits dest: spec [of _ st])

lemma backed_same:
  assumes "backed cur s" and "Ledger s' = Ledger s"
    and "\<And>st. get_locked_balance cur (balances s') st = get_locked_balance cur (balances s) st"
  shows "backed cur s'"
  using assms(1) unfolding backed_def assms(2,3) .

lemma backed_upd:
  assumes "backed cur s" and "Ledger s' = (Ledger s)(a := x)"
    and "\<And>b. b \<noteq> a \<Longrightarrow> get_locked_balance cur (balances s') b = get_locked_balance cur (balances s) b"
    and "case x of None \<Rightarrow> get_locked_balance cur (balances s') a = 0
      | Some l \<Rightarrow> ledger_good a l \<and> get_locked_balance cur (balances s') a = total_staked l"
  shows "backed cur s'"
  unfolding backed_def
proof
  fix b
  show "case Ledger s' b of None \<Rightarrow> get_locked_balance cur (balances s') b = 0
    | Some l \<Rightarrow> ledger_good b l \<and> get_locked_balance cur (balances s') b = total_staked l"
    using backedD [OF assms(1), of b] assms(2-4)
    by (cases "b = a"; cases "Ledger s b") (auto split: option.splits)
qed

lemma total_zero:
  assumes "ledger_good st l" and "total_staked l = 0"
  shows "active l = 0" and "unlocking l = []"
proof -
  have z: "unat (active l) = 0" "sum_list (map (unat \<circ> uc_value) (unlocking l)) = 0"
    using assms by (simp_all add: ledger_good_def ledger_ok_def)
  then show "active l = 0" by (simp add: unat_eq_0)
  show "unlocking l = []"
  proof (rule ccontr)
    assume "unlocking l \<noteq> []"
    then obtain c where "c \<in> set (unlocking l)" by (meson last_in_set)
    with z(2) assms(1) show False by (auto simp: ledger_good_def sum_list_eq_0_iff unat_eq_0)
  qed
qed

lemma push_chunk_nonzero:
  assumes "push_chunk limit v era cs = Some cs'" and "\<forall>c\<in>set cs. uc_value c \<noteq> 0" and "v \<noteq> 0"
  shows "\<forall>c\<in>set cs'. uc_value c \<noteq> 0"
proof -
  have "saturating_add x v \<noteq> 0" for x
  proof -
    have "unat v > 0" using assms(3) by (simp add: unat_gt_0)
    then have "unat (saturating_add x v) > 0" by (simp add: unat_saturating_add)
    then show ?thesis by auto
  qed
  with assms show ?thesis
    by (auto simp: push_chunk_def split: if_splits dest!: in_set_butlastD)
qed

context lockable_currency
begin

lemma update_backed:
  assumes "ledger_update cur l s = Inr s'" and "backed cur s" and "ledger_good (ledger_stash l) l"
    and "total_staked l = 0 \<Longrightarrow> get_locked_balance cur (balances s) (ledger_stash l) = 0"
  shows "backed cur s'"
proof -
  have s': "s' = s\<lparr>balances := set_lock cur BOND_LOCK_ID (ledger_stash l) (total_staked l) (balances s),
      Ledger := (Ledger s)(ledger_stash l \<mapsto> l)\<rparr>"
    using assms(1) by (simp add: ledger_update_def split: if_splits)
  show ?thesis
    by (rule backed_upd [OF assms(2), where a = "ledger_stash l" and x = "Some l"])
      (use assms(3,4) in \<open>simp_all add: s' locked_simps\<close>)
qed

lemma bond_backed:
  assumes "ledger_bond cur (ledger_new st v) s = Inr s'" and "backed cur s"
  shows "backed cur s'"
proof -
  let ?l = "ledger_new st v"
  have none: "Ledger s st = None" and s': "s' = s\<lparr>balances := set_lock cur BOND_LOCK_ID st v (balances s),
      Ledger := (Ledger s)(st \<mapsto> ?l)\<rparr>"
    using assms(1) by (auto simp: ledger_bond_def ledger_update_def ledger_new_def split: if_splits)
  have g: "ledger_good st ?l" by (simp add: ledger_good_def ledger_ok_def ledger_new_def)
  have z: "get_locked_balance cur (balances s) st = 0" using backedD(2) [OF assms(2) none] .
  show ?thesis
    by (rule backed_upd [OF assms(2), where a = st and x = "Some ?l"])
      (use g z in \<open>simp_all add: s' locked_simps ledger_new_def\<close>)
qed

lemma bond_extra_backed:
  assumes "bond_extra cfg cur k st s = Inr s'" and "backed cur s"
  shows "backed cur s'"
proof -
  obtain l t a s1 where l: "Ledger s st = Some l" "checked_add (total_staked l) (min_bond_requirement cfg s k) = Some t"
      "checked_add (active l) (min_bond_requirement cfg s k) = Some a"
    and s1: "ledger_update cur (l\<lparr>total_staked := t, active := a\<rparr>) s = Inr s1"
    and s': "s' = deposit_event (Bonded st (min_bond_requirement cfg s k)) s1"
    using assms(1) by (auto simp: bond_extra_def Let_def split: option.splits if_splits sum.splits)
  note g = backedD(1) [OF assms(2) l(1)]
  have "unat t = unat (total_staked l) + unat (min_bond_requirement cfg s k)"
    "unat a = unat (active l) + unat (min_bond_requirement cfg s k)"
    using l(2,3) by (simp_all add: checked_add_Some)
  then have "backed cur s1"
    using g by (intro update_backed [OF s1 assms(2)])
      (auto simp: ledger_good_def ledger_ok_def unat_eq_0)
  then show ?thesis by (rule backed_same) (simp_all add: s')
qed

lemma unbond_backed:
  assumes "unbond cfg cur e p v st l s = Inr s'" and "backed cur s" and "Ledger s st = Some l"
    and "v \<le> active l" and "v \<noteq> 0"
  shows "backed cur s'"
proof -
  note g = conjunct1 [OF backedD(1) [OF assms(2,3)]]
  define full where "full \<longleftrightarrow> length (unlocking l) \<ge> unat (MaxUnlockingChunks cfg)"
  define l1 where "l1 = (if full then consolidate_unlocked e l else l)"
  define act where "act = active l1 - v"
  define v1 where "v1 = (if act < existential_deposit cur then v + act else v)"
  define a1 where "a1 = (if act < existential_deposit cur then 0 else act)"
  have ok: "ledger_ok l" using g by (simp add: ledger_good_def)
  have l1: "ledger_ok l1" "active l1 = active l" "ledger_stash l1 = st" "\<forall>c\<in>set (unlocking l1). uc_value c \<noteq> 0"
    using g consolidate_unlocked_fields [OF ok, of e] by (auto simp: l1_def ledger_good_def)
  have act: "unat act = unat (active l) - unat v" "unat v \<le> unat (active l)"
    using assms(4) by (simp_all add: act_def l1 unat_sub word_le_nat_alt)
  have va: "v + act = active l" by (simp add: act_def l1)
  have sum: "unat a1 + unat v1 = unat (active l)"
    using act by (auto simp: a1_def v1_def va)
  have nz: "v1 \<noteq> 0" using assms(4,5) by (auto simp: v1_def va word_le_nat_alt unat_eq_0)
  define s1 where "s1 = (if full \<and> saturating_sub (total_staked l) (total_staked l1) \<noteq> 0
    then deposit_event (Withdrawn st (saturating_sub (total_staked l) (total_staked l1))) s else s)"
  have s1: "Ledger s1 = Ledger s" "balances s1 = balances s" by (simp_all add: s1_def)
  have eq: "unbond cfg cur e p v st l s =
    (case push_chunk (MaxUnlockingChunks cfg) v1 p (unlocking l1) of None \<Rightarrow> Inl NoMoreChunks
     | Some cs \<Rightarrow> (case ledger_update cur (l1\<lparr>active := a1, unlocking := cs\<rparr>) s1 of
          Inl er \<Rightarrow> Inl er | Inr s2 \<Rightarrow> Inr (deposit_event (Unbonded st v1) s2)))"
    unfolding unbond_def Let_def s1_def v1_def a1_def act_def l1_def full_def by (rule refl)
  obtain cs s2 where cs: "push_chunk (MaxUnlockingChunks cfg) v1 p (unlocking l1) = Some cs"
    and s2: "ledger_update cur (l1\<lparr>active := a1, unlocking := cs\<rparr>) s1 = Inr s2"
    and s': "s' = deposit_event (Unbonded st v1) s2"
    using assms(1) unfolding eq by (auto split: option.splits sum.splits)
  have tot: "unat (total_staked l1) = unat (active l) + sum_list (map (unat \<circ> uc_value) (unlocking l1))"
    using l1 by (simp add: ledger_ok_def)
  have "sum_list (map (unat \<circ> uc_value) (unlocking l1)) + unat v1 < 2 ^ 128"
    using tot sum unat_less_2p [of "total_staked l1"] by simp
  note ps = push_chunk_sum [OF cs this]
  have ok2: "ledger_ok (l1\<lparr>active := a1, unlocking := cs\<rparr>)"
    using ps tot sum by (simp add: ledger_ok_def)
  have "backed cur s1" using assms(2) by (rule backed_same) (simp_all add: s1)
  then have "backed cur s2"
  proof (rule update_backed [OF s2])
    show "ledger_good (ledger_stash (l1\<lparr>active := a1, unlocking := cs\<rparr>)) (l1\<lparr>active := a1, unlocking := cs\<rparr>)"
      using ok2 push_chunk_nonzero [OF cs l1(4) nz] by (simp add: ledger_good_def)
    assume "total_staked (l1\<lparr>active := a1, unlocking := cs\<rparr>) = 0"
    then have "unat (active l) = 0" using tot by simp
    with assms(4,5) show "get_locked_balance cur (balances s1) (ledger_stash (l1\<lparr>active := a1, unlocking := cs\<rparr>)) = 0"
      by (simp add: unat_eq_0 word_le_nat_alt)
  qed
  then show ?thesis by (rule backed_same) (simp_all add: s')
qed

end

lemma release_ledger [simp]:
  "Ledger (release_bls_key k a key s) = Ledger s" "balances (release_bls_key k a key s) = balances s"
  by (simp_all add: release_bls_key_def)

lemma purge_loop_ledger:
  "purge_loop st era pairs kept s = (kept', s') \<Longrightarrow> Ledger s' = Ledger s \<and> balances s' = balances s"
  by (induction st era pairs kept s rule: purge_loop.induct)
    (auto simp: Let_def split: option.splits if_splits)

lemma purge_ledger [simp]:
  "Ledger (purge_retired_bls_keys_for_stash st era s) = Ledger s"
  "balances (purge_retired_bls_keys_for_stash st era s) = balances s"
  by (auto simp: purge_retired_bls_keys_for_stash_def Let_def dest: purge_loop_ledger split: prod.splits)

lemma clear_retired_ledger:
  "clear_retired_bls_entry_for_controller k a st s = Inr s' \<Longrightarrow> Ledger s' = Ledger s \<and> balances s' = balances s"
  by (auto simp: clear_retired_bls_entry_for_controller_def remove_stash_retired_index_pair_def Let_def
      split: option.splits if_splits)

lemma chill_ledger [simp]:
  "Ledger (do_chill_attestor_immediate k a s) = Ledger s"
  "balances (do_chill_attestor_immediate k a s) = balances s"
  by (simp_all add: do_chill_attestor_immediate_def remove_active_attestor_from_set_def
      set_attestor_status_def Let_def split: option.splits)

text \<open>The stages of a withdrawal: consolidate, purge the retired keys, and kill or update the
  ledger.\<close>

definition withdrawn_ledger :: "EraIndex \<Rightarrow> AttestorLedger \<Rightarrow> AttestorLedger" where
  "withdrawn_ledger era l = (if era > 0 then consolidate_unlocked era l else l)"

definition emptied :: "'c Currency \<Rightarrow> AttestorLedger \<Rightarrow> bool" where
  "emptied cur l \<longleftrightarrow> unlocking l = [] \<and> (active l < minimum_balance cur \<or> active l = 0)"

lemma withdraw_eq:
  assumes "Ledger s who = Some l0" and l: "l = withdrawn_ledger era l0"
    and s1: "s1 = purge_retired_bls_keys_for_stash (ledger_stash l0) era s"
  shows "do_withdraw_unbonded cur era who s =
    (case if emptied cur l then kill_stash cur (ledger_stash l) s1 else ledger_update cur l s1 of
       Inl e \<Rightarrow> Inl (Module e)
     | Inr s2 \<Rightarrow> Inr (if total_staked l < total_staked l0 then deposit_event (Withdrawn (ledger_stash l0)
            (saturating_sub (total_staked l0) (total_staked l))) s2 else s2))"
  unfolding do_withdraw_unbonded_def l s1 withdrawn_ledger_def emptied_def assms(1) option.case Let_def
  by (rule refl)

context lockable_currency
begin

lemma try_insert_backed:
  assumes "try_insert_attestor_and_emit_event cfg cur supp k st a s = Inr s'" and "backed cur s"
  shows "backed cur s'"
proof -
  obtain s1 where s1: "clear_retired_bls_entry_for_controller k a st s = Inr s1"
    using assms(1) by (auto simp: try_insert_attestor_and_emit_event_def split: if_splits sum.splits)
  define s2 where "s2 = s1\<lparr>Attestors := dmap_set k a
        (Some \<lparr>bls_public_key = None, status = Idle, stash = st\<rparr>) (Attestors s1),
      AttestorsCount := (AttestorsCount s1)(k \<mapsto> saturating_add (attestors_count s1 k) 1)\<rparr>"
  define m where "m = min_bond_requirement cfg s2 k"
  have b2: "backed cur s2"
    by (rule backed_same [OF assms(2)]) (simp_all add: s2_def clear_retired_ledger [OF s1])
  obtain c where c: "transfer_keep_alive cur st a ONE_TENTH_CTC (balances s2) = Inr c"
    and r: "(case (case ledger_bond cur (ledger_new st m) (s2\<lparr>balances := c\<rparr>) of
            Inl _ \<Rightarrow> bond_extra cfg cur k st (s2\<lparr>balances := c\<rparr>)
          | Inr s4 \<Rightarrow> (case inc_consumers cur st (balances s4) of
              Inl e \<Rightarrow> Inl (Other e)
            | Inr c' \<Rightarrow> Inr (deposit_event (Bonded st m) (s4\<lparr>balances := c'\<rparr>)))) of
          Inl e \<Rightarrow> Inl e
        | Inr s5 \<Rightarrow> Inr (deposit_event (AttestorRegistered k a)
            (s5\<lparr>AttestorCollateral := dmap_set k a (Some m) (AttestorCollateral s5)\<rparr>))) = Inr s'"
    using assms(1) unfolding try_insert_attestor_and_emit_event_def s1 Let_def
    by (auto simp: s2_def m_def split: if_splits sum.split_asm)
  have b3: "backed cur (s2\<lparr>balances := c\<rparr>)"
    by (rule backed_same [OF b2]) (simp_all add: locked_simps(4) [OF c])
  show ?thesis
  proof (cases "ledger_bond cur (ledger_new st m) (s2\<lparr>balances := c\<rparr>)")
    case (Inl e)
    with r obtain s5 where s5: "bond_extra cfg cur k st (s2\<lparr>balances := c\<rparr>) = Inr s5"
      and s': "Ledger s' = Ledger s5" "balances s' = balances s5"
      by (auto split: sum.splits)
    show ?thesis by (rule backed_same [OF bond_extra_backed [OF s5 b3]]) (simp_all add: s')
  next
    case (Inr s4)
    with r obtain c' where c': "inc_consumers cur st (balances s4) = Inr c'"
      and s': "Ledger s' = Ledger s4" "balances s' = c'"
      by (auto split: sum.splits)
    show ?thesis
      by (rule backed_same [OF bond_backed [OF Inr b3]]) (simp_all add: s' locked_simps(5) [OF c'])
  qed
qed

lemma settle_bond_backed:
  assumes "settle_bond cfg cur era p k st a s = Inr s'" and "backed cur s"
  shows "backed cur s'"
proof -
  let ?s0 = "s\<lparr>AttestorCollateral := dmap_set k a None (AttestorCollateral s)\<rparr>"
  have b0: "backed cur ?s0" by (rule backed_same [OF assms(2)]) simp_all
  obtain l b where l: "Ledger ?s0 st = Some l"
    and v: "(if min b (active l) \<noteq> 0 then unbond cfg cur era p (min b (active l)) st l ?s0 else Inr ?s0) = Inr s'"
    using assms(1) unfolding settle_bond_def Let_def by (auto split: option.split_asm)
  show ?thesis
  proof (cases "min b (active l) = 0")
    case True
    with v b0 show ?thesis by simp
  next
    case False
    with v have "unbond cfg cur era p (min b (active l)) st l ?s0 = Inr s'" by simp
    from unbond_backed [OF this b0 l _ False] show ?thesis by simp
  qed
qed

lemma remove_attestor_backed:
  assumes "remove_attestor_and_emit_event cfg cur era k st a s = Inr s'" and "backed cur s"
  shows "backed cur s'"
proof -
  obtain p key s1 s2 where s1: "settle_bond cfg cur era p k st a s = Inr s1"
    and s2: "retire_key p k st a key s1 = Inr s2"
    and s': "s' = deposit_event (AttestorUnregistered k a) (drop_row k a s2)"
    using assms(1) by (auto simp: remove_attestor_and_emit_event_def Let_def split: option.splits if_splits sum.splits)
  have f: "Ledger s2 = Ledger s1" "balances s2 = balances s1"
    using s2 by (auto simp: retire_key_def Let_def split: option.splits if_splits)
  show ?thesis
    by (rule backed_same [OF settle_bond_backed [OF s1 assms(2)]])
      (simp_all add: s' drop_row_def remove_active_attestor_from_set_def Let_def f)
qed

lemma kick_backed:
  assumes "kick_active_attestor cfg cur era origin k a u s = Inr s'" and "backed cur s"
  shows "backed cur s'"
proof -
  have "backed cur (do_chill_attestor_immediate k a s)"
    by (rule backed_same [OF assms(2)]) simp_all
  with assms(1) show ?thesis
    by (auto simp: kick_active_attestor_def Let_def split: option.splits if_splits intro: remove_attestor_backed)
qed

lemma withdraw_stages:
  assumes "backed cur s" and "Ledger s who = Some l0"
  shows "\<exists>s'. do_withdraw_unbonded cur era who s = Inr s' \<and> backed cur s' \<and>
    Ledger s' = (Ledger s)(who := (if emptied cur (withdrawn_ledger era l0) then None else Some (withdrawn_ledger era l0)))"
proof -
  define l where "l = withdrawn_ledger era l0"
  define s1 where "s1 = purge_retired_bls_keys_for_stash (ledger_stash l0) era s"
  note g0 = conjunct1 [OF backedD(1) [OF assms]]
  have g: "ledger_good who l"
    using g0 consolidate_unlocked_fields [of l0 era] by (auto simp: l_def withdrawn_ledger_def ledger_good_def)
  then have st: "ledger_stash l = who" by (simp add: ledger_good_def)
  have b1: "backed cur s1" by (rule backed_same [OF assms(1)]) (simp_all add: s1_def)
  have here: "Ledger s1 who = Some l0" using assms(2) by (simp add: s1_def)
  have "\<exists>s2. (if emptied cur l then kill_stash cur (ledger_stash l) s1 else ledger_update cur l s1) = Inr s2 \<and>
      backed cur s2 \<and> Ledger s2 = (Ledger s1)(who := (if emptied cur l then None else Some l))"
  proof (cases "emptied cur l")
    case True
    obtain s2 where s2: "kill_stash cur who s1 = Inr s2" and k: "Ledger s2 = (Ledger s1)(who := None)"
      "balances s2 = dec_consumers cur who (remove_lock cur BOND_LOCK_ID who (balances s1))"
      using here by (simp add: kill_stash_def ledger_kill_def)
    have "backed cur s2" by (rule backed_upd [OF b1 k(1)]) (simp_all add: k(2) locked_simps)
    with True s2 k st show ?thesis by simp
  next
    case False
    obtain s2 where u: "ledger_update cur l s1 = Inr s2" and k: "Ledger s2 = (Ledger s1)(who \<mapsto> l)"
      using here by (simp add: ledger_update_def st)
    have "backed cur s2"
      by (rule update_backed [OF u b1]) (use g st False total_zero [OF g] in \<open>auto simp: emptied_def\<close>)
    with False u k show ?thesis by simp
  qed
  then obtain s2 where s2: "(if emptied cur l then kill_stash cur (ledger_stash l) s1 else ledger_update cur l s1) = Inr s2"
      "backed cur s2" "Ledger s2 = (Ledger s1)(who := (if emptied cur l then None else Some l))" by blast
  let ?s = "if total_staked l < total_staked l0 then deposit_event (Withdrawn (ledger_stash l0)
        (saturating_sub (total_staked l0) (total_staked l))) s2 else s2"
  have "do_withdraw_unbonded cur era who s = Inr ?s"
    unfolding withdraw_eq [OF assms(2) l_def s1_def] s2(1) by simp
  moreover have "backed cur ?s" by (rule backed_same [OF s2(2)]) simp_all
  moreover have "Ledger ?s = (Ledger s)(who := (if emptied cur l then None else Some l))"
    using s2(3) by (simp add: s1_def)
  ultimately show ?thesis unfolding l_def by blast
qed

lemma withdraw_backed:
  assumes "do_withdraw_unbonded cur era who s = Inr s'" and "backed cur s"
  shows "backed cur s'"
proof -
  obtain l where "Ledger s who = Some l"
    using assms(1) by (auto simp: do_withdraw_unbonded_def split: option.splits)
  from withdraw_stages [OF assms(2) this, of era] assms(1) show ?thesis by auto
qed

end

section \<open>Reachable ledgers\<close>

inductive ledger_step ::
  "PalletConfig \<Rightarrow> 'c Currency \<Rightarrow> ('c, 'z) RegistryState_scheme \<Rightarrow> ('c, 'z) RegistryState_scheme \<Rightarrow> bool"
  for cfg cur where
  register: "register_attestor cfg cur supp origin k a s = Inr s' \<Longrightarrow> ledger_step cfg cur s s'"
| unregister: "unregister_attestor cfg cur era origin k a s = Inr s' \<Longrightarrow> ledger_step cfg cur s s'"
| kick: "kick_active_attestor cfg cur era origin k a u s = Inr s' \<Longrightarrow> ledger_step cfg cur s s'"
| withdraw: "withdraw_unbonded cur era origin s = Inr s' \<Longrightarrow> ledger_step cfg cur s s'"
| elsewhere: "Ledger s' = Ledger s \<Longrightarrow>
    (\<And>a. get_locked_balance cur (balances s') a = get_locked_balance cur (balances s) a) \<Longrightarrow> ledger_step cfg cur s s'"

lemma ledger_step_backed:
  assumes "lockable_currency cur" and "ledger_step cfg cur s s'" and "backed cur s"
  shows "backed cur s'"
  using assms(2,3)
  by (cases rule: ledger_step.cases)
    (auto simp: register_attestor_def unregister_attestor_def withdraw_unbonded_def split: Origin.splits
      intro: lockable_currency.try_insert_backed [OF assms(1)] lockable_currency.remove_attestor_backed [OF assms(1)]
        lockable_currency.kick_backed [OF assms(1)] lockable_currency.withdraw_backed [OF assms(1)] backed_same)

interpretation ledger_sys: invariant_system
  "\<lambda>s. Ledger s = Map.empty \<and> (\<forall>a. get_locked_balance cur (balances s) a = 0)"
  "\<lambda>s s'. lockable_currency cur \<and> ledger_step cfg cur s s'" "backed cur" for cur cfg
  by unfold_locales (simp add: backed_def, blast intro: ledger_step_backed)

text \<open>C14: In every state reachable from genesis, the total of every ledger is its active amount
  plus all its unlocking chunks, computed without overflow, and the amount locked on every account
  by this pallet is exactly the total of its ledger, or nothing when it has none.\<close>

theorem ledgers_backed_by_locks:
  assumes "lockable_currency cur" and "Ledger s0 = Map.empty"
    and "\<forall>a. get_locked_balance cur (balances s0) a = 0" and "(ledger_step cfg cur)\<^sup>*\<^sup>* s0 s"
  shows "case Ledger s st of None \<Rightarrow> get_locked_balance cur (balances s) st = 0
    | Some l \<Rightarrow> unat (total_staked l) = unat (active l) + sum_list (map (unat \<circ> uc_value) (unlocking l)) \<and>
        get_locked_balance cur (balances s) st = total_staked l"
proof -
  have "backed cur s"
    by (rule ledger_sys.reachable_inv [where cfg = cfg]) (use assms in auto)
  from backedD [OF this, of st] show ?thesis
    by (auto simp: ledger_good_def ledger_ok_def split: option.splits)
qed

theorem ledgers_backed_by_locks_witness:
  "case Ledger example_registered 1 of None \<Rightarrow> get_locked_balance table_currency (balances example_registered) 1 = 0
    | Some l \<Rightarrow> unat (total_staked l) = unat (active l) + sum_list (map (unat \<circ> uc_value) (unlocking l)) \<and>
        get_locked_balance table_currency (balances example_registered) 1 = total_staked l"
proof -
  have "ledger_step example_pallet_config table_currency (registry_default (\<lambda>_. [])) example_registered"
    unfolding example_registered_def
    by (cases "register_attestor example_pallet_config table_currency (\<lambda>_. True) (Signed 1) 7 2 (registry_default (\<lambda>_. []))")
      (auto intro: ledger_step.elsewhere ledger_step.register)
  then show ?thesis
    using ledgers_backed_by_locks [OF table.lockable_currency_axioms, of "registry_default (\<lambda>_. [])"
        example_pallet_config example_registered 1]
    by (simp add: get_locked_balance_def table_currency_def r_into_rtranclp)
qed

text \<open>A withdrawal by an account with a ledger always succeeds.  It drops exactly the chunks
  whose era has come and unlocks exactly their sum; the active amount stays, unless nothing is left
  unlocking and it is below the existential deposit, in which case the ledger and the lock are
  removed.\<close>

theorem withdraw_releases_matured:
  assumes "lockable_currency cur" and "backed cur s" and "Ledger s who = Some l" and "0 < era"
  shows "\<exists>s'. withdraw_unbonded cur era (Signed who) s = Inr s' \<and>
    (if filter (\<lambda>c. uc_era c > era) (unlocking l) = [] \<and> (active l < minimum_balance cur \<or> active l = 0)
     then Ledger s' who = None \<and> get_locked_balance cur (balances s') who = 0
     else (\<exists>l'. Ledger s' who = Some l' \<and> active l' = active l \<and>
       unlocking l' = filter (\<lambda>c. uc_era c > era) (unlocking l)) \<and>
       unat (get_locked_balance cur (balances s') who) +
         sum_list (map (unat \<circ> uc_value) (filter (\<lambda>c. \<not> uc_era c > era) (unlocking l))) =
       unat (get_locked_balance cur (balances s) who))"
proof -
  note b = backedD(1) [OF assms(2,3)]
  have ok: "ledger_ok l" using b by (simp add: ledger_good_def)
  note f = consolidate_unlocked_fields [OF ok, of era]
  have l': "withdrawn_ledger era l = consolidate_unlocked era l" using assms(4) by (simp add: withdrawn_ledger_def)
  obtain s' where s': "do_withdraw_unbonded cur era who s = Inr s'" "backed cur s'"
    "Ledger s' = (Ledger s)(who := (if emptied cur (withdrawn_ledger era l) then None else Some (withdrawn_ledger era l)))"
    using lockable_currency.withdraw_stages [OF assms(1-3), of era] by blast
  show ?thesis
    using s'(1) b f backedD [OF s'(2), of who] by (auto simp: withdraw_unbonded_def s'(3) l' emptied_def)
qed

theorem withdraw_releases_matured_witness:
  "\<exists>s'. withdraw_unbonded table_currency 5 (Signed 1) ((registry_default (\<lambda>_. []))\<lparr>Ledger := [1 \<mapsto> ledger_new 1 0]\<rparr>) = Inr s' \<and>
    Ledger s' 1 = None"
proof -
  let ?s = "(registry_default (\<lambda>_. []))\<lparr>Ledger := [1 \<mapsto> ledger_new 1 0]\<rparr>"
  have "backed table_currency ?s"
    by (auto simp: backed_def ledger_good_def ledger_ok_def ledger_new_def get_locked_balance_def table_currency_def)
  from withdraw_releases_matured [OF table.lockable_currency_axioms this, of 1 "ledger_new 1 0" 5]
  show ?thesis by (auto simp: ledger_new_def table_currency_def)
qed

end
