(* ===== verification/Attestations.thy ===== *)
theory Attestations
  imports RegistryInv
begin

text \<open>Committing attestations: the attestation and checkpoint storage of the attestation pallet,
  the validation of a signed attestation (\<open>impls.rs\<close> and \<open>continuity.rs\<close>), and the creation of
  checkpoints from the queue of attestations and from a continuity proof.

  Keccak-256, the BLS library and the block number are parameters, and so is the width of
  \<open>usize\<close>, which is 32 bits in the runtime and 64 in a native build.  The loop that creates
  checkpoints at every boundary stops only because its target advances, so it is a partial
  function: \<open>None\<close> is a call that does not return.\<close>

section \<open>State\<close>

datatype RemovedChainCleanupPhase = ChillAttestors "bytes option" | RetiredKeys | BlsKeyOwners | InvulnerableRows

record CheckpointPruningState =
  stop_height :: u64
  next_pivot :: u64

record 'c StoreState = "'c RegistryState" +
  Attestations :: "ChainKey \<Rightarrow> Digest \<rightharpoonup> SignedAttestation"
  Checkpoints :: "ChainKey \<Rightarrow> u64 \<rightharpoonup> Digest"
  CheckpointBuckets :: "(ChainKey \<times> u64 \<times> u64) set"
  LastCheckpoint :: "ChainKey \<rightharpoonup> AttestationCheckpoint"
  CheckpointingQueues :: "ChainKey \<rightharpoonup> Digest list"
  AttestationsInBlock :: "ChainKey \<rightharpoonup> u32 \<times> u32"
  LastDigest :: "ChainKey \<rightharpoonup> u64 \<times> Digest"
  AttestationRemovalQueues :: "ChainKey \<rightharpoonup> Digest list"
  CheckpointClearingCursors :: "ChainKey \<rightharpoonup> bytes"
  BucketClearingCursors :: "ChainKey \<rightharpoonup> bytes"
  AttestationClearingCursors :: "ChainKey \<rightharpoonup> bytes"
  RemovedChainCleanup :: "ChainKey \<rightharpoonup> RemovedChainCleanupPhase"
  CheckpointPruningStates :: "ChainKey \<rightharpoonup> CheckpointPruningState"

section \<open>Queries\<close>

definition compute_block_index_for :: "u64 \<Rightarrow> u64" where
  "compute_block_index_for n = n - n mod CHECKPOINT_BUCKET_SIZE"

definition checkpointing_queue :: "('c, 'z) StoreState_scheme \<Rightarrow> ChainKey \<Rightarrow> Digest list" where
  "checkpointing_queue s = map_get [] (CheckpointingQueues s)"

definition attestation_removal_queue :: "('c, 'z) StoreState_scheme \<Rightarrow> ChainKey \<Rightarrow> Digest list" where
  "attestation_removal_queue s = map_get [] (AttestationRemovalQueues s)"

definition last_digest :: "('c, 'z) StoreState_scheme \<Rightarrow> ChainKey \<Rightarrow> Digest option" where
  "last_digest s k = (case LastDigest s k of Some (_, d) \<Rightarrow> Some d
     | None \<Rightarrow> map_option cp_digest (LastCheckpoint s k))"

definition attestations_stable :: "('c, 'z) StoreState_scheme \<Rightarrow> ChainKey \<Rightarrow> bool" where
  "attestations_stable s k = (AttestationClearingCursors s k = None)"

definition commit_blocked_by_cleanup :: "('c, 'z) StoreState_scheme \<Rightarrow> ChainKey \<Rightarrow> bool" where
  "commit_blocked_by_cleanup s k =
    (AttestationClearingCursors s k \<noteq> None \<or> CheckpointPruningStates s k \<noteq> None)"

definition get_attestation :: "('c, 'z) StoreState_scheme \<Rightarrow> ChainKey \<Rightarrow> Digest \<Rightarrow> SignedAttestation option" where
  "get_attestation s k d = (if \<not> attestations_stable s k then None else Attestations s k d)"

definition checkpoint_if_stable :: "('c, 'z) StoreState_scheme \<Rightarrow> ChainKey \<Rightarrow> u64 \<Rightarrow> Digest option" where
  "checkpoint_if_stable s k n =
    (case CheckpointPruningStates s k of
       Some st \<Rightarrow> if compute_block_index_for n \<ge> next_pivot st then None else Checkpoints s k n
     | None \<Rightarrow> Checkpoints s k n)"

definition contains_digest :: "('c, 'z) StoreState_scheme \<Rightarrow> ChainKey \<Rightarrow> Digest \<Rightarrow> u64 \<Rightarrow> bool" where
  "contains_digest s k d n = (get_attestation s k d \<noteq> None \<or> checkpoint_if_stable s k n = Some d)"

definition attestors_within_bound ::
  "PalletConfig \<Rightarrow> ('c, 'z) StoreState_scheme \<Rightarrow> ChainKey \<Rightarrow> SignedAttestation \<Rightarrow> bool" where
  "attestors_within_bound cfg s k a = (len32 (attestors a) \<le> max_attestors cfg s k)"

definition checkpointing_queue_len :: "('c, 'z) StoreState_scheme \<Rightarrow> ChainKey \<Rightarrow> u32" where
  "checkpointing_queue_len s k = of_nat (min (length (checkpointing_queue s k)) (2 ^ 32 - 1))"

section \<open>Validation\<close>

definition check_duplicate :: "keccak \<Rightarrow> ('c, 'z) StoreState_scheme \<Rightarrow> SignedAttestation \<Rightarrow> bool" where
  "check_duplicate kc s a =
    (let k = sa_chain_key a; n = sa_header_number a in
     if Attestations s k (sa_digest kc a) \<noteq> None then True
     else if (case LastDigest s k of Some (last_height, _) \<Rightarrow> n \<le> last_height | None \<Rightarrow> False) then True
     else (case LastCheckpoint s k of Some c \<Rightarrow> n \<le> cp_block_number c | None \<Rightarrow> False))"

fun gather_attestor_public_keys ::
  "('pk, 'sg) Bls \<Rightarrow> ('c, 'z) StoreState_scheme \<Rightarrow> ChainKey \<Rightarrow> AccountId list \<Rightarrow> PalletError + 'pk list" where
  "gather_attestor_public_keys bls s k [] = Inr []"
| "gather_attestor_public_keys bls s k (a # as) =
    (let maybe_key = (case attestor_bls_pubkey s k a of Some key \<Rightarrow> Some key
           | None \<Rightarrow> map_option retired_bls_public_key (RetiredAttestorBlsKeys s k a))
     in case maybe_key of
          None \<Rightarrow> Inl (if Attestors s k a \<noteq> None \<or> RetiredAttestorBlsKeys s k a \<noteq> None
                     then AttestorWithInvalidPublicKey else InvalidAttestorFound)
        | Some key \<Rightarrow> (case pk_from_bytes bls key of None \<Rightarrow> Inl AttestorWithInvalidPublicKey
            | Some pk \<Rightarrow> (case gather_attestor_public_keys bls s k as of
                Inl e \<Rightarrow> Inl e | Inr pks \<Rightarrow> Inr (pk # pks))))"

text \<open>The deduplication of the keys by their 48 bytes.\<close>

fun dedup_public_keys ::
  "('pk, 'sg) Bls \<Rightarrow> 'pk list \<Rightarrow> bytes list \<Rightarrow> PalletError + 'pk list" where
  "dedup_public_keys bls [] seen = Inr []"
| "dedup_public_keys bls (pk # pks) seen =
    (let b = pk_as_bytes bls pk in
     if length b \<noteq> 48 then Inl InvalidBlsPublicKey
     else if b \<in> set seen then dedup_public_keys bls pks seen
     else (case dedup_public_keys bls pks (b # seen) of Inl e \<Rightarrow> Inl e | Inr r \<Rightarrow> Inr (pk # r)))"

text \<open>The header number a digest stands for: that of the stored attestation, or of the last
  checkpoint.\<close>

definition linked_header ::
  "('c, 'z) StoreState_scheme \<Rightarrow> ChainKey \<Rightarrow> Digest \<Rightarrow> PalletError \<Rightarrow> PalletError + u64" where
  "linked_header s k d err =
    (case get_attestation s k d of Some prev \<Rightarrow> Inr (sa_header_number prev)
     | None \<Rightarrow> (case LastCheckpoint s k of
         Some c \<Rightarrow> if cp_digest c = d then Inr (cp_block_number c) else Inl err
       | None \<Rightarrow> Inl err))"

definition validate_attestation_continuity ::
  "nat \<Rightarrow> keccak \<Rightarrow> PalletConfig \<Rightarrow> ('c, 'z) StoreState_scheme \<Rightarrow> SignedAttestation \<Rightarrow> PalletError + unit" where
  "validate_attestation_continuity w kc cfg s a =
    (let k = sa_chain_key a; n = sa_header_number a; p = continuity_proof a in
     if n = attestation_chain_genesis_block_number cfg s k then
       (if sa_prev_digest a \<noteq> None then Inl InvalidAttestationPrevDigest
        else if roots p \<noteq> [] then Inl OversizedContinuityProof
        else Inr ())
     else case sa_prev_digest a of None \<Rightarrow> Inl InvalidAttestationPrevDigest
     | Some prev \<Rightarrow>
       if prev = 0 then Inl InvalidAttestationPrevDigest
       else case last_digest s k of None \<Rightarrow> Inl NoFinalizedAttestation
       | Some last_finalized \<Rightarrow>
         if prev = last_finalized \<and> roots p = [] then
           (case linked_header s k prev InvalidAttestationPrevDigest of Inl e \<Rightarrow> Inl e
            | Inr prev_header \<Rightarrow> if n = prev_header + 1 then Inr () else Inl InvalidAttestationPrevDigest)
         else if roots p = [] then Inl EmptyContinuityProof
         else if \<not> length (roots p) \<le>
             as_usize w (max (ucast (max_catchup cfg s k)) (chain_attestation_interval cfg s k))
           then Inl OversizedContinuityProof
         else
           (let tail = start_block_number p n in
            case tail_prev_digest p of None \<Rightarrow> Inl InvalidAttestationContinuityProofTail
            | Some tp \<Rightarrow>
              if tp \<noteq> last_finalized then Inl InvalidAttestationContinuityProofTail
              else case linked_header s k tp InvalidAttestationContinuityProofTail of Inl e \<Rightarrow> Inl e
              | Inr tp_header \<Rightarrow>
                (case checked_sub tail 1 of None \<Rightarrow> Inl InvalidAttestationContinuityProofTail
                 | Some expected \<Rightarrow>
                   if tp_header \<noteq> expected then Inl InvalidAttestationContinuityProofTail
                   else if compute_continuity_digest kc p tail \<noteq> prev
                   then Inl InvalidAttestationContinuityProofHead
                   else Inr ())))"

text \<open>A \<open>BTreeSet\<close> collected from a list, in its iteration order.\<close>

definition btree_set :: "AccountId list \<Rightarrow> AccountId list" where
  "btree_set xs = sort (remdups xs)"

definition eligible_attestors :: "('c, 'z) StoreState_scheme \<Rightarrow> SignedAttestation \<Rightarrow> AccountId list" where
  "eligible_attestors s a =
    btree_set (filter (\<lambda>x. x \<in> set (active_attestor_set s (sa_chain_key a))) (attestors a))"

definition validate_signature ::
  "keccak \<Rightarrow> ('pk, 'sg) Bls \<Rightarrow> ('c, 'z) StoreState_scheme \<Rightarrow> SignedAttestation \<Rightarrow> u32 \<Rightarrow> PalletError + unit" where
  "validate_signature kc bls s a threshold =
    (case sig_from_bytes bls (signature a) of None \<Rightarrow> Inl InvalidBlsSignature
     | Some sg \<Rightarrow>
       (case gather_attestor_public_keys bls s (sa_chain_key a) (eligible_attestors s a) of Inl e \<Rightarrow> Inl e
        | Inr pks \<Rightarrow>
          (case dedup_public_keys bls pks [] of Inl e \<Rightarrow> Inl e
           | Inr deduped \<Rightarrow>
             if \<not> len32 deduped \<ge> threshold then Inl InsufficientUniqueSigners
             else case aggregate_public_keys bls deduped of None \<Rightarrow> Inl InvalidBlsSignature
             | Some agg \<Rightarrow>
               if \<not> verify_agg_message bls sg (att_serialize (attestation a)) agg then Inl InvalidBlsSignature
               else Inr ())))"

definition validate_attestation ::
  "nat \<Rightarrow> keccak \<Rightarrow> ('pk, 'sg) Bls \<Rightarrow> PalletConfig \<Rightarrow> (ChainKey \<Rightarrow> bool) \<Rightarrow> ChainKey \<Rightarrow>
   ('c, 'z) StoreState_scheme \<Rightarrow> SignedAttestation \<Rightarrow> PalletError + unit" where
  "validate_attestation w kc bls cfg supp k s a =
    (if \<not> supp k then Inl ChainNotSupported
     else if commit_blocked_by_cleanup s k then Inl AttestationCleanupInProgress
     else if \<not> attestors_within_bound cfg s k a then Inl TooManyAttestors
     else if check_duplicate kc s a then Inl AttestationExists
     else if (case LastDigest s k of Some (last_height, _) \<Rightarrow>
           \<not> sa_header_number a \<ge> saturating_add last_height (chain_attestation_interval cfg s k)
         | None \<Rightarrow> False) then Inl InvalidAttestationBlockNumber
     else
       (let threshold = calculate_quorum (len32 (btree_set (active_attestor_set s k))) in
        if \<not> len32 (eligible_attestors s a) \<ge> threshold then Inl MajorityNotReached
        else case validate_signature kc bls s a threshold of Inl e \<Rightarrow> Inl e
        | Inr _ \<Rightarrow> validate_attestation_continuity w kc cfg s a))"

section \<open>Checkpoints\<close>

text \<open>\<open>remove_attestations\<close>: its inner error is returned when the queue is empty while it is
  longer than the limit, which the recursion has no case for.\<close>

fun drain_removals ::
  "nat \<Rightarrow> Digest list \<Rightarrow> (Digest \<rightharpoonup> SignedAttestation) \<Rightarrow> Digest list \<times> (Digest \<rightharpoonup> SignedAttestation)" where
  "drain_removals limit [] m = ([], m)"
| "drain_removals limit (d # q) m =
    (if length (d # q) > limit then drain_removals limit q (m(d := None)) else (d # q, m))"

definition remove_attestations ::
  "PalletConfig \<Rightarrow> ChainKey \<Rightarrow> Digest list \<Rightarrow> ('c, 'z) StoreState_scheme \<Rightarrow> ('c, 'z) StoreState_scheme" where
  "remove_attestations cfg k removal s =
    (let (q, m) = drain_removals (unat (attestation_retention_duration cfg s k)) removal (Attestations s k)
     in s\<lparr>Attestations := (Attestations s)(k := m),
          AttestationRemovalQueues := (AttestationRemovalQueues s)(k \<mapsto> q)\<rparr>)"

text \<open>The four writes that record a checkpoint.\<close>

definition record_checkpoint ::
  "ChainKey \<Rightarrow> AttestationCheckpoint \<Rightarrow> ('c, 'z) StoreState_scheme \<Rightarrow> ('c, 'z) StoreState_scheme" where
  "record_checkpoint k c s =
    deposit_event (CheckpointReached k c)
      (s\<lparr>Checkpoints := dmap_set k (cp_block_number c) (Some (cp_digest c)) (Checkpoints s),
         CheckpointBuckets := insert (k, compute_block_index_for (cp_block_number c), cp_block_number c)
           (CheckpointBuckets s),
         LastCheckpoint := (LastCheckpoint s)(k \<mapsto> c)\<rparr>)"

definition checkpoint_width :: "PalletConfig \<Rightarrow> ('c, 'z) StoreState_scheme \<Rightarrow> ChainKey \<Rightarrow> u64" where
  "checkpoint_width cfg s k =
    saturating_mul (chain_attestation_interval cfg s k) (ucast (attestation_checkpoint_interval cfg s k))"

definition rollback_queue :: "Digest list \<Rightarrow> Digest list \<Rightarrow> Digest list" where
  "rollback_queue popped queue = fold (\<lambda>d q. d # q) (rev popped) queue"

fun condense_loop ::
  "nat \<Rightarrow> keccak \<Rightarrow> (Digest \<rightharpoonup> SignedAttestation) \<Rightarrow> u64 \<Rightarrow> Digest list \<Rightarrow> Digest list \<Rightarrow> Digest list \<Rightarrow>
   Digest list \<times> (PalletError + AttestationCheckpoint \<times> Digest list)" where
  "condense_loop w kc atts target [] popped removal =
    (rollback_queue popped [], Inl CheckpointingQueueDrained)"
| "condense_loop w kc atts target (d # queue) popped removal =
    (let popped' = popped @ [d] in
     case atts d of None \<Rightarrow> (rollback_queue popped' queue, Inl AttestationNotFound)
     | Some a \<Rightarrow>
       if sa_header_number a < target then condense_loop w kc atts target queue popped' (removal @ [d])
       else if sa_header_number a = target then
         (queue, Inr (\<lparr>cp_block_number = sa_header_number a, cp_digest = sa_digest kc a\<rparr>, removal @ [d]))
       else
         (case digest_for_block w kc (continuity_proof a)
               (start_block_number (continuity_proof a) (sa_header_number a)) target of
            Some digest \<Rightarrow> (d # queue, Inr (\<lparr>cp_block_number = target, cp_digest = digest\<rparr>, removal))
          | None \<Rightarrow> (rollback_queue popped' queue, Inl CheckpointTargetNotFound)))"

definition try_make_checkpoint ::
  "nat \<Rightarrow> keccak \<Rightarrow> PalletConfig \<Rightarrow> Digest list \<Rightarrow> ChainKey \<Rightarrow> u64 \<Rightarrow> ('c, 'z) StoreState_scheme \<Rightarrow>
   Digest list \<times> (PalletError + ('c, 'z) StoreState_scheme)" where
  "try_make_checkpoint w kc cfg queue k attestation_header s =
    (case LastCheckpoint s k of None \<Rightarrow> (queue, Inl LastCheckpointEmpty)
     | Some c \<Rightarrow>
       (let lastc = cp_block_number c; width = checkpoint_width cfg s k in
        if \<not> width > 0 then (queue, Inl CheckpointWidthIsZero)
        else if saturating_sub attestation_header lastc < width * 2 + 1 then (queue, Inr s)
        else
          (let nextc = saturating_add lastc width; target = nextc - nextc mod width in
           case condense_loop w kc (Attestations s k) target queue [] (attestation_removal_queue s k) of
             (queue', Inl e) \<Rightarrow> (queue', Inl e)
           | (queue', Inr (c', removal)) \<Rightarrow>
               (queue', Inr (remove_attestations cfg k removal (record_checkpoint k c' s))))))"

definition checkpoint_at_attestation ::
  "PalletConfig \<Rightarrow> ChainKey \<Rightarrow> u64 \<Rightarrow> Digest \<Rightarrow> Digest list \<Rightarrow> ('c, 'z) StoreState_scheme \<Rightarrow> ('c, 'z) StoreState_scheme" where
  "checkpoint_at_attestation cfg k n d condensed s =
    (let s1 = record_checkpoint k \<lparr>cp_block_number = n, cp_digest = d\<rparr> s;
         s2 = s1\<lparr>CheckpointingQueues := (CheckpointingQueues s1)(k := None)\<rparr>
     in remove_attestations cfg k (attestation_removal_queue s2 k @ condensed) s2)"

definition or_insert_all :: "(u64 \<rightharpoonup> Digest) \<Rightarrow> (u64 \<rightharpoonup> Digest) \<Rightarrow> (u64 \<rightharpoonup> Digest)" where
  "or_insert_all new m = new ++ m"

definition queued_digests ::
  "keccak \<Rightarrow> (Digest \<rightharpoonup> SignedAttestation) \<Rightarrow> Digest \<Rightarrow> (u64 \<rightharpoonup> Digest) \<Rightarrow> (u64 \<rightharpoonup> Digest)" where
  "queued_digests kc atts qd m =
    (case atts qd of None \<Rightarrow> m
     | Some q \<Rightarrow> or_insert_all
         (block_digests kc (continuity_proof q) (start_block_number (continuity_proof q) (sa_header_number q)))
         (or_insert_all [sa_header_number q \<mapsto> sa_digest kc q] m))"

definition boundary_digests ::
  "keccak \<Rightarrow> (Digest \<rightharpoonup> SignedAttestation) \<Rightarrow> SignedAttestation \<Rightarrow> Digest \<Rightarrow> Digest list \<Rightarrow> (u64 \<rightharpoonup> Digest)" where
  "boundary_digests kc atts a d queue =
    fold (queued_digests kc atts) queue
      ((block_digests kc (continuity_proof a) (start_block_number (continuity_proof a) (sa_header_number a)))
        (sa_header_number a \<mapsto> d))"

partial_function (option) checkpoint_loop ::
  "u64 \<Rightarrow> u64 \<Rightarrow> (u64 \<rightharpoonup> Digest) \<Rightarrow> ChainKey \<Rightarrow> u64 \<Rightarrow> ('c, 'z) StoreState_scheme \<Rightarrow>
   (PalletError + u64 \<times> ('c, 'z) StoreState_scheme) option" where
  "checkpoint_loop width head digests k lastb s =
    (let nextb = saturating_add lastb width; target = saturating_sub nextb (nextb mod width) in
     if target > head then Some (Inr (lastb, s))
     else case digests target of None \<Rightarrow> Some (Inl CheckpointCreationError)
     | Some d \<Rightarrow> checkpoint_loop width head digests k target
         (record_checkpoint k \<lparr>cp_block_number = target, cp_digest = d\<rparr> s))"

definition create_checkpoints_from_queue ::
  "keccak \<Rightarrow> PalletConfig \<Rightarrow> ChainKey \<Rightarrow> SignedAttestation \<Rightarrow> Digest \<Rightarrow> Digest list \<Rightarrow>
   ('c, 'z) StoreState_scheme \<Rightarrow> (PalletError + bool \<times> ('c, 'z) StoreState_scheme) option" where
  "create_checkpoints_from_queue kc cfg k a d queue s =
    (case LastCheckpoint s k of None \<Rightarrow> Some (Inl LastCheckpointEmpty)
     | Some c \<Rightarrow>
       (let width = checkpoint_width cfg s k in
        if \<not> width > 0 then Some (Inl CheckpointWidthIsZero)
        else case checkpoint_loop width (sa_header_number a)
                    (boundary_digests kc (Attestations s k) a d queue) k (cp_block_number c) s of
          None \<Rightarrow> None
        | Some (Inl e) \<Rightarrow> Some (Inl e)
        | Some (Inr (lastb, s1)) \<Rightarrow>
            if lastb \<noteq> cp_block_number c then
              (let s2 = remove_attestations cfg k (attestation_removal_queue s k @ queue @ [d]) s1 in
               Some (Inr (True, s2\<lparr>CheckpointingQueues := (CheckpointingQueues s2)(k := None)\<rparr>)))
            else Some (Inr (False, s1))))"

definition create_checkpoints_from_continuity_proof ::
  "nat \<Rightarrow> keccak \<Rightarrow> PalletConfig \<Rightarrow> ChainKey \<Rightarrow> SignedAttestation \<Rightarrow> Digest \<Rightarrow>
   ('c, 'z) StoreState_scheme \<Rightarrow> (PalletError + bool \<times> ('c, 'z) StoreState_scheme) option" where
  "create_checkpoints_from_continuity_proof w kc cfg k a d s =
    (if roots (continuity_proof a) = [] then Some (Inr (False, s))
     else
       (let width = checkpoint_width cfg s k in
        if \<not> width > 0 then Some (Inl CheckpointWidthIsZero)
        else if length (roots (continuity_proof a)) < 2 * as_usize w width mod 2 ^ w then Some (Inr (False, s))
        else create_checkpoints_from_queue kc cfg k a d (checkpointing_queue s k) s))"

section \<open>Committing\<close>

text \<open>The writes of a commit before checkpointing: the rate limit of the block, the attestation
  and the last digest.\<close>

definition store_attestation ::
  "keccak \<Rightarrow> u32 \<Rightarrow> ChainKey \<Rightarrow> SignedAttestation \<Rightarrow> u32 \<Rightarrow> ('c, 'z) StoreState_scheme \<Rightarrow> ('c, 'z) StoreState_scheme" where
  "store_attestation kc now k a committed s =
    (let d = sa_digest kc a; n = sa_header_number a in
     deposit_event (BlockAttested k n d)
       (s\<lparr>AttestationsInBlock := (AttestationsInBlock s)(k \<mapsto> (now, saturating_add committed 1)),
          Attestations := dmap_set k d (Some a) (Attestations s),
          LastDigest := (if (case LastDigest s k of None \<Rightarrow> True | Some (h, _) \<Rightarrow> n > h)
            then (LastDigest s)(k \<mapsto> (n, d)) else LastDigest s)\<rparr>))"

definition committed_this_block :: "u32 \<Rightarrow> ('c, 'z) StoreState_scheme \<Rightarrow> ChainKey \<Rightarrow> u32" where
  "committed_this_block now s k =
    (case AttestationsInBlock s k of Some (block, n) \<Rightarrow> if block = now then n else 0 | None \<Rightarrow> 0)"

definition first_checkpoint ::
  "PalletConfig \<Rightarrow> ChainKey \<Rightarrow> u64 \<Rightarrow> Digest \<Rightarrow> ('c, 'z) StoreState_scheme \<Rightarrow> PalletError + ('c, 'z) StoreState_scheme" where
  "first_checkpoint cfg k n d s =
    (if attestation_chain_genesis_block_number cfg s k \<noteq> n then Inl InvalidAttestationBlockNumber
     else
       (let s1 = record_checkpoint k \<lparr>cp_block_number = n, cp_digest = d\<rparr> s in
        Inr (s1\<lparr>AttestationRemovalQueues := (AttestationRemovalQueues s1)
          (k \<mapsto> attestation_removal_queue s1 k @ [d])\<rparr>)))"

definition queue_attestation ::
  "nat \<Rightarrow> keccak \<Rightarrow> PalletConfig \<Rightarrow> ChainKey \<Rightarrow> u64 \<Rightarrow> Digest \<Rightarrow> ('c, 'z) StoreState_scheme \<Rightarrow> ('c, 'z) StoreState_scheme" where
  "queue_attestation w kc cfg k n d s =
    (let (queue, r) = try_make_checkpoint w kc cfg (checkpointing_queue s k @ [d]) k n s;
         s1 = (case r of Inl _ \<Rightarrow> s | Inr s' \<Rightarrow> s')
     in if length queue > unat (MaxCheckpointingQueueLen cfg)
        then checkpoint_at_attestation cfg k n d queue s1
        else s1\<lparr>CheckpointingQueues := (CheckpointingQueues s1)(k \<mapsto> queue)\<rparr>)"

definition do_commit_attestation ::
  "nat \<Rightarrow> keccak \<Rightarrow> ('pk, 'sg) Bls \<Rightarrow> PalletConfig \<Rightarrow> (ChainKey \<Rightarrow> bool) \<Rightarrow> u32 \<Rightarrow> SignedAttestation \<Rightarrow>
   ('c, 'z) StoreState_scheme \<Rightarrow> (PalletError + ('c, 'z) StoreState_scheme) option" where
  "do_commit_attestation w kc bls cfg supp now a s =
    (let k = sa_chain_key a; n = sa_header_number a; d = sa_digest kc a in
     case validate_attestation w kc bls cfg supp k s a of Inl e \<Rightarrow> Some (Inl e)
     | Inr _ \<Rightarrow>
       if \<not> committed_this_block now s k < MaxAttestationsPerBlock cfg then Some (Inl TooManyAttestationsInBlock)
       else
         (let s1 = store_attestation kc now k a (committed_this_block now s k) s in
          if Checkpoints s1 k = Map.empty then Some (first_checkpoint cfg k n d s1)
          else case create_checkpoints_from_continuity_proof w kc cfg k a d s1 of
            None \<Rightarrow> None
          | Some (Inl e) \<Rightarrow> Some (Inl e)
          | Some (Inr (True, s2)) \<Rightarrow> Some (Inr s2)
          | Some (Inr (False, s2)) \<Rightarrow> Some (Inr (queue_attestation w kc cfg k n d s2))))"

definition commit_attestation ::
  "nat \<Rightarrow> keccak \<Rightarrow> ('pk, 'sg) Bls \<Rightarrow> PalletConfig \<Rightarrow> (ChainKey \<Rightarrow> bool) \<Rightarrow> u32 \<Rightarrow> Origin \<Rightarrow> SignedAttestation \<Rightarrow>
   ('c, 'z) StoreState_scheme \<Rightarrow> (PalletError, ('c, 'z) StoreState_scheme) dispatch option" where
  "commit_attestation w kc bls cfg supp now origin a s =
    (case origin of Signed account \<Rightarrow>
       if account \<notin> set (active_attestor_set s (sa_chain_key a)) then Some (Inl (Module AttestorNotActive))
       else (case do_commit_attestation w kc bls cfg supp now a s of None \<Rightarrow> None
         | Some (Inl e) \<Rightarrow> Some (Inl (Module e)) | Some (Inr s') \<Rightarrow> Some (Inr s'))
     | _ \<Rightarrow> Some (Inl BadOrigin))"

definition set_attestation_chain_genesis_block_number ::
  "PalletConfig \<Rightarrow> (ChainKey \<Rightarrow> bool) \<Rightarrow> Origin \<Rightarrow> ChainKey \<Rightarrow> u64 \<Rightarrow>
   ('c, 'z) StoreState_scheme \<Rightarrow> (PalletError, ('c, 'z) StoreState_scheme) dispatch" where
  "set_attestation_chain_genesis_block_number cfg supp origin k n s =
    (if \<not> OperatorsOrigin cfg origin then Inl BadOrigin
     else if \<not> supp k then Inl (Module ChainNotSupported)
     else if \<not> (Attestations s k = Map.empty \<and> Checkpoints s k = Map.empty)
       then Inl (Module AttestationsAlreadyExist)
     else Inr (deposit_event (AttestationChainGenesisBlockNumberSet k n)
       (s\<lparr>AttestationChainGenesisBlockNumber := (AttestationChainGenesisBlockNumber s)(k \<mapsto> n)\<rparr>)))"

end
