(* ===== verification/AttestationInv.thy ===== *)
theory AttestationInv
  imports Attestations
begin

text \<open>What a successful commit of an attestation guarantees: a quorum of the active attestors signed
  it with pairwise different keys, it extends the last finalised digest block by block, heights
  only grow, the checkpoint maps stay consistent, the queues stay bounded, a failed checkpoint
  leaves the queue as it was, and the call returns.\<close>

section \<open>Signers\<close>

lemma set_btree_set [simp]: "set (btree_set xs) = set xs" and distinct_btree_set [simp]: "distinct (btree_set xs)"
  by (simp_all add: btree_set_def)

lemma length_btree_set: "length (btree_set xs) = card (set xs)"
  using distinct_card [OF distinct_btree_set, of xs] by simp

lemma set_eligible:
  "set (eligible_attestors s a) = set (attestors a) \<inter> set (active_attestor_set s (sa_chain_key a))"
  by (auto simp: eligible_attestors_def)

lemma distinct_eligible: "distinct (eligible_attestors s a)"
  by (simp add: eligible_attestors_def)

text \<open>The key a signer is verified with.\<close>

definition signer_key :: "('c, 'z) StoreState_scheme \<Rightarrow> ChainKey \<Rightarrow> AccountId \<Rightarrow> BlsPublicKey option" where
  "signer_key s k a = (case attestor_bls_pubkey s k a of Some key \<Rightarrow> Some key
     | None \<Rightarrow> map_option retired_bls_public_key (RetiredAttestorBlsKeys s k a))"

lemma gather_spec:
  "gather_attestor_public_keys bls s k as = Inr pks \<Longrightarrow>
    \<forall>pk\<in>set pks. \<exists>a\<in>set as. \<exists>key. signer_key s k a = Some key \<and> pk_from_bytes bls key = Some pk"
proof (induction as arbitrary: pks)
  case (Cons a as)
  then obtain key pk rest where "signer_key s k a = Some key" "pk_from_bytes bls key = Some pk"
      "gather_attestor_public_keys bls s k as = Inr rest" "pks = pk # rest"
    by (auto simp: signer_key_def [symmetric] Let_def split: option.split_asm sum.split_asm)
  with Cons.IH [of rest] show ?case by auto
qed simp

lemma dedup_spec:
  "dedup_public_keys bls pks seen = Inr r \<Longrightarrow>
    set r \<subseteq> set pks \<and> distinct (map (pk_as_bytes bls) r) \<and> pk_as_bytes bls ` set r \<inter> set seen = {}"
proof (induction pks arbitrary: seen r)
  case (Cons pk pks)
  show ?case
  proof (cases "pk_as_bytes bls pk \<in> set seen")
    case True
    with Cons show ?thesis by (auto simp: Let_def split: if_splits)
  next
    case False
    with Cons.prems obtain rest where rest: "dedup_public_keys bls pks (pk_as_bytes bls pk # seen) = Inr rest"
        "r = pk # rest"
      by (auto simp: Let_def split: if_splits sum.split_asm)
    from Cons.IH [OF rest(1)] False rest(2) show ?thesis by auto
  qed
qed simp

lemma validate_Inr:
  assumes "validate_attestation w kc bls cfg supp k s a = Inr u"
  shows "supp k" and "\<not> commit_blocked_by_cleanup s k" and "\<not> check_duplicate kc s a"
    and "calculate_quorum (len32 (btree_set (active_attestor_set s k))) \<le> len32 (eligible_attestors s a)"
    and "validate_signature kc bls s a (calculate_quorum (len32 (btree_set (active_attestor_set s k)))) = Inr ()"
    and "validate_attestation_continuity w kc cfg s a = Inr ()"
    and "\<And>h d. LastDigest s k = Some (h, d) \<Longrightarrow>
      saturating_add h (chain_attestation_interval cfg s k) \<le> sa_header_number a"
  using assms by (auto simp: validate_attestation_def Let_def split: if_splits sum.split_asm option.split_asm)

lemma validate_signature_Inr:
  assumes "validate_signature kc bls s a t = Inr u"
  shows "\<exists>sg ks agg. sig_from_bytes bls (signature a) = Some sg \<and>
    distinct (map (pk_as_bytes bls) ks) \<and> t \<le> len32 ks \<and>
    (\<forall>pk\<in>set ks. \<exists>b\<in>set (eligible_attestors s a). \<exists>key.
      signer_key s (sa_chain_key a) b = Some key \<and> pk_from_bytes bls key = Some pk) \<and>
    aggregate_public_keys bls ks = Some agg \<and> verify_agg_message bls sg (att_serialize (attestation a)) agg"
proof -
  obtain sg pks ks agg where r: "sig_from_bytes bls (signature a) = Some sg"
    and g: "gather_attestor_public_keys bls s (sa_chain_key a) (eligible_attestors s a) = Inr pks"
    and d: "dedup_public_keys bls pks [] = Inr ks" and q: "t \<le> len32 ks"
    and v: "aggregate_public_keys bls ks = Some agg" "verify_agg_message bls sg (att_serialize (attestation a)) agg"
    using assms by (auto simp: validate_signature_def split: option.split_asm sum.split_asm if_splits)
  have "\<forall>pk\<in>set ks. \<exists>b\<in>set (eligible_attestors s a). \<exists>key.
      signer_key s (sa_chain_key a) b = Some key \<and> pk_from_bytes bls key = Some pk"
    using gather_spec [OF g] dedup_spec [OF d] by blast
  with r q v dedup_spec [OF d] show ?thesis by (intro exI [of _ sg] exI [of _ ks] exI [of _ agg]) simp
qed

lemma commit_validates:
  assumes "commit_attestation w kc bls cfg supp now origin a s = Some (Inr s')"
  shows "validate_attestation w kc bls cfg supp (sa_chain_key a) s a = Inr ()"
    and "do_commit_attestation w kc bls cfg supp now a s = Some (Inr s')"
  using assms by (auto simp: commit_attestation_def do_commit_attestation_def Let_def
      split: Origin.splits if_splits option.split_asm sum.split_asm)

section \<open>Continuity\<close>

lemma continuity_Inr:
  assumes "validate_attestation_continuity w kc cfg s a = Inr u"
    and "sa_header_number a \<noteq> attestation_chain_genesis_block_number cfg s (sa_chain_key a)"
  shows "\<exists>prev ld h e. sa_prev_digest a = Some prev \<and> last_digest s (sa_chain_key a) = Some ld \<and>
    linked_header s (sa_chain_key a) ld e = Inr h \<and>
    sa_header_number a = h + 1 + of_nat (length (roots (continuity_proof a))) \<and>
    (if roots (continuity_proof a) = [] then prev = ld
     else lower_endpoint_digest (continuity_proof a) = ld \<and>
       compute_continuity_digest kc (continuity_proof a) (h + 1) = prev)"
proof -
  let ?p = "continuity_proof a" and ?n = "sa_header_number a" and ?k = "sa_chain_key a"
  obtain prev ld where p: "sa_prev_digest a = Some prev" "last_digest s ?k = Some ld"
    using assms by (auto simp: validate_attestation_continuity_def Let_def split: option.split_asm if_splits)
  show ?thesis
  proof (cases "roots ?p = []")
    case True
    then have "prev = ld" "\<exists>h. linked_header s ?k prev InvalidAttestationPrevDigest = Inr h \<and> ?n = h + 1"
      using assms p by (auto simp: validate_attestation_continuity_def Let_def split: if_splits sum.split_asm)
    with p True show ?thesis by auto
  next
    case False
    let ?t = "start_block_number ?p ?n"
    obtain h where h: "linked_header s ?k ld InvalidAttestationContinuityProofTail = Inr h"
      and c: "checked_sub ?t 1 = Some h" and le: "lower_endpoint_digest ?p = ld"
      and dg: "compute_continuity_digest kc ?p ?t = prev"
      using assms p False
      by (auto simp: validate_attestation_continuity_def tail_prev_digest_def Let_def
          split: if_splits sum.split_asm option.split_asm)
    have t: "h = ?t - 1" "1 \<le> ?t" using c by (auto simp: checked_sub_def split: if_splits)
    then have "len64 (roots ?p) \<le> ?n"
      by (auto simp: start_block_number_def saturating_sub_def split: if_splits)
    then have "?n = h + 1 + of_nat (length (roots ?p))"
      using t(1) by (auto simp: start_block_number_def saturating_sub_def len64_def)
    moreover have "compute_continuity_digest kc ?p (h + 1) = prev" using dg t(1) by simp
    ultimately show ?thesis using p h le False by auto
  qed
qed

section \<open>Effects of checkpointing\<close>

lemma remove_attestations_fields [simp]:
  "Checkpoints (remove_attestations cfg k q s) = Checkpoints s"
  "CheckpointBuckets (remove_attestations cfg k q s) = CheckpointBuckets s"
  "LastCheckpoint (remove_attestations cfg k q s) = LastCheckpoint s"
  "CheckpointingQueues (remove_attestations cfg k q s) = CheckpointingQueues s"
  "LastDigest (remove_attestations cfg k q s) = LastDigest s"
  by (simp_all add: remove_attestations_def split: prod.splits)

lemma deposit_event_store [simp]:
  "Attestations (deposit_event e s) = Attestations s" "Checkpoints (deposit_event e s) = Checkpoints s"
  "CheckpointBuckets (deposit_event e s) = CheckpointBuckets s"
  "LastCheckpoint (deposit_event e s) = LastCheckpoint s"
  "CheckpointingQueues (deposit_event e s) = CheckpointingQueues s" "LastDigest (deposit_event e s) = LastDigest s"
  "AttestationRemovalQueues (deposit_event e s) = AttestationRemovalQueues s"
  by (simp_all add: deposit_event_def)

lemma record_checkpoint_fields [simp]:
  "Checkpoints (record_checkpoint k c s) = dmap_set k (cp_block_number c) (Some (cp_digest c)) (Checkpoints s)"
  "CheckpointBuckets (record_checkpoint k c s) =
    insert (k, compute_block_index_for (cp_block_number c), cp_block_number c) (CheckpointBuckets s)"
  "LastCheckpoint (record_checkpoint k c s) = (LastCheckpoint s)(k \<mapsto> c)"
  "CheckpointingQueues (record_checkpoint k c s) = CheckpointingQueues s"
  "LastDigest (record_checkpoint k c s) = LastDigest s"
  by (simp_all add: record_checkpoint_def)

lemma rollback_queue_append: "rollback_queue popped queue = popped @ queue"
proof -
  have "fold (\<lambda>d q. d # q) xs queue = rev xs @ queue" for xs
    by (induction xs arbitrary: queue) simp_all
  from this [of "rev popped"] show ?thesis by (simp add: rollback_queue_def)
qed

lemma condense_loop_error:
  "condense_loop w kc atts t queue popped removal = (q, Inl e) \<Longrightarrow> q = popped @ queue"
  by (induction w kc atts t queue popped removal rule: condense_loop.induct)
    (auto simp: rollback_queue_append Let_def split: option.split_asm if_splits)

lemma condense_loop_success:
  "condense_loop w kc atts t queue popped removal = (q, Inr (c, r)) \<Longrightarrow>
    cp_block_number c = t \<and> length q \<le> length queue"
proof (induction w kc atts t queue popped removal rule: condense_loop.induct)
  case (2 w kc atts t d queue popped removal)
  then show ?case
    by (auto simp: Let_def le_SucI split: option.split_asm if_splits)
qed simp

text \<open>The boundary after a checkpoint lies strictly above it, unless the height overflows.\<close>

lemma next_boundary:
  fixes last width :: u64
  assumes "0 < width" and "unat last + unat width < 2 ^ 64"
  shows "last < saturating_add last width - saturating_add last width mod width"
proof -
  have n: "unat (saturating_add last width) = unat last + unat width"
    using assms(2) by (simp add: unat_saturating_add)
  have w: "0 < unat width" using assms(1) by (simp add: word_less_nat_alt)
  have m: "unat (saturating_add last width mod width) = (unat last + unat width) mod unat width"
    by (simp add: unat_mod_distrib n)
  have le: "saturating_add last width mod width \<le> saturating_add last width"
    by (simp add: word_le_nat_alt unat_mod_distrib)
  have "unat (saturating_add last width - saturating_add last width mod width) =
      unat last + unat width - (unat last + unat width) mod unat width"
    using le by (simp add: unat_sub n m)
  moreover have "(unat last + unat width) mod unat width < unat width" using w by simp
  ultimately show ?thesis by (simp add: word_less_nat_alt)
qed

lemma checkpoint_loop_returns:
  assumes "0 < width" and "unat head + unat width < 2 ^ 64"
  shows "\<exists>r. checkpoint_loop width head digests k lastb s = Some r"
proof (induction "unat head - unat lastb" arbitrary: lastb s rule: less_induct)
  case less
  let ?n = "saturating_add lastb width" let ?t = "saturating_sub ?n (?n mod width)"
  have sub: "?t = ?n - ?n mod width"
    by (simp add: saturating_sub_def word_le_nat_alt unat_mod_distrib)
  show ?case
  proof (cases "?t > head \<or> digests ?t = None")
    case True
    then show ?thesis by (subst checkpoint_loop.simps) (auto simp: Let_def)
  next
    case False
    then obtain d where d: "\<not> ?t > head" "digests ?t = Some d" by auto
    show ?thesis
    proof (cases "head < lastb")
      case True
      then have f: False if "unat lastb + unat width < 2 ^ 64"
        using next_boundary [OF assms(1) that] d(1) sub by auto
      have "unat ?n \<ge> 2 ^ 64 - 1 \<or> unat lastb + unat width < 2 ^ 64"
        by (simp add: unat_saturating_add min_def)
      with f have big: "unat ?n = 2 ^ 64 - 1" using unat_less_2p [of ?n] by auto
      have "unat ?t = unat ?n - unat ?n mod unat width"
        by (simp add: sub unat_sub word_le_nat_alt unat_mod_distrib)
      moreover have "unat ?n mod unat width < unat width" using assms(1) by (simp add: word_less_nat_alt)
      ultimately have "unat head < unat ?t" using big assms(2) by linarith
      with d(1) show ?thesis by (simp add: word_less_nat_alt)
    next
      case ge: False
      then have b: "unat lastb + unat width < 2 ^ 64" using assms(2) by (simp add: word_less_nat_alt)
      have lt: "lastb < ?t" using next_boundary [OF assms(1) b] by (simp add: sub)
      have "unat head - unat ?t < unat head - unat lastb"
        using lt d(1) by (simp add: word_less_nat_alt)
      from less [OF this] d show ?thesis
        by (subst checkpoint_loop.simps) (simp add: Let_def)
    qed
  qed
qed

section \<open>The checkpoint maps\<close>

text \<open>The buckets index exactly the checkpoints, the last checkpoint is stored, and no checkpoint
  lies above it.\<close>

definition store_ok :: "('c, 'z) StoreState_scheme \<Rightarrow> ChainKey \<Rightarrow> bool" where
  "store_ok s k \<longleftrightarrow>
    (\<forall>p h. (k, p, h) \<in> CheckpointBuckets s \<longleftrightarrow> Checkpoints s k h \<noteq> None \<and> p = compute_block_index_for h) \<and>
    (case LastCheckpoint s k of None \<Rightarrow> Checkpoints s k = Map.empty
     | Some c \<Rightarrow> Checkpoints s k (cp_block_number c) = Some (cp_digest c) \<and>
         (\<forall>h. Checkpoints s k h \<noteq> None \<longrightarrow> h \<le> cp_block_number c))"

lemma store_ok_same:
  assumes "store_ok s k" and "Checkpoints s' = Checkpoints s" "CheckpointBuckets s' = CheckpointBuckets s"
    "LastCheckpoint s' = LastCheckpoint s"
  shows "store_ok s' k"
  using assms(1) unfolding store_ok_def assms(2-4) .

lemma record_ok:
  assumes "store_ok s k" and "\<And>c0. LastCheckpoint s k = Some c0 \<Longrightarrow> cp_block_number c0 \<le> cp_block_number c"
  shows "store_ok (record_checkpoint k c s) k"
proof -
  have b: "(k, p, h) \<in> CheckpointBuckets s \<longleftrightarrow> Checkpoints s k h \<noteq> None \<and> p = compute_block_index_for h" for p h
    using assms(1) by (simp add: store_ok_def)
  have le: "h \<le> cp_block_number c" if "Checkpoints s k h \<noteq> None" for h
  proof (cases "LastCheckpoint s k")
    case None
    with assms(1) that show ?thesis by (simp add: store_ok_def)
  next
    case (Some c0)
    with assms(1) that have "h \<le> cp_block_number c0" by (simp add: store_ok_def)
    with assms(2) [OF Some] show ?thesis by simp
  qed
  show ?thesis using b le by (auto simp: store_ok_def)
qed

definition tip :: "('c, 'z) StoreState_scheme \<Rightarrow> ChainKey \<Rightarrow> u64 option" where
  "tip s k = map_option cp_block_number (LastCheckpoint s k)"

lemma tip_record [simp]: "tip (record_checkpoint k c s) k = Some (cp_block_number c)"
  by (simp add: tip_def)

lemma record_ok_tip:
  "store_ok s k \<Longrightarrow> tip s k = Some b \<Longrightarrow> b \<le> cp_block_number c \<Longrightarrow> store_ok (record_checkpoint k c s) k"
  by (rule record_ok) (auto simp: tip_def)

lemma checkpoint_loop_ok:
  assumes "0 < width" and "unat head + unat width < 2 ^ 64"
    and "checkpoint_loop width head digests k lastb s = Some (Inr (l', s'))"
    and "store_ok s k" and "tip s k = Some lastb" and "lastb \<le> head"
  shows "store_ok s' k \<and> tip s' k = Some l' \<and> lastb \<le> l' \<and> l' \<le> head \<and>
    LastDigest s' = LastDigest s \<and> CheckpointingQueues s' = CheckpointingQueues s"
  using assms(3-6)
proof (induction "unat head - unat lastb" arbitrary: lastb s rule: less_induct)
  case less
  let ?n = "saturating_add lastb width" let ?t = "saturating_sub ?n (?n mod width)"
  have sub: "?t = ?n - ?n mod width"
    by (simp add: saturating_sub_def word_le_nat_alt unat_mod_distrib)
  have b: "unat lastb + unat width < 2 ^ 64" using assms(2) less.prems(4) by (simp add: word_le_nat_alt)
  have lt: "lastb < ?t" using next_boundary [OF assms(1) b] by (simp add: sub)
  show ?case
  proof (cases "?t > head")
    case True
    then have "l' = lastb" "s' = s"
      using less.prems(1) by (auto simp: checkpoint_loop.simps [of width head digests k lastb s] Let_def)
    with less.prems show ?thesis by simp
  next
    case False
    then obtain d where d: "digests ?t = Some d"
      and r: "checkpoint_loop width head digests k ?t
        (record_checkpoint k \<lparr>cp_block_number = ?t, cp_digest = d\<rparr> s) = Some (Inr (l', s'))"
      using less.prems(1)
      by (auto simp: checkpoint_loop.simps [of width head digests k lastb s] Let_def split: option.split_asm)
    have m: "unat head - unat ?t < unat head - unat lastb"
      using lt False by (simp add: word_less_nat_alt)
    have "store_ok (record_checkpoint k \<lparr>cp_block_number = ?t, cp_digest = d\<rparr> s) k"
      using less.prems(2,3) lt by (intro record_ok_tip) auto
    note ih = less.hyps [OF m r this]
    have "?t \<le> head" using False by simp
    with ih lt show ?thesis by auto
  qed
qed

lemma width_frame [simp]:
  "checkpoint_width cfg (store_attestation kc now k a c s) = checkpoint_width cfg s"
  "attestation_chain_genesis_block_number cfg (store_attestation kc now k a c s) =
    attestation_chain_genesis_block_number cfg s"
  by (simp_all add: fun_eq_iff checkpoint_width_def chain_attestation_interval_def attestation_checkpoint_interval_def
      attestation_chain_genesis_block_number_def store_attestation_def deposit_event_def Let_def)

lemma store_attestation_fields [simp]:
  "Checkpoints (store_attestation kc now k a c s) = Checkpoints s"
  "CheckpointBuckets (store_attestation kc now k a c s) = CheckpointBuckets s"
  "LastCheckpoint (store_attestation kc now k a c s) = LastCheckpoint s"
  "CheckpointingQueues (store_attestation kc now k a c s) = CheckpointingQueues s"
  "tip (store_attestation kc now k a c s) = tip s"
  by (simp_all add: store_attestation_def Let_def tip_def fun_eq_iff)

lemma try_make_ok:
  assumes "try_make_checkpoint w kc cfg queue k n s = (q, Inr s')" and "store_ok s k"
    and "\<And>b. tip s k = Some b \<Longrightarrow> b \<le> n" and "2 * unat (checkpoint_width cfg s k) + 1 < 2 ^ 64"
  shows "store_ok s' k \<and> (\<forall>b. tip s' k = Some b \<longrightarrow> b \<le> n) \<and> LastDigest s' = LastDigest s \<and>
    CheckpointingQueues s' = CheckpointingQueues s \<and> length q \<le> length queue"
proof -
  let ?w = "checkpoint_width cfg s k"
  obtain c where c: "LastCheckpoint s k = Some c" and w: "?w > 0"
    using assms(1) by (auto simp: try_make_checkpoint_def Let_def split: option.split_asm if_splits prod.split_asm sum.split_asm)
  let ?b = "cp_block_number c"
  have t: "tip s k = Some ?b" by (simp add: tip_def c)
  show ?thesis
  proof (cases "saturating_sub n ?b < ?w * 2 + 1")
    case True
    with assms c w show ?thesis by (auto simp: try_make_checkpoint_def Let_def)
  next
    case False
    let ?n = "saturating_add ?b ?w"
    obtain c' r where cl: "condense_loop w kc (Attestations s k) (?n - ?n mod ?w) queue [] (attestation_removal_queue s k) = (q, Inr (c', r))"
      and s': "s' = remove_attestations cfg k r (record_checkpoint k c' s)"
      using assms(1) c w False
      by (auto simp: try_make_checkpoint_def Let_def split: prod.split_asm sum.split_asm)
    have "unat (?w * 2 + 1) = 2 * unat ?w + 1"
      using assms(4) by (subst unat_add_lem [THEN iffD1]; subst unat_mult_lem [THEN iffD1]; simp)
    with False have "2 * unat ?w + 1 \<le> unat n - unat ?b"
      by (simp add: word_less_nat_alt unat_saturating_sub)
    then have room: "unat ?b + unat ?w \<le> unat n" by linarith
    then have b: "unat ?b + unat ?w < 2 ^ 64" using unat_less_2p [of n] by simp
    note lt = next_boundary [OF w b]
    have blk: "cp_block_number c' = ?n - ?n mod ?w" and q: "length q \<le> length queue"
      using condense_loop_success [OF cl] by auto
    have "unat (?n - ?n mod ?w) \<le> unat ?n" by (simp add: unat_sub word_le_nat_alt unat_mod_distrib)
    also have "unat ?n \<le> unat n" using room b by (simp add: unat_saturating_add)
    finally have "cp_block_number c' \<le> n" by (simp add: blk word_le_nat_alt)
    moreover have "store_ok (record_checkpoint k c' s) k"
      using lt by (intro record_ok_tip [OF assms(2) t]) (simp add: blk)
    ultimately show ?thesis
      using q by (auto simp: s' tip_def intro: store_ok_same)
  qed
qed

section \<open>A commit as a whole\<close>

definition queue_bounded :: "PalletConfig \<Rightarrow> ('c, 'z) StoreState_scheme \<Rightarrow> ChainKey \<Rightarrow> bool" where
  "queue_bounded cfg s k \<longleftrightarrow> length (checkpointing_queue s k) \<le> unat (MaxCheckpointingQueueLen cfg)"

definition commit_room :: "PalletConfig \<Rightarrow> ('c, 'z) StoreState_scheme \<Rightarrow> SignedAttestation \<Rightarrow> bool" where
  "commit_room cfg s a \<longleftrightarrow>
    unat (sa_header_number a) + 2 * unat (checkpoint_width cfg s (sa_chain_key a)) + 1 < 2 ^ 64"

lemma checkpoint_at_ok:
  assumes "store_ok s k" and "\<And>b. tip s k = Some b \<Longrightarrow> b \<le> n"
  shows "store_ok (checkpoint_at_attestation cfg k n d q s) k"
    and "LastDigest (checkpoint_at_attestation cfg k n d q s) = LastDigest s"
    and "queue_bounded cfg (checkpoint_at_attestation cfg k n d q s) k"
proof -
  have "store_ok (record_checkpoint k \<lparr>cp_block_number = n, cp_digest = d\<rparr> s) k"
    using assms by (intro record_ok) (auto simp: tip_def)
  then show "store_ok (checkpoint_at_attestation cfg k n d q s) k"
    by (rule store_ok_same) (simp_all add: checkpoint_at_attestation_def Let_def)
qed (simp_all add: checkpoint_at_attestation_def Let_def queue_bounded_def checkpointing_queue_def)

lemma queue_attestation_ok:
  assumes "store_ok s k" and "\<And>b. tip s k = Some b \<Longrightarrow> b \<le> n"
    and "2 * unat (checkpoint_width cfg s k) + 1 < 2 ^ 64"
  shows "store_ok (queue_attestation w kc cfg k n d s) k \<and>
    LastDigest (queue_attestation w kc cfg k n d s) = LastDigest s \<and>
    queue_bounded cfg (queue_attestation w kc cfg k n d s) k"
proof -
  obtain q r where r: "try_make_checkpoint w kc cfg (checkpointing_queue s k @ [d]) k n s = (q, r)"
    by (cases "try_make_checkpoint w kc cfg (checkpointing_queue s k @ [d]) k n s")
  define s1 where "s1 = (case r of Inl _ \<Rightarrow> s | Inr s' \<Rightarrow> s')"
  have "store_ok s1 k \<and> (\<forall>b. tip s1 k = Some b \<longrightarrow> b \<le> n) \<and> LastDigest s1 = LastDigest s"
  proof (cases r)
    case (Inl e)
    with assms(1,2) show ?thesis by (simp add: s1_def)
  next
    case (Inr s')
    from try_make_ok [OF r [unfolded Inr] assms] show ?thesis by (simp add: s1_def Inr)
  qed
  then have s1: "store_ok s1 k" "\<And>b. tip s1 k = Some b \<Longrightarrow> b \<le> n" "LastDigest s1 = LastDigest s" by blast+
  have eq: "queue_attestation w kc cfg k n d s =
      (if length q > unat (MaxCheckpointingQueueLen cfg) then checkpoint_at_attestation cfg k n d q s1
       else s1\<lparr>CheckpointingQueues := (CheckpointingQueues s1)(k \<mapsto> q)\<rparr>)"
    by (simp add: queue_attestation_def r s1_def Let_def)
  show ?thesis
  proof (cases "length q > unat (MaxCheckpointingQueueLen cfg)")
    case True
    with checkpoint_at_ok [OF s1(1,2), where cfg = cfg] s1(3) show ?thesis by (simp add: eq)
  next
    case False
    have "store_ok (s1\<lparr>CheckpointingQueues := (CheckpointingQueues s1)(k \<mapsto> q)\<rparr>) k"
      by (rule store_ok_same [OF s1(1)]) simp_all
    with False s1(3) show ?thesis by (simp add: eq queue_bounded_def checkpointing_queue_def)
  qed
qed

lemma checkpoint_loop_stays:
  assumes "0 < width" and "unat head + unat width < 2 ^ 64"
    and r: "checkpoint_loop width head digests k lastb s = Some (Inr (l', s'))"
    and "store_ok s k" and "tip s k = Some lastb" and "lastb \<le> head" and "l' = lastb"
  shows "s' = s"
proof -
  let ?n = "saturating_add lastb width" let ?t = "saturating_sub ?n (?n mod width)"
  have b: "unat lastb + unat width < 2 ^ 64" using assms(2,6) by (simp add: word_le_nat_alt)
  have lt: "lastb < ?t"
    using next_boundary [OF assms(1) b] by (simp add: saturating_sub_def word_le_nat_alt unat_mod_distrib)
  have "?t > head"
  proof (rule ccontr)
    assume le: "\<not> ?t > head"
    then obtain d where r': "checkpoint_loop width head digests k ?t
        (record_checkpoint k \<lparr>cp_block_number = ?t, cp_digest = d\<rparr> s) = Some (Inr (l', s'))"
      using r by (auto simp: checkpoint_loop.simps [of width head digests k lastb s] Let_def split: option.split_asm)
    have "store_ok (record_checkpoint k \<lparr>cp_block_number = ?t, cp_digest = d\<rparr> s) k"
      using assms(4,5) lt by (intro record_ok_tip) auto
    from checkpoint_loop_ok [OF assms(1,2) r' this] le have "?t \<le> l'" by simp
    with lt assms(7) show False by simp
  qed
  with r show ?thesis by (auto simp: checkpoint_loop.simps [of width head digests k lastb s] Let_def)
qed

lemma create_from_proof_ok:
  assumes "create_checkpoints_from_continuity_proof w kc cfg k a d s = Some (Inr (b, s'))"
    and "store_ok s k" and "\<And>b. tip s k = Some b \<Longrightarrow> b \<le> sa_header_number a"
    and "unat (sa_header_number a) + unat (checkpoint_width cfg s k) < 2 ^ 64"
  shows "store_ok s' k \<and> LastDigest s' = LastDigest s \<and> (b \<longrightarrow> queue_bounded cfg s' k) \<and> (\<not> b \<longrightarrow> s' = s)"
proof (cases "s' = s \<and> \<not> b")
  case True
  with assms(2) show ?thesis by simp
next
  case other: False
  let ?w = "checkpoint_width cfg s k"
  have c: "create_checkpoints_from_queue kc cfg k a d (checkpointing_queue s k) s = Some (Inr (b, s'))" and w: "?w > 0"
    using assms(1) other by (auto simp: create_checkpoints_from_continuity_proof_def Let_def split: if_splits)
  obtain c0 lb s1 where c0: "LastCheckpoint s k = Some c0"
    and loop: "checkpoint_loop ?w (sa_header_number a)
      (boundary_digests kc (Attestations s k) a d (checkpointing_queue s k)) k (cp_block_number c0) s = Some (Inr (lb, s1))"
    and r: "(if lb \<noteq> cp_block_number c0 then
        (let s2 = remove_attestations cfg k (attestation_removal_queue s k @ checkpointing_queue s k @ [d]) s1 in
         (True, s2\<lparr>CheckpointingQueues := (CheckpointingQueues s2)(k := None)\<rparr>)) else (False, s1)) = (b, s')"
    using c w by (auto simp: create_checkpoints_from_queue_def Let_def
        split: option.split_asm sum.split_asm prod.split_asm if_splits)
  have t: "tip s k = Some (cp_block_number c0)" by (simp add: tip_def c0)
  note l = checkpoint_loop_ok [OF w assms(4) loop assms(2) t assms(3) [OF t]]
  have same: "lb = cp_block_number c0 \<Longrightarrow> s1 = s"
    using checkpoint_loop_stays [OF w assms(4) loop assms(2) t assms(3) [OF t]] .
  show ?thesis
  proof (cases "lb = cp_block_number c0")
    case True
    with r other same show ?thesis by auto
  next
    case False
    then have b: "b" and s': "s' = (remove_attestations cfg k (attestation_removal_queue s k @ checkpointing_queue s k @ [d]) s1)
        \<lparr>CheckpointingQueues := (CheckpointingQueues s1)(k := None)\<rparr>"
      using r by (auto simp: Let_def)
    have "store_ok s' k" by (rule store_ok_same [OF conjunct1 [OF l]]) (simp_all add: s')
    with l b show ?thesis by (simp add: s' queue_bounded_def checkpointing_queue_def)
  qed
qed

lemma duplicate_free:
  assumes "\<not> check_duplicate kc s a"
  shows "\<And>b. tip s (sa_chain_key a) = Some b \<Longrightarrow> b < sa_header_number a"
    and "\<And>h d. LastDigest s (sa_chain_key a) = Some (h, d) \<Longrightarrow> h < sa_header_number a"
  using assms by (auto simp: check_duplicate_def tip_def Let_def split: if_splits)

lemma LastDigest_store:
  assumes "\<And>h d. LastDigest s k = Some (h, d) \<Longrightarrow> h < sa_header_number a"
  shows "LastDigest (store_attestation kc now k a c s) = (LastDigest s)(k \<mapsto> (sa_header_number a, sa_digest kc a))"
  using assms by (cases "LastDigest s k") (auto simp: store_attestation_def Let_def)

lemma commit_ok:
  assumes "commit_attestation w kc bls cfg supp now origin a s = Some (Inr s')"
    and "store_ok s (sa_chain_key a)" and "commit_room cfg s a"
  shows "store_ok s' (sa_chain_key a) \<and> LastDigest s' = (LastDigest s)(sa_chain_key a \<mapsto> (sa_header_number a, sa_digest kc a)) \<and>
    (queue_bounded cfg s (sa_chain_key a) \<longrightarrow> queue_bounded cfg s' (sa_chain_key a))"
proof -
  let ?k = "sa_chain_key a" and ?n = "sa_header_number a" and ?d = "sa_digest kc a"
  define s1 where "s1 = store_attestation kc now ?k a (committed_this_block now s ?k) s"
  note v = validate_Inr [OF commit_validates(1) [OF assms(1)]]
  note dup = duplicate_free [OF v(3)]
  have LD: "LastDigest s1 = (LastDigest s)(?k \<mapsto> (?n, ?d))"
    unfolding s1_def by (rule LastDigest_store) (rule dup(2))
  have ok1: "store_ok s1 ?k" by (rule store_ok_same [OF assms(2)]) (simp_all add: s1_def)
  have t1: "b \<le> ?n" if "tip s1 ?k = Some b" for b using dup(1) [of b] that by (simp add: s1_def)
  have w1: "checkpoint_width cfg s1 ?k = checkpoint_width cfg s ?k" by (simp add: s1_def)
  have room: "unat ?n + unat (checkpoint_width cfg s1 ?k) < 2 ^ 64"
    "2 * unat (checkpoint_width cfg s1 ?k) + 1 < 2 ^ 64"
    using assms(3) by (simp_all add: commit_room_def w1)
  have q1: "queue_bounded cfg s1 ?k = queue_bounded cfg s ?k"
    by (simp add: queue_bounded_def checkpointing_queue_def s1_def)
  have run: "(if Checkpoints s1 ?k = Map.empty then Some (first_checkpoint cfg ?k ?n ?d s1)
      else case create_checkpoints_from_continuity_proof w kc cfg ?k a ?d s1 of
            None \<Rightarrow> None
          | Some (Inl e) \<Rightarrow> Some (Inl e)
          | Some (Inr (True, s2)) \<Rightarrow> Some (Inr s2)
          | Some (Inr (False, s2)) \<Rightarrow> Some (Inr (queue_attestation w kc cfg ?k ?n ?d s2))) = Some (Inr s')"
    using commit_validates [OF assms(1)]
    by (simp add: do_commit_attestation_def Let_def s1_def [symmetric] split: if_splits)
  show ?thesis
  proof (cases "Checkpoints s1 ?k = Map.empty")
    case True
    have "store_ok (record_checkpoint ?k \<lparr>cp_block_number = ?n, cp_digest = ?d\<rparr> s1) ?k"
      using t1 by (intro record_ok [OF ok1]) (simp add: tip_def)
    then have "store_ok s' ?k" "LastDigest s' = LastDigest s1" "queue_bounded cfg s' ?k = queue_bounded cfg s1 ?k"
      using run True by (auto simp: first_checkpoint_def Let_def queue_bounded_def checkpointing_queue_def
          split: if_splits intro: store_ok_same)
    with LD q1 show ?thesis by simp
  next
    case False
    then obtain b s2 where c: "create_checkpoints_from_continuity_proof w kc cfg ?k a ?d s1 = Some (Inr (b, s2))"
      and s': "s' = (if b then s2 else queue_attestation w kc cfg ?k ?n ?d s2)"
      using run by (auto split: option.split_asm sum.split_asm bool.split_asm)
    note p = create_from_proof_ok [OF c ok1 t1 room(1)]
    show ?thesis
    proof (cases b)
      case True
      with p LD s' show ?thesis by simp
    next
      case False
      with p s' queue_attestation_ok [OF ok1 t1 room(2), of w kc ?d] LD show ?thesis by simp
    qed
  qed
qed

section \<open>An example commit\<close>

definition store_default :: "'c \<Rightarrow> 'c StoreState" where
  "store_default c = RegistryState.extend (registry_default c)
     (StoreState.fields (\<lambda>_. Map.empty) (\<lambda>_. Map.empty) {} Map.empty Map.empty Map.empty Map.empty Map.empty
        Map.empty Map.empty Map.empty Map.empty Map.empty)"

definition signing_bls :: "(BlsPublicKey, BlsSignature) Bls" where
  "signing_bls = accepting_bls\<lparr>pk_as_bytes := (\<lambda>_. replicate 48 0), aggregate_public_keys := (\<lambda>_. Some 0)\<rparr>"

text \<open>A chain with one active attestor and a checkpoint at height 0, and its next attestation, at
  height 10, with a proof of the nine blocks in between.\<close>

definition example_store :: "lock_table StoreState" where
  "example_store = (store_default (\<lambda>_. []))\<lparr>
     Attestors := (\<lambda>_. [2 \<mapsto> \<lparr>bls_public_key = Some 99, status = Active, stash = 1\<rparr>]), ActiveAttestors := [7 \<mapsto> [2]],
     Checkpoints := (\<lambda>k. if k = 7 then [0 \<mapsto> 5] else Map.empty), CheckpointBuckets := {(7, 0, 0)},
     LastCheckpoint := [7 \<mapsto> \<lparr>cp_block_number = 0, cp_digest = 5\<rparr>], LastDigest := [7 \<mapsto> (0, 5)]\<rparr>"

definition example_attestation :: SignedAttestation where
  "example_attestation = \<lparr>
     attestation = \<lparr>att_chain_key = 7, att_header_number = 10, att_header_hash = 0, att_root = 3, att_prev_digest = Some 77\<rparr>,
     signature = 1, attestors = [2],
     continuity_proof = \<lparr>lower_endpoint_digest = 5, roots = [4, 4, 4, 4, 4, 4, 4, 4, 4]\<rparr>\<rparr>"

lemma example_store_simps [simp]:
  "Attestors example_store = (\<lambda>_. [2 \<mapsto> \<lparr>bls_public_key = Some 99, status = Active, stash = 1\<rparr>])"
  "active_attestor_set example_store 7 = [2]" "RetiredAttestorBlsKeys example_store = (\<lambda>_. Map.empty)"
  "Checkpoints example_store = (\<lambda>k. if k = 7 then [0 \<mapsto> 5] else Map.empty)"
  "CheckpointBuckets example_store = {(7, 0, 0)}"
  "LastCheckpoint example_store = [7 \<mapsto> \<lparr>cp_block_number = 0, cp_digest = 5\<rparr>]"
  "LastDigest example_store = [7 \<mapsto> (0, 5)]" "Attestations example_store = (\<lambda>_. Map.empty)"
  "AttestationClearingCursors example_store = Map.empty" "CheckpointPruningStates example_store = Map.empty"
  "AttestationsInBlock example_store = Map.empty" "CheckpointingQueues example_store = Map.empty"
  "max_attestors example_pallet_config example_store k = 100"
  "chain_attestation_interval example_pallet_config example_store k = 10"
  "attestation_checkpoint_interval example_pallet_config example_store k = 10"
  "max_catchup example_pallet_config example_store k = 1000"
  "attestation_chain_genesis_block_number example_pallet_config example_store k = 0"
  by (simp_all add: example_store_def store_default_def registry_default_def RegistryState.defs StoreState.defs
      LedgerState.defs ParamsState.defs params_default_def counts max_attestors_def chain_attestation_interval_def
      attestation_checkpoint_interval_def max_catchup_def attestation_chain_genesis_block_number_def
      example_pallet_config_def)

lemma example_attestation_simps [simp]:
  "sa_chain_key example_attestation = 7" "sa_header_number example_attestation = 10"
  "sa_prev_digest example_attestation = Some 77" "attestors example_attestation = [2]"
  "continuity_proof example_attestation = \<lparr>lower_endpoint_digest = 5, roots = [4, 4, 4, 4, 4, 4, 4, 4, 4]\<rparr>"
  "sa_digest (\<lambda>_. 77) example_attestation = 77"
  by (simp_all add: example_attestation_def sa_chain_key_def sa_header_number_def sa_prev_digest_def
      sa_digest_def att_digest_def compute_digest_for_def)

lemma example_width: "checkpoint_width example_pallet_config example_store 7 = 100"
  by (simp add: checkpoint_width_def saturating_mul_def)

lemma example_store_ok: "store_ok example_store 7"
  by (auto simp: store_ok_def compute_block_index_for_def CHECKPOINT_BUCKET_SIZE_def)

lemma example_room: "commit_room example_pallet_config example_store example_attestation"
  by (simp add: commit_room_def example_width)

lemma example_continuity:
  "validate_attestation_continuity 32 (\<lambda>_. 77) example_pallet_config example_store example_attestation = Inr ()"
  by (simp add: validate_attestation_continuity_def Let_def last_digest_def start_block_number_def saturating_sub_def
      len64_def tail_prev_digest_def linked_header_def get_attestation_def attestations_stable_def checked_sub_def
      as_usize_def compute_continuity_digest_def hash_payload_def compute_digest_for_def)

lemma example_validates:
  "validate_attestation 32 (\<lambda>_. 77) signing_bls example_pallet_config (\<lambda>_. True) 7 example_store example_attestation = Inr ()"
  by (simp add: validate_attestation_def commit_blocked_by_cleanup_def attestors_within_bound_def len32_def
      check_duplicate_def Let_def saturating_add_def eligible_attestors_def btree_set_def calculate_quorum_def
      calculate_threshold_def saturating_mul_def validate_signature_def signing_bls_def accepting_bls_def
      attestor_bls_pubkey_def example_continuity)

lemma example_commit:
  "\<exists>s'. commit_attestation 32 (\<lambda>_. 77) signing_bls example_pallet_config (\<lambda>_. True) 1 (Signed 2)
     example_attestation example_store = Some (Inr s')"
proof -
  let ?s1 = "store_attestation (\<lambda>_. 77) 1 7 example_attestation 0 example_store"
  have "create_checkpoints_from_continuity_proof 32 (\<lambda>_. 77) example_pallet_config 7 example_attestation 77 ?s1 =
      Some (Inr (False, ?s1))"
    by (simp add: create_checkpoints_from_continuity_proof_def Let_def example_width as_usize_def)
  moreover have "0 < MaxAttestationsPerBlock example_pallet_config" by (simp add: example_pallet_config_def)
  ultimately show ?thesis
    by (simp add: commit_attestation_def do_commit_attestation_def Let_def example_validates committed_this_block_def)
qed

section \<open>Properties\<close>

text \<open>C3: An attestation is committed only with a quorum.  The active attestors among its signers
  number at least the quorum of the active set, and its aggregated signature verifies on its
  serialised data under the aggregate of pairwise different public keys, at least a quorum of
  them, each of which is the key of one of those active signers.\<close>

theorem committed_attestation_has_quorum:
  assumes "commit_attestation w kc bls cfg supp now origin a s = Some (Inr s')"
    and "card (set (active_attestor_set s (sa_chain_key a))) < 2 ^ 32"
  shows "unat (calculate_quorum (of_nat (card (set (active_attestor_set s (sa_chain_key a)))))) \<le>
      card (set (attestors a) \<inter> set (active_attestor_set s (sa_chain_key a))) \<and>
    (\<exists>sg ks agg. sig_from_bytes bls (signature a) = Some sg \<and> distinct (map (pk_as_bytes bls) ks) \<and>
      calculate_quorum (of_nat (card (set (active_attestor_set s (sa_chain_key a))))) \<le> len32 ks \<and>
      (\<forall>pk\<in>set ks. \<exists>b. b \<in> set (attestors a) \<and> is_attestor s (sa_chain_key a) b \<and>
        (\<exists>key. signer_key s (sa_chain_key a) b = Some key \<and> pk_from_bytes bls key = Some pk)) \<and>
      aggregate_public_keys bls ks = Some agg \<and>
      verify_agg_message bls sg (att_serialize (attestation a)) agg)"
proof -
  let ?act = "active_attestor_set s (sa_chain_key a)"
  note v = validate_Inr [OF commit_validates(1) [OF assms(1)]]
  have len: "len32 (btree_set ?act) = of_nat (card (set ?act))" by (simp add: len32_def length_btree_set)
  have el: "length (eligible_attestors s a) = card (set (attestors a) \<inter> set ?act)"
    using distinct_card [OF distinct_eligible, of s a] by (simp add: set_eligible)
  have "card (set (attestors a) \<inter> set ?act) \<le> card (set ?act)" by (simp add: card_mono)
  then have "unat (len32 (eligible_attestors s a)) = card (set (attestors a) \<inter> set ?act)"
    using assms(2) by (simp add: unat_len32 el)
  moreover have "unat (calculate_quorum (of_nat (card (set ?act)))) \<le> unat (len32 (eligible_attestors s a))"
    using v(4) by (simp add: len word_le_nat_alt)
  ultimately show ?thesis
    using validate_signature_Inr [OF v(5)] unfolding len set_eligible is_attestor_def by (simp add: Bex_def conj_assoc)
qed

theorem committed_attestation_has_quorum_witness:
  "unat (calculate_quorum (of_nat (card (set (active_attestor_set example_store 7))))) \<le>
    card (set (attestors example_attestation) \<inter> set (active_attestor_set example_store 7))"
proof -
  obtain s' where "commit_attestation 32 (\<lambda>_. 77) signing_bls example_pallet_config (\<lambda>_. True) 1 (Signed 2)
      example_attestation example_store = Some (Inr s')"
    using example_commit by blast
  from committed_attestation_has_quorum [OF this] show ?thesis by simp
qed

text \<open>C4: A committed attestation above the genesis height extends the finalised chain.  The last
  finalised digest stands for a known height, the attestation's height is one above it plus the
  length of its continuity proof, and its previous digest is the last finalised digest itself or,
  with a proof, the digest computed block by block from it through the roots of the proof.\<close>

theorem commit_extends_digest_chain:
  assumes "commit_attestation w kc bls cfg supp now origin a s = Some (Inr s')"
    and "sa_header_number a \<noteq> attestation_chain_genesis_block_number cfg s (sa_chain_key a)"
  shows "\<exists>prev ld h e. sa_prev_digest a = Some prev \<and> last_digest s (sa_chain_key a) = Some ld \<and>
    linked_header s (sa_chain_key a) ld e = Inr h \<and>
    sa_header_number a = h + 1 + of_nat (length (roots (continuity_proof a))) \<and>
    (if roots (continuity_proof a) = [] then prev = ld
     else lower_endpoint_digest (continuity_proof a) = ld \<and>
       compute_continuity_digest kc (continuity_proof a) (h + 1) = prev)"
  using continuity_Inr [OF validate_Inr(6) [OF commit_validates(1) [OF assms(1)]] assms(2)] .

theorem commit_extends_digest_chain_witness:
  "last_digest example_store 7 = Some (lower_endpoint_digest (continuity_proof example_attestation))"
proof -
  obtain s' where "commit_attestation 32 (\<lambda>_. 77) signing_bls example_pallet_config (\<lambda>_. True) 1 (Signed 2)
      example_attestation example_store = Some (Inr s')"
    using example_commit by blast
  from commit_extends_digest_chain [OF this] show ?thesis by auto
qed

text \<open>C13: A commit keeps the checkpoint maps of its chain consistent: the buckets index exactly
  the checkpoints and none lies above the last one.  The committed height is strictly above the
  last digest, by at least the attestation interval, and above the last checkpoint, and it becomes
  the last digest of its chain, while the other chains keep theirs.\<close>

theorem commit_advances_consistently:
  assumes "commit_attestation w kc bls cfg supp now origin a s = Some (Inr s')"
    and "store_ok s (sa_chain_key a)" and "commit_room cfg s a"
  shows "store_ok s' (sa_chain_key a) \<and>
    LastDigest s' = (LastDigest s)(sa_chain_key a \<mapsto> (sa_header_number a, sa_digest kc a)) \<and>
    (\<forall>h d. LastDigest s (sa_chain_key a) = Some (h, d) \<longrightarrow> h < sa_header_number a \<and>
      saturating_add h (chain_attestation_interval cfg s (sa_chain_key a)) \<le> sa_header_number a) \<and>
    (\<forall>c. LastCheckpoint s (sa_chain_key a) = Some c \<longrightarrow> cp_block_number c < sa_header_number a)"
proof -
  note v = validate_Inr [OF commit_validates(1) [OF assms(1)]]
  show ?thesis
    using commit_ok [OF assms] duplicate_free [OF v(3)] v(7) by (auto simp: tip_def)
qed

theorem commit_advances_consistently_witness:
  "\<exists>s'. commit_attestation 32 (\<lambda>_. 77) signing_bls example_pallet_config (\<lambda>_. True) 1 (Signed 2)
     example_attestation example_store = Some (Inr s') \<and> store_ok s' 7 \<and> LastDigest s' 7 = Some (10, 77)"
proof -
  obtain s' where s': "commit_attestation 32 (\<lambda>_. 77) signing_bls example_pallet_config (\<lambda>_. True) 1 (Signed 2)
      example_attestation example_store = Some (Inr s')"
    using example_commit by blast
  from commit_advances_consistently [OF this _ example_room] example_store_ok s' show ?thesis by simp
qed

text \<open>C32: A commit always returns, with a result or an error, when the attested height is at
  least a checkpoint width below the largest height: the loop that creates the checkpoints
  reaches the head of the attestation.\<close>

theorem commit_returns:
  assumes "unat (sa_header_number a) + unat (checkpoint_width cfg s (sa_chain_key a)) < 2 ^ 64"
  shows "\<exists>r. commit_attestation w kc bls cfg supp now origin a s = Some r"
proof -
  let ?k = "sa_chain_key a"
  have c: "\<exists>r. create_checkpoints_from_continuity_proof w kc cfg ?k a d (store_attestation kc now ?k a n s) = Some r" for d n
  proof -
    let ?s = "store_attestation kc now ?k a n s"
    have "\<exists>r. checkpoint_loop (checkpoint_width cfg ?s ?k) (sa_header_number a) m ?k b ?s = Some r"
      if "0 < checkpoint_width cfg ?s ?k" for m b
      by (rule checkpoint_loop_returns [OF that]) (use assms in simp)
    then show ?thesis
      unfolding create_checkpoints_from_continuity_proof_def create_checkpoints_from_queue_def Let_def
      by (auto split: option.split sum.split) (metis option.distinct(1))+
  qed
  have "\<exists>r. do_commit_attestation w kc bls cfg supp now a s = Some r"
    using c [of "sa_digest kc a" "committed_this_block now s ?k"]
    by (auto simp: do_commit_attestation_def Let_def split: sum.split prod.split bool.split)
  then show ?thesis by (auto simp: commit_attestation_def split: Origin.split option.split sum.split)
qed

theorem commit_returns_witness:
  "\<exists>r. commit_attestation 32 (\<lambda>_. 77) signing_bls example_pallet_config (\<lambda>_. True) 1 (Signed 3)
     example_attestation example_store = Some r"
  by (rule commit_returns) (simp add: example_width)

text \<open>C38: A checkpoint that cannot be created changes nothing: whenever the queue-based
  checkpointing fails, the queue it hands back is the queue it was given, in its order.\<close>

theorem failed_checkpoint_keeps_queue:
  assumes "try_make_checkpoint w kc cfg queue k n s = (q, Inl e)"
  shows "q = queue"
  using assms condense_loop_error
  by (fastforce simp: try_make_checkpoint_def Let_def split: option.split_asm if_splits prod.split_asm sum.split_asm)

theorem failed_checkpoint_keeps_queue_witness:
  "fst (try_make_checkpoint 32 (\<lambda>_. 77) example_pallet_config [8, 9] 7 500 example_store) = [8, 9]"
proof -
  have "try_make_checkpoint 32 (\<lambda>_. 77) example_pallet_config [8, 9] 7 500 example_store = ([8, 9], Inl AttestationNotFound)"
    by (simp add: try_make_checkpoint_def example_width Let_def saturating_sub_def rollback_queue_append)
  from failed_checkpoint_keeps_queue [OF this] this show ?thesis by simp
qed

text \<open>The checkpointing queue of a chain never exceeds its bound: a commit that starts within
  it ends within it.\<close>

theorem checkpointing_queue_stays_bounded:
  assumes "commit_attestation w kc bls cfg supp now origin a s = Some (Inr s')"
    and "store_ok s (sa_chain_key a)" and "commit_room cfg s a"
    and "length (checkpointing_queue s (sa_chain_key a)) \<le> unat (MaxCheckpointingQueueLen cfg)"
  shows "length (checkpointing_queue s' (sa_chain_key a)) \<le> unat (MaxCheckpointingQueueLen cfg)"
  using commit_ok [OF assms(1-3)] assms(4) by (simp add: queue_bounded_def)

theorem checkpointing_queue_stays_bounded_witness:
  "\<exists>s'. commit_attestation 32 (\<lambda>_. 77) signing_bls example_pallet_config (\<lambda>_. True) 1 (Signed 2)
     example_attestation example_store = Some (Inr s') \<and> length (checkpointing_queue s' 7) \<le> 256"
proof -
  obtain s' where s': "commit_attestation 32 (\<lambda>_. 77) signing_bls example_pallet_config (\<lambda>_. True) 1 (Signed 2)
      example_attestation example_store = Some (Inr s')"
    using example_commit by blast
  have "checkpointing_queue example_store 7 = []" by (simp add: checkpointing_queue_def)
  moreover have "unat (MaxCheckpointingQueueLen example_pallet_config) = 256" by (simp add: example_pallet_config_def)
  ultimately show ?thesis
    using checkpointing_queue_stays_bounded [OF s' _ example_room] example_store_ok s' by simp
qed

end
