(* ===== verification/Extension.thy ===== *)
theory Extension
  imports AttestationInv
begin

text \<open>The transaction extension of \<open>pallets/attestation/src/extensions.rs\<close>, which checks a
  \<open>commit_attestation\<close> before it enters the pool, and how its verdict relates to the call itself: a
  refused transaction would have failed, a tagged one has passed the whole validation, and two
  tags are equal exactly for the same attestation digest of the same chain.\<close>

section \<open>Definitions\<close>

datatype TransactionSource = InBlock | Local | External

datatype InvalidTransaction = Stale | ExhaustsResources | Custom u8

definition EXTENSION_IDENTIFIER :: string where
  "EXTENSION_IDENTIFIER = ''PrevalidateAttestationCommit''"

definition OVERSIZED_PROOF_CODE :: u8 where
  "OVERSIZED_PROOF_CODE = 1"

definition ATTESTATION_CLEANUP_IN_PROGRESS_CODE :: u8 where
  "ATTESTATION_CLEANUP_IN_PROGRESS_CODE = 2"

text \<open>The SCALE encoding of the tuple of the identifier, the chain key and the digest.  The length of a
  string below 64 bytes is encoded in one byte, shifted left by two; a tuple is the concatenation
  of its parts.\<close>

definition provides_tag :: "ChainKey \<Rightarrow> Digest \<Rightarrow> bytes" where
  "provides_tag k d =
    of_nat (4 * length EXTENSION_IDENTIFIER) # map of_char EXTENSION_IDENTIFIER @
    u64_to_le_bytes k @ as_bytes d"

text \<open>\<open>PrevalidateAttestationCommit::validate\<close>.  The call is the attestation of a
  \<open>commit_attestation\<close>, or \<open>None\<close> for any other call; the result is the \<open>provides\<close> list of the
  \<open>ValidTransaction\<close>, whose other fields keep their defaults.\<close>

definition prevalidate ::
  "nat \<Rightarrow> keccak \<Rightarrow> ('pk, 'sg) Bls \<Rightarrow> PalletConfig \<Rightarrow> (ChainKey \<Rightarrow> bool) \<Rightarrow> TransactionSource \<Rightarrow> Origin \<Rightarrow>
   SignedAttestation option \<Rightarrow> ('c, 'z) StoreState_scheme \<Rightarrow> InvalidTransaction + bytes list" where
  "prevalidate w kc bls cfg supp source origin call s =
    (case (origin, call) of (Signed who, Some a) \<Rightarrow>
       (let k = sa_chain_key a in
        if commit_blocked_by_cleanup s k then Inl (Custom ATTESTATION_CLEANUP_IN_PROGRESS_CODE)
        else if \<not> attestors_within_bound cfg s k a then Inl ExhaustsResources
        else if length (roots (continuity_proof a)) >
            as_usize w (max (ucast (max_catchup cfg s k)) (chain_attestation_interval cfg s k))
          then Inl (Custom OVERSIZED_PROOF_CODE)
        else
          (let is_active = is_attestor s k who in
           if is_active \<and> check_duplicate kc s a then Inl Stale
           else if \<not> is_active then Inr []
           else if source \<noteq> InBlock \<and> (case validate_attestation w kc bls cfg supp k s a of Inl _ \<Rightarrow> True | Inr _ \<Rightarrow> False)
             then Inr []
           else Inr [provides_tag k (sa_digest kc a)]))
     | _ \<Rightarrow> Inr [])"

section \<open>Lemmas\<close>

lemma provides_tag_inject [simp]: "provides_tag k d = provides_tag k' d' \<longleftrightarrow> k = k' \<and> d = d'"
  by (auto simp: provides_tag_def)

lemma continuity_rejects_oversized:
  assumes "as_usize w (max (ucast (max_catchup cfg s (sa_chain_key a))) (chain_attestation_interval cfg s (sa_chain_key a)))
    < length (roots (continuity_proof a))"
  shows "\<exists>e. validate_attestation_continuity w kc cfg s a = Inl e"
  using assms by (auto simp: validate_attestation_continuity_def Let_def split: option.split)

lemma validate_Inl_commit:
  assumes "\<And>u. validate_attestation w kc bls cfg supp (sa_chain_key a) s a \<noteq> Inr u"
  shows "\<exists>e. commit_attestation w kc bls cfg supp now (Signed who) a s = Some (Inl e)"
  using assms by (cases "validate_attestation w kc bls cfg supp (sa_chain_key a) s a")
    (auto simp: commit_attestation_def do_commit_attestation_def Let_def)

lemma validate_within_bound:
  "validate_attestation w kc bls cfg supp k s a = Inr u \<Longrightarrow> attestors_within_bound cfg s k a"
  by (auto simp: validate_attestation_def split: if_splits)

section \<open>Properties\<close>

text \<open>C30: A transaction the extension refuses would have failed: in the same state the call returns an
  error, whoever signed it and whatever the source, so refusing it loses no attestation.\<close>

theorem refused_commit_would_fail:
  assumes "prevalidate w kc bls cfg supp source (Signed who) (Some a) s = Inl e"
  shows "\<exists>e'. commit_attestation w kc bls cfg supp now (Signed who) a s = Some (Inl e')"
proof (rule validate_Inl_commit)
  fix u
  show "validate_attestation w kc bls cfg supp (sa_chain_key a) s a \<noteq> Inr u"
  proof
    assume v: "validate_attestation w kc bls cfg supp (sa_chain_key a) s a = Inr u"
    have "\<not> as_usize w (max (ucast (max_catchup cfg s (sa_chain_key a))) (chain_attestation_interval cfg s (sa_chain_key a)))
        < length (roots (continuity_proof a))"
      using continuity_rejects_oversized [of w cfg s a kc] validate_Inr(6) [OF v] by auto
    with assms validate_Inr(2,3) [OF v] validate_within_bound [OF v] show False
      by (simp add: prevalidate_def Let_def split: if_splits)
  qed
qed

theorem refused_commit_would_fail_witness:
  "\<exists>e. commit_attestation 32 (\<lambda>_. 77) signing_bls example_pallet_config (\<lambda>_. True) 1 (Signed 2)
     (example_attestation\<lparr>attestors := replicate 101 2\<rparr>) example_store = Some (Inl e)"
proof (rule refused_commit_would_fail)
  have k: "sa_chain_key (example_attestation\<lparr>attestors := replicate 101 2\<rparr>) = 7"
    by (simp add: sa_chain_key_def example_attestation_def)
  show "prevalidate 32 (\<lambda>_. 77) signing_bls example_pallet_config (\<lambda>_. True) External (Signed 2)
      (Some (example_attestation\<lparr>attestors := replicate 101 2\<rparr>)) example_store = Inl ExhaustsResources"
    by (simp add: prevalidate_def Let_def k commit_blocked_by_cleanup_def attestors_within_bound_def len32_def)
qed

text \<open>C31: The tag that reserves an attestation's place in the pool is given, outside block execution,
  exactly to the transactions of active attestors whose attestation passes the whole validation
  of the call, and two transactions carry the same tag exactly when they attest the same digest
  for the same chain.\<close>

theorem tag_only_for_valid_commits:
  assumes "source \<noteq> InBlock"
  shows "(prevalidate w kc bls cfg supp source (Signed who) (Some a) s = Inr [provides_tag k d]) \<longleftrightarrow>
    is_attestor s (sa_chain_key a) who \<and>
    validate_attestation w kc bls cfg supp (sa_chain_key a) s a = Inr () \<and>
    k = sa_chain_key a \<and> d = sa_digest kc a"
proof
  assume "prevalidate w kc bls cfg supp source (Signed who) (Some a) s = Inr [provides_tag k d]"
  with assms show "is_attestor s (sa_chain_key a) who \<and>
    validate_attestation w kc bls cfg supp (sa_chain_key a) s a = Inr () \<and>
    k = sa_chain_key a \<and> d = sa_digest kc a"
    by (auto simp: prevalidate_def Let_def split: if_splits sum.split_asm)
next
  assume r: "is_attestor s (sa_chain_key a) who \<and>
    validate_attestation w kc bls cfg supp (sa_chain_key a) s a = Inr () \<and>
    k = sa_chain_key a \<and> d = sa_digest kc a"
  then have v: "validate_attestation w kc bls cfg supp (sa_chain_key a) s a = Inr ()" by simp
  have "\<not> as_usize w (max (ucast (max_catchup cfg s (sa_chain_key a))) (chain_attestation_interval cfg s (sa_chain_key a)))
      < length (roots (continuity_proof a))"
    using continuity_rejects_oversized [of w cfg s a kc] validate_Inr(6) [OF v] by auto
  with r validate_Inr(2,3) [OF v] validate_within_bound [OF v]
  show "prevalidate w kc bls cfg supp source (Signed who) (Some a) s = Inr [provides_tag k d]"
    by (simp add: prevalidate_def Let_def)
qed

theorem tag_only_for_valid_commits_witness:
  "prevalidate 32 (\<lambda>_. 77) signing_bls example_pallet_config (\<lambda>_. True) External (Signed 2)
     (Some example_attestation) example_store = Inr [provides_tag 7 77]"
  by (subst tag_only_for_valid_commits) (simp_all add: example_validates is_attestor_def)

end
