(* ===== verification/Cleanup.thy ===== *)
theory Cleanup
  imports AttestationInv
begin

text \<open>Reverting an attestation chain to an earlier checkpoint (\<open>revert_to\<close> in \<open>lib.rs\<close>,
  \<open>clear_or_revert.rs\<close>) and the pruning of the checkpoints above it over the following blocks.  What
  the chain serves as a checkpoint is shown to be the same from the revert on, however far the
  pruning has come.\<close>

section \<open>Definitions\<close>

definition MAX_CHECKPOINTS_CLEARED_PER_BLOCK :: nat where
  "MAX_CHECKPOINTS_CLEARED_PER_BLOCK = 40"

definition MAX_ATTESTATIONS_CLEARED_PER_BLOCK :: u32 where
  "MAX_ATTESTATIONS_CLEARED_PER_BLOCK = 40"

text \<open>\<open>Attestations::clear_prefix\<close> without a cursor: the rows that are left, and the cursor if there
  are any.\<close>

type_synonym attestation_clear =
  "u32 \<Rightarrow> (Digest \<rightharpoonup> SignedAttestation) \<Rightarrow> (Digest \<rightharpoonup> SignedAttestation) \<times> bytes option"

text \<open>The keys of \<open>CheckpointBuckets\<close> under a chain and a pivot, and the removal of a checkpoint with
  its bucket entry.\<close>

definition bucket_heights :: "('c, 'z) StoreState_scheme \<Rightarrow> ChainKey \<Rightarrow> u64 \<Rightarrow> u64 set" where
  "bucket_heights s k pivot = {n. (k, pivot, n) \<in> CheckpointBuckets s}"

definition remove_checkpoint ::
  "ChainKey \<Rightarrow> u64 \<Rightarrow> u64 \<Rightarrow> ('c, 'z) StoreState_scheme \<Rightarrow> ('c, 'z) StoreState_scheme" where
  "remove_checkpoint k pivot n s =
    s\<lparr>Checkpoints := dmap_set k n None (Checkpoints s),
      CheckpointBuckets := CheckpointBuckets s - {(k, pivot, n)}\<rparr>"

definition purge_bucket_above ::
  "(u64 set \<Rightarrow> u64 list) \<Rightarrow> ChainKey \<Rightarrow> u64 \<Rightarrow> ('c, 'z) StoreState_scheme \<Rightarrow> u64 \<times> ('c, 'z) StoreState_scheme" where
  "purge_bucket_above iter k height s =
    (let pivot = compute_block_index_for height in
     (pivot, fold (\<lambda>n s. if n > height then remove_checkpoint k pivot n s else s)
        (iter (bucket_heights s k pivot)) s))"

definition do_revert_to ::
  "(u64 set \<Rightarrow> u64 list) \<Rightarrow> attestation_clear \<Rightarrow> ChainKey \<Rightarrow> u64 \<Rightarrow>
   ('c, 'z) StoreState_scheme \<Rightarrow> PalletError + Digest \<times> ('c, 'z) StoreState_scheme" where
  "do_revert_to iter clear_prefix k height s =
    (case Checkpoints s k height of None \<Rightarrow> Inl NoSuchCheckpoint
     | Some digest \<Rightarrow>
       (case LastCheckpoint s k of None \<Rightarrow> Inl LastCheckpointNotSet
        | Some last_checkpoint \<Rightarrow>
          (let (rows, maybe_cursor) = clear_prefix MAX_ATTESTATIONS_CLEARED_PER_BLOCK (Attestations s k);
               s1 = s\<lparr>Attestations := (Attestations s)(k := rows),
                      CheckpointingQueues := (CheckpointingQueues s)(k := None),
                      AttestationRemovalQueues := (AttestationRemovalQueues s)(k := None),
                      AttestationClearingCursors := (AttestationClearingCursors s)(k := maybe_cursor)\<rparr>;
               (pivot, s2) = purge_bucket_above iter k height s1;
               state = \<lparr>stop_height = cp_block_number last_checkpoint,
                        next_pivot = saturating_add pivot CHECKPOINT_BUCKET_SIZE\<rparr>
           in Inr (digest, s2\<lparr>
                LastCheckpoint := (LastCheckpoint s2)(k \<mapsto> \<lparr>cp_block_number = height, cp_digest = digest\<rparr>),
                LastDigest := (LastDigest s2)(k \<mapsto> (height, digest)),
                CheckpointPruningStates := (CheckpointPruningStates s2)(k \<mapsto> state)\<rparr>))))"

definition revert_to ::
  "(u64 set \<Rightarrow> u64 list) \<Rightarrow> attestation_clear \<Rightarrow> PalletConfig \<Rightarrow> (ChainKey \<Rightarrow> bool) \<Rightarrow> Origin \<Rightarrow> ChainKey \<Rightarrow>
   u64 \<Rightarrow> ('c, 'z) StoreState_scheme \<Rightarrow> (PalletError, ('c, 'z) StoreState_scheme) dispatch" where
  "revert_to iter clear_prefix cfg supp origin k height s =
    (if \<not> OperatorsOrigin cfg origin then Inl BadOrigin
     else if \<not> supp k then Inl (Module ChainNotSupported)
     else if \<not> (CheckpointPruningStates s k = None \<and> AttestationClearingCursors s k = None)
       then Inl (Module TriedToRevertDuringOngoingReversion)
     else case do_revert_to iter clear_prefix k height s of Inl e \<Rightarrow> Inl (Module e)
     | Inr (digest, s') \<Rightarrow> Inr (deposit_event (RevertedAttestationChainTo k height digest) s'))"

text \<open>The loop of \<open>prune_checkpoints_impl\<close>.  The remaining entries and pivots start at 40 and 80 and only
  fall, so they are natural numbers here.\<close>

function prune_loop ::
  "(u64 set \<Rightarrow> u64 list) \<Rightarrow> ChainKey \<Rightarrow> nat \<Rightarrow> nat \<Rightarrow> CheckpointPruningState \<Rightarrow>
   ('c, 'z) StoreState_scheme \<Rightarrow> ('c, 'z) StoreState_scheme" where
  "prune_loop iter k entries pivots state s =
    (if entries > 0 \<and> pivots > 0 then
       (if next_pivot state > stop_height state
        then s\<lparr>CheckpointPruningStates := (CheckpointPruningStates s)(k := None)\<rparr>
        else
          (let removal = take (MAX_CHECKPOINTS_CLEARED_PER_BLOCK + 1) (iter (bucket_heights s k (next_pivot state)));
               limit = min (length removal) entries;
               s' = fold (remove_checkpoint k (next_pivot state)) (take limit removal) s
           in if length removal = limit
              then prune_loop iter k (entries - limit) (pivots - 1)
                (state\<lparr>next_pivot := saturating_add (next_pivot state) CHECKPOINT_BUCKET_SIZE\<rparr>) s'
              else prune_loop iter k (entries - limit) pivots state s'))
     else s\<lparr>CheckpointPruningStates := (CheckpointPruningStates s)(k \<mapsto> state)\<rparr>)"
  by pat_completeness auto
termination
  by (relation "measure (\<lambda>(iter, k, entries, pivots, state, s). entries + pivots)") (auto simp: min_def)

declare prune_loop.simps [simp del]

definition prune_checkpoints_impl ::
  "(u64 set \<Rightarrow> u64 list) \<Rightarrow> ChainKey \<Rightarrow> CheckpointPruningState \<Rightarrow>
   ('c, 'z) StoreState_scheme \<Rightarrow> ('c, 'z) StoreState_scheme" where
  "prune_checkpoints_impl iter k =
    prune_loop iter k MAX_CHECKPOINTS_CLEARED_PER_BLOCK (MAX_CHECKPOINTS_CLEARED_PER_BLOCK * 2)"

definition on_init_prune_checkpoints ::
  "(u64 set \<Rightarrow> u64 list) \<Rightarrow> ('c, 'z) StoreState_scheme \<Rightarrow> ('c, 'z) StoreState_scheme" where
  "on_init_prune_checkpoints iter s =
    (case iter (dom (CheckpointPruningStates s)) of [] \<Rightarrow> s
     | k # _ \<Rightarrow> (case CheckpointPruningStates s k of None \<Rightarrow> s | Some state \<Rightarrow> prune_checkpoints_impl iter k state s))"

section \<open>Buckets\<close>

lemma unat_index: "unat (compute_block_index_for n) = 1000 * (unat n div 1000)"
proof -
  have "n mod 1000 \<le> n" by (simp add: word_le_nat_alt unat_mod)
  then have "unat (n - n mod 1000) = unat n - unat (n mod 1000)" by (rule unat_sub)
  also have "\<dots> = 1000 * (unat n div 1000)" by (simp add: unat_mod minus_mod_eq_mult_div)
  finally show ?thesis unfolding compute_block_index_for_def CHECKPOINT_BUCKET_SIZE_def .
qed

lemma index_mono: "m \<le> n \<Longrightarrow> compute_block_index_for m \<le> compute_block_index_for n"
  by (simp add: word_le_nat_alt unat_index div_le_mono)

lemma index_le: "compute_block_index_for n \<le> n"
  by (simp add: word_le_nat_alt unat_index)

lemma next_bucket:
  assumes "p < compute_block_index_for n" and "1000 dvd unat p"
  shows "saturating_add p CHECKPOINT_BUCKET_SIZE \<le> compute_block_index_for n"
proof -
  have "unat p + 1000 \<le> unat (compute_block_index_for n)"
    using assms by (auto simp: word_less_nat_alt unat_index elim!: dvdE)
  then show ?thesis
    using unat_less_2p [of "compute_block_index_for n"]
    by (simp add: word_le_nat_alt unat_saturating_add CHECKPOINT_BUCKET_SIZE_def)
qed

definition pivot_ok :: "u64 \<Rightarrow> bool" where
  "pivot_ok p \<longleftrightarrow> 1000 dvd unat p \<or> unat p = 2 ^ 64 - 1"

lemma pivot_ok_next:
  assumes p: "pivot_ok p"
  shows "pivot_ok (saturating_add p CHECKPOINT_BUCKET_SIZE)"
proof -
  have u: "unat (saturating_add p CHECKPOINT_BUCKET_SIZE) = min (unat p + 1000) (2 ^ 64 - 1)"
    by (simp add: unat_saturating_add CHECKPOINT_BUCKET_SIZE_def)
  show ?thesis
  proof (cases "unat p + 1000 \<le> 2 ^ 64 - 1")
    case True
    then have "1000 dvd unat p" using p by (simp add: pivot_ok_def)
    moreover have "unat (saturating_add p CHECKPOINT_BUCKET_SIZE) = unat p + 1000" using u True by (simp only: min_absorb1)
    ultimately show ?thesis by (simp add: pivot_ok_def)
  next
    case False
    then have "unat (saturating_add p CHECKPOINT_BUCKET_SIZE) = 2 ^ 64 - 1" using u by (simp only: min_absorb2)
    then show ?thesis by (simp only: pivot_ok_def simp_thms)
  qed
qed

lemma pivot_ok_index: "pivot_ok (compute_block_index_for n)"
  by (simp add: pivot_ok_def unat_index)

lemma pivot_ok_step:
  assumes "pivot_ok p" and "p \<le> compute_block_index_for n" and "compute_block_index_for n \<noteq> p"
  shows "saturating_add p CHECKPOINT_BUCKET_SIZE \<le> compute_block_index_for n"
proof -
  have lt: "p < compute_block_index_for n" using assms(2,3) by auto
  then have "unat p \<noteq> 2 ^ 64 - 1"
    using unat_less_2p [of "compute_block_index_for n"] by (auto simp: word_less_nat_alt)
  with lt assms(1) show ?thesis by (auto simp: pivot_ok_def intro: next_bucket)
qed

lemma index_less_next: "compute_block_index_for n < saturating_add (compute_block_index_for n) CHECKPOINT_BUCKET_SIZE"
proof -
  have "unat (compute_block_index_for n) \<noteq> 2 ^ 64 - 1" 
  proof
    assume "unat (compute_block_index_for n) = 2 ^ 64 - 1"
    then have "1000 * (unat n div 1000) mod 1000 = (2 ^ 64 - 1 :: nat) mod 1000" unfolding unat_index by (rule arg_cong)
    then show False by simp
  qed
  moreover have "unat (compute_block_index_for n) < 2 ^ 64" using unat_less_2p [of "compute_block_index_for n"] by simp
  ultimately show ?thesis by (simp add: word_less_nat_alt unat_saturating_add CHECKPOINT_BUCKET_SIZE_def)
qed

section \<open>Pruning\<close>

lemma fold_remove_checkpoint:
  "Checkpoints (fold (remove_checkpoint k p) ns s) k' n =
    (if k' = k \<and> n \<in> set ns then None else Checkpoints s k' n)"
  "(k', p', n) \<in> CheckpointBuckets (fold (remove_checkpoint k p) ns s) \<longleftrightarrow>
    (k', p', n) \<in> CheckpointBuckets s \<and> \<not> (k' = k \<and> p' = p \<and> n \<in> set ns)"
  "CheckpointPruningStates (fold (remove_checkpoint k p) ns s) = CheckpointPruningStates s"
  by (induction ns arbitrary: s) (auto simp: remove_checkpoint_def)

lemma fold_if_filter: "fold (\<lambda>n s. if P n then f n s else s) ns s = fold f (filter P ns) s"
  by (induction ns arbitrary: s) auto

text \<open>Relative to the state before the revert: the checkpoints up to the height are the same, those
  above it lie in the buckets still to be pruned, and the buckets list the checkpoints.\<close>

definition draining ::
  "(u64 \<rightharpoonup> Digest) \<Rightarrow> ChainKey \<Rightarrow> u64 \<Rightarrow> CheckpointPruningState \<Rightarrow> ('c, 'z) StoreState_scheme \<Rightarrow> bool" where
  "draining before k h st s \<longleftrightarrow>
    (\<forall>n\<le>h. Checkpoints s k n = before n) \<and>
    (\<forall>n>h. Checkpoints s k n \<noteq> None \<longrightarrow> next_pivot st \<le> compute_block_index_for n \<and> n \<le> stop_height st) \<and>
    (\<forall>p n. (k, p, n) \<in> CheckpointBuckets s \<longleftrightarrow> Checkpoints s k n \<noteq> None \<and> p = compute_block_index_for n) \<and>
    compute_block_index_for h < next_pivot st \<and> pivot_ok (next_pivot st)"

definition reverted :: "(u64 \<rightharpoonup> Digest) \<Rightarrow> ChainKey \<Rightarrow> u64 \<Rightarrow> ('c, 'z) StoreState_scheme \<Rightarrow> bool" where
  "reverted before k h s \<longleftrightarrow>
    (case CheckpointPruningStates s k of Some st \<Rightarrow> draining before k h st s
     | None \<Rightarrow> \<forall>n. Checkpoints s k n = (if n \<le> h then before n else None))"

lemma draining_above: "draining before k h st s \<Longrightarrow> next_pivot st \<le> compute_block_index_for n \<Longrightarrow> h < n"
  using index_mono [of n h] by (force simp: draining_def not_less)

lemma draining_remove:
  assumes "draining before k h st s" and "set ns \<subseteq> bucket_heights s k (next_pivot st)"
  shows "draining before k h st (fold (remove_checkpoint k (next_pivot st)) ns s)"
proof -
  have ns: "compute_block_index_for n = next_pivot st" if "n \<in> set ns" for n
    using that assms by (auto simp: bucket_heights_def draining_def)
  then have "\<not> n \<le> h" if "n \<in> set ns" for n
    using draining_above [OF assms(1), of n] that by simp
  with ns assms(1) show ?thesis
    unfolding draining_def fold_remove_checkpoint by auto
qed

lemma draining_next:
  assumes "draining before k h st s" and "bucket_heights s k (next_pivot st) = {}"
  shows "draining before k h (st\<lparr>next_pivot := saturating_add (next_pivot st) CHECKPOINT_BUCKET_SIZE\<rparr>) s"
proof -
  have "saturating_add (next_pivot st) CHECKPOINT_BUCKET_SIZE \<le> compute_block_index_for n"
    if "h < n" "Checkpoints s k n \<noteq> None" for n
  proof (rule pivot_ok_step)
    have "(k, compute_block_index_for n, n) \<in> CheckpointBuckets s" using that assms(1) by (simp add: draining_def)
    then show "compute_block_index_for n \<noteq> next_pivot st" using assms(2) by (auto simp: bucket_heights_def)
  qed (use that assms(1) in \<open>simp_all add: draining_def\<close>)
  moreover have "next_pivot st \<le> saturating_add (next_pivot st) CHECKPOINT_BUCKET_SIZE"
    using unat_less_2p [of "next_pivot st"] by (simp add: word_le_nat_alt unat_saturating_add)
  ultimately show ?thesis
    using assms(1) pivot_ok_next by (auto simp: draining_def)
qed

lemma draining_done:
  assumes "draining before k h st s" and "stop_height st < next_pivot st"
  shows "\<forall>n. Checkpoints s k n = (if n \<le> h then before n else None)"
proof (intro allI)
  fix n
  have False if "h < n" "Checkpoints s k n \<noteq> None"
    using that assms index_le [of n] unfolding draining_def by (meson leD order_trans)
  then show "Checkpoints s k n = (if n \<le> h then before n else None)"
    using assms(1) by (cases "n \<le> h"; cases "Checkpoints s k n") (auto simp: draining_def not_le)
qed

lemma draining_pruning_states [simp]:
  "draining before k h st (s\<lparr>CheckpointPruningStates := m\<rparr>) = draining before k h st s"
  by (simp add: draining_def)

text \<open>One more height than may be removed is looked up, so that an emptied bucket is recognised.\<close>

lemma all_removed:
  assumes "chain_iteration iter" and "entries \<le> N"
    and "length (take (N + 1) (iter A)) = min (length (take (N + 1) (iter A))) entries"
  shows "set (take (min (length (take (N + 1) (iter A))) entries) (take (N + 1) (iter A))) = A"
proof -
  have "length (iter A) \<le> N" using assms(2,3) by (auto simp: min_def split: if_splits)
  then show ?thesis using assms(3) chain_iteration.set_chain_iter [OF assms(1), of A] by simp
qed

lemma prune_loop_reverted:
  assumes "chain_iteration iter" and "entries \<le> MAX_CHECKPOINTS_CLEARED_PER_BLOCK" and "draining before k h st s"
  shows "reverted before k h (prune_loop iter k entries pivots st s)"
  using assms
proof (induction iter k entries pivots st s rule: prune_loop.induct)
  case (1 iter k entries pivots st s)
  let ?A = "bucket_heights s k (next_pivot st)"
  let ?r = "take (MAX_CHECKPOINTS_CLEARED_PER_BLOCK + 1) (iter ?A)"
  let ?l = "min (length ?r) entries"
  let ?s = "fold (remove_checkpoint k (next_pivot st)) (take ?l ?r) s"
  note eq = prune_loop.simps [of iter k entries pivots st s]
  consider (out) "\<not> (entries > 0 \<and> pivots > 0)" | (fin) "entries > 0 \<and> pivots > 0" "next_pivot st > stop_height st"
    | (go) "entries > 0 \<and> pivots > 0" "\<not> next_pivot st > stop_height st" by blast
  then show ?case
  proof cases
    case out
    then show ?thesis using 1(5) by (simp only: eq if_False) (simp add: reverted_def)
  next
    case fin
    then show ?thesis using draining_done [OF 1(5)] by (simp only: eq if_True simp_thms) (simp add: reverted_def)
  next
    case go
    have "set ?r \<subseteq> ?A"
      using set_take_subset [of _ "iter ?A"] chain_iteration.set_chain_iter [OF 1(3), of ?A] by simp
    then have d: "draining before k h st ?s" by (intro draining_remove [OF 1(5)]) (use set_take_subset [of ?l ?r] in blast)
    have e: "entries - ?l \<le> MAX_CHECKPOINTS_CLEARED_PER_BLOCK" using 1(4) by simp
    show ?thesis
    proof (cases "length ?r = ?l")
      case True
      from all_removed [OF 1(3,4) True]
      have "bucket_heights ?s k (next_pivot st) = {}" unfolding bucket_heights_def fold_remove_checkpoint by auto
      from 1(1) [OF go refl refl refl True 1(3) e draining_next [OF d this]] show ?thesis
        unfolding eq using go True by (simp only: if_True if_False Let_def simp_thms)
    next
      case False
      from 1(2) [OF go refl refl refl False 1(3) e d] show ?thesis
        unfolding eq using go False by (simp only: if_True if_False Let_def simp_thms)
    qed
  qed
qed

text \<open>Pruning one chain leaves the others alone.\<close>

lemma prune_loop_other:
  assumes "k' \<noteq> k"
  shows "Checkpoints (prune_loop iter k entries pivots st s) k' = Checkpoints s k' \<and>
    ((k', p, n) \<in> CheckpointBuckets (prune_loop iter k entries pivots st s) \<longleftrightarrow> (k', p, n) \<in> CheckpointBuckets s) \<and>
    CheckpointPruningStates (prune_loop iter k entries pivots st s) k' = CheckpointPruningStates s k'"
  using assms
proof (induction iter k entries pivots st s rule: prune_loop.induct)
  case (1 iter k entries pivots st s)
  have c: "Checkpoints (fold (remove_checkpoint k q) ns s) k' = Checkpoints s k'" for q ns
    using 1(3) by (intro ext) (simp add: fold_remove_checkpoint)
  show ?case
    using 1 by (subst (1 2 3) prune_loop.simps) (simp add: Let_def c fold_remove_checkpoint)
qed

lemma reverted_frame:
  assumes "reverted before k h s" and "Checkpoints s' k = Checkpoints s k"
    and "\<And>p n. (k, p, n) \<in> CheckpointBuckets s' \<longleftrightarrow> (k, p, n) \<in> CheckpointBuckets s"
    and "CheckpointPruningStates s' k = CheckpointPruningStates s k"
  shows "reverted before k h s'"
  using assms(1) unfolding reverted_def draining_def assms(2-4) .

lemma on_init_prune_reverted:
  assumes "chain_iteration iter" and "reverted before k h s"
  shows "reverted before k h (on_init_prune_checkpoints iter s)"
proof (cases "iter (dom (CheckpointPruningStates s))")
  case (Cons k' ks)
  show ?thesis
  proof (cases "CheckpointPruningStates s k'")
    case (Some st)
    have eq: "on_init_prune_checkpoints iter s =
        prune_loop iter k' MAX_CHECKPOINTS_CLEARED_PER_BLOCK (MAX_CHECKPOINTS_CLEARED_PER_BLOCK * 2) st s"
      by (simp add: on_init_prune_checkpoints_def Cons Some prune_checkpoints_impl_def)
    show ?thesis
    proof (cases "k' = k")
      case True
      then show ?thesis
        unfolding eq True using assms Some [unfolded True] by (intro prune_loop_reverted) (simp_all add: reverted_def)
    next
      case False
      then show ?thesis unfolding eq by (intro reverted_frame [OF assms(2)]) (simp_all add: prune_loop_other)
    qed
  qed (use assms(2) Cons in \<open>simp add: on_init_prune_checkpoints_def\<close>)
qed (use assms(2) in \<open>simp add: on_init_prune_checkpoints_def\<close>)

lemma funpow_on_init_prune_reverted:
  assumes "chain_iteration iter" and "reverted before k h s"
  shows "reverted before k h ((on_init_prune_checkpoints iter ^^ m) s)"
  by (induction m) (simp_all add: assms on_init_prune_reverted)

lemma reverted_checkpoint_if_stable:
  assumes "reverted before k h s"
  shows "checkpoint_if_stable s k n = (if n \<le> h then before n else None)"
proof (cases "CheckpointPruningStates s k")
  case None
  then show ?thesis using assms by (simp add: reverted_def checkpoint_if_stable_def)
next
  case (Some st)
  with assms have d: "draining before k h st s" by (simp add: reverted_def)
  show ?thesis
  proof (cases "n \<le> h")
    case True
    then have "\<not> next_pivot st \<le> compute_block_index_for n"
      using d index_mono [of n h] by (auto simp: draining_def not_le)
    then show ?thesis using d True Some by (simp add: checkpoint_if_stable_def draining_def)
  next
    case False
    then have "Checkpoints s k n \<noteq> None \<Longrightarrow> next_pivot st \<le> compute_block_index_for n"
      using d by (simp add: draining_def)
    then show ?thesis using False Some by (cases "Checkpoints s k n") (auto simp: checkpoint_if_stable_def)
  qed
qed

section \<open>The revert\<close>

lemma purge_bucket_above_spec:
  assumes "chain_iteration iter"
  shows "fst (purge_bucket_above iter k h s) = compute_block_index_for h"
    and "Checkpoints (snd (purge_bucket_above iter k h s)) k n =
      (if h < n \<and> (k, compute_block_index_for h, n) \<in> CheckpointBuckets s then None else Checkpoints s k n)"
    and "(k, p, n) \<in> CheckpointBuckets (snd (purge_bucket_above iter k h s)) \<longleftrightarrow>
      (k, p, n) \<in> CheckpointBuckets s \<and> \<not> (p = compute_block_index_for h \<and> h < n)"
  by (auto simp: purge_bucket_above_def Let_def fold_if_filter fold_remove_checkpoint
      chain_iteration.set_chain_iter [OF assms] bucket_heights_def)

lemma revert_to_reverted:
  assumes "chain_iteration iter" and "store_ok s k"
    and "revert_to iter clr cfg supp origin k h s = Inr s'"
  shows "reverted (Checkpoints s k) k h s'"
proof -
  obtain digest lc where l: "LastCheckpoint s k = Some lc" and c: "Checkpoints s k h = Some digest"
    using assms(3) by (auto simp: revert_to_def do_revert_to_def split: if_splits option.split_asm)
  obtain rows cur where cl: "clr MAX_ATTESTATIONS_CLEARED_PER_BLOCK (Attestations s k) = (rows, cur)" by fastforce
  define s1 where "s1 = s\<lparr>Attestations := (Attestations s)(k := rows),
      CheckpointingQueues := (CheckpointingQueues s)(k := None),
      AttestationRemovalQueues := (AttestationRemovalQueues s)(k := None),
      AttestationClearingCursors := (AttestationClearingCursors s)(k := cur)\<rparr>"
  define st where "st = \<lparr>stop_height = cp_block_number lc,
      next_pivot = saturating_add (compute_block_index_for h) CHECKPOINT_BUCKET_SIZE\<rparr>"
  obtain s2 where s2: "purge_bucket_above iter k h s1 = (compute_block_index_for h, s2)"
    using purge_bucket_above_spec(1) [OF assms(1), of k h s1] by (metis prod.collapse)
  note p = purge_bucket_above_spec(2,3) [OF assms(1), where k = k and h = h and s = s1, unfolded s2 snd_conv]
  have f: "Checkpoints s' = Checkpoints s2" "CheckpointBuckets s' = CheckpointBuckets s2"
    "CheckpointPruningStates s' k = Some st"
    using assms(3) by (auto simp: revert_to_def do_revert_to_def l c cl s1_def [symmetric] s2 st_def deposit_event_def
        split: if_splits)
  have s1: "Checkpoints s1 = Checkpoints s" "CheckpointBuckets s1 = CheckpointBuckets s" by (simp_all add: s1_def)
  have b: "(k, q, n) \<in> CheckpointBuckets s \<longleftrightarrow> Checkpoints s k n \<noteq> None \<and> q = compute_block_index_for n" for q n
    using assms(2) unfolding store_ok_def by blast
  have "next_pivot st \<le> compute_block_index_for n \<and> n \<le> stop_height st"
    if "h < n" "Checkpoints s k n \<noteq> None" "compute_block_index_for n \<noteq> compute_block_index_for h" for n
    using that assms(2) l index_mono [of h n]
    by (auto simp: st_def store_ok_def intro!: pivot_ok_step pivot_ok_index)
  then have "draining (Checkpoints s k) k h st s'"
    unfolding draining_def f p s1 b using index_less_next [of h] pivot_ok_next [OF pivot_ok_index, of h]
    by (auto simp: st_def)
  then show ?thesis by (simp add: reverted_def f)
qed

section \<open>Properties\<close>

text \<open>C18: Once a chain is reverted to a checkpoint, and after any number of the following blocks'
  pruning steps, the checkpoints it serves as a trust anchor are exactly those it had up to that
  height: none above it, although they leave the storage only gradually, and none lost.\<close>

theorem revert_hides_later_checkpoints:
  assumes "chain_iteration iter" and "store_ok s k"
    and "revert_to iter clr cfg supp origin k h s = Inr s'"
  shows "checkpoint_if_stable ((on_init_prune_checkpoints iter ^^ m) s') k n =
    (if n \<le> h then Checkpoints s k n else None)"
  using assms by (intro reverted_checkpoint_if_stable funpow_on_init_prune_reverted revert_to_reverted)

text \<open>A chain with two checkpoints, two buckets apart.\<close>

definition example_ladder :: "lock_table StoreState" where
  "example_ladder = example_store\<lparr>
     Checkpoints := (\<lambda>k. if k = 7 then [0 \<mapsto> 5, 2500 \<mapsto> 6] else Map.empty),
     CheckpointBuckets := {(7, 0, 0), (7, 2000, 2500)},
     LastCheckpoint := [7 \<mapsto> \<lparr>cp_block_number = 2500, cp_digest = 6\<rparr>]\<rparr>"

lemma example_ladder_ok: "store_ok example_ladder 7"
  by (auto simp: example_ladder_def store_ok_def compute_block_index_for_def CHECKPOINT_BUCKET_SIZE_def)

lemma example_revert:
  "\<exists>s'. revert_to sorted_list_of_set (\<lambda>_ m. (m, None)) example_pallet_config (\<lambda>_. True) Root 7 0 example_ladder = Inr s'"
  by (simp add: revert_to_def do_revert_to_def example_ladder_def example_pallet_config_def Let_def split: prod.split)

theorem revert_hides_later_checkpoints_witness:
  "\<exists>s'. revert_to sorted_list_of_set (\<lambda>_ m. (m, None)) example_pallet_config (\<lambda>_. True) Root 7 0 example_ladder = Inr s' \<and>
    checkpoint_if_stable ((on_init_prune_checkpoints sorted_list_of_set ^^ 1) s') 7 0 = Some 5 \<and>
    checkpoint_if_stable ((on_init_prune_checkpoints sorted_list_of_set ^^ 1) s') 7 2500 = None"
proof -
  obtain s' where s': "revert_to sorted_list_of_set (\<lambda>_ m. (m, None)) example_pallet_config (\<lambda>_. True) Root 7 0
      example_ladder = Inr s'"
    using example_revert by blast
  note r = revert_hides_later_checkpoints [OF chain_key_order.chain_iteration_axioms example_ladder_ok s', of 1]
  show ?thesis using s' r [of 0] r [of 2500] by (simp add: example_ladder_def)
qed

end
