(* ===== verification/Draining.thy ===== *)
theory Draining
  imports Cleanup
begin

text \<open>Work that is drained over the blocks: every block serves one of the chains that have work pending
  (\<open>iter().next()\<close> on the map of pending work), one bounded batch at a time.  The locale shows
  that all work is done after a number of blocks that the amount of work bounds; it is interpreted
  here for the pruning of checkpoints, and for the cleanup of removed chains in \<open>Removal\<close>.\<close>

section \<open>Draining\<close>

locale drain =
  fixes pending :: "'s \<Rightarrow> ChainKey \<rightharpoonup> 'p" and batch :: "'s \<Rightarrow> 's" and work :: "'s \<Rightarrow> ChainKey \<Rightarrow> nat"
    and ok :: "'s \<Rightarrow> bool"
  assumes idle: "ok s \<Longrightarrow> pending s = Map.empty \<Longrightarrow> batch s = s"
    and batch_ok: "ok s \<Longrightarrow> ok (batch s)"
    and serves: "ok s \<Longrightarrow> pending s \<noteq> Map.empty \<Longrightarrow> \<exists>k\<in>dom (pending s).
      (\<forall>k'. k' \<noteq> k \<longrightarrow> pending (batch s) k' = pending s k' \<and> work (batch s) k' = work s k') \<and>
      (pending (batch s) k = None \<or> work (batch s) k < work s k)"
begin

definition backlog :: "'s \<Rightarrow> nat" where
  "backlog s = (\<Sum>k\<in>dom (pending s). Suc (work s k))"

lemma backlog_0: "backlog s = 0 \<longleftrightarrow> pending s = Map.empty"
  by (auto simp: backlog_def)

lemma backlog_decreases:
  assumes "ok s" and "pending s \<noteq> Map.empty"
  shows "backlog (batch s) < backlog s"
proof -
  from serves [OF assms] obtain k where k: "k \<in> dom (pending s)"
    and other: "\<And>k'. k' \<noteq> k \<Longrightarrow> pending (batch s) k' = pending s k' \<and> work (batch s) k' = work s k'"
    and here: "pending (batch s) k = None \<or> work (batch s) k < work s k"
    by blast
  let ?rest = "\<Sum>j\<in>dom (pending s) - {k}. Suc (work s j)"
  have before: "backlog s = Suc (work s k) + ?rest"
    unfolding backlog_def by (rule sum.remove) (simp_all add: k)
  have rest: "(\<Sum>j\<in>dom (pending (batch s)) - {k}. Suc (work (batch s) j)) = ?rest"
    by (rule sum.cong) (auto simp: other domIff)
  show ?thesis
  proof (cases "k \<in> dom (pending (batch s))")
    case True
    then have "backlog (batch s) = Suc (work (batch s) k) + ?rest"
      unfolding backlog_def rest [symmetric] by (intro sum.remove) simp_all
    with True here before show ?thesis by auto
  next
    case False
    then have "dom (pending (batch s)) - {k} = dom (pending (batch s))" by simp
    with rest have "backlog (batch s) = ?rest" by (simp add: backlog_def)
    with before show ?thesis by simp
  qed
qed

lemma drained: "ok s \<Longrightarrow> backlog s \<le> m \<Longrightarrow> pending ((batch ^^ m) s) = Map.empty"
proof (induction m arbitrary: s)
  case 0
  then show ?case by (simp add: backlog_0)
next
  case (Suc m)
  show ?case
  proof (cases "pending s = Map.empty")
    case True
    have "(batch ^^ j) s = s" for j by (induction j) (simp_all add: idle True Suc.prems(1))
    then have "pending ((batch ^^ Suc m) s) = pending s" by (rule arg_cong)
    then show ?thesis using True by (rule trans)
  next
    case False
    then have "backlog (batch s) \<le> m" using backlog_decreases [OF Suc.prems(1)] Suc.prems(2) by simp
    then show ?thesis using Suc.IH batch_ok [OF Suc.prems(1)] by (simp add: funpow_swap1)
  qed
qed

end

section \<open>Pruning ends\<close>

text \<open>The heights from the next pivot to the last one to prune, and the bucket entries of the chain.\<close>

definition prune_work :: "('c, 'z) StoreState_scheme \<Rightarrow> ChainKey \<Rightarrow> nat" where
  "prune_work s k =
    (case CheckpointPruningStates s k of None \<Rightarrow> 0
     | Some st \<Rightarrow> Suc (unat (stop_height st)) - unat (next_pivot st)) +
    card {(p, n). (k, p, n) \<in> CheckpointBuckets s}"

definition loop_work :: "ChainKey \<Rightarrow> CheckpointPruningState \<Rightarrow> ('c, 'z) StoreState_scheme \<Rightarrow> nat" where
  "loop_work k st s =
    Suc (unat (stop_height st)) - unat (next_pivot st) + card {(p, n). (k, p, n) \<in> CheckpointBuckets s}"

lemma loop_work_remove:
  "loop_work k st (fold (remove_checkpoint k p) ns s) \<le> loop_work k st s"
  unfolding loop_work_def fold_remove_checkpoint by (intro add_left_mono card_mono) auto

lemma loop_work_remove_less:
  assumes "ns \<noteq> []" and "set ns \<subseteq> bucket_heights s k p"
  shows "loop_work k st (fold (remove_checkpoint k p) ns s) < loop_work k st s"
proof -
  have "{(q, n). (k, q, n) \<in> CheckpointBuckets (fold (remove_checkpoint k p) ns s)} \<subset> {(q, n). (k, q, n) \<in> CheckpointBuckets s}"
    using assms hd_in_set [OF assms(1)] unfolding fold_remove_checkpoint bucket_heights_def by blast
  then have "card {(q, n). (k, q, n) \<in> CheckpointBuckets (fold (remove_checkpoint k p) ns s)} < card {(q, n). (k, q, n) \<in> CheckpointBuckets s}"
    by (intro psubset_card_mono) simp_all
  then show ?thesis by (simp add: loop_work_def)
qed

lemma loop_work_next:
  assumes "next_pivot st \<le> stop_height st" and "unat (stop_height st) < 2 ^ 64 - 1"
  shows "loop_work k (st\<lparr>next_pivot := saturating_add (next_pivot st) CHECKPOINT_BUCKET_SIZE\<rparr>) s < loop_work k st s"
proof -
  have le: "unat (next_pivot st) \<le> unat (stop_height st)" using assms(1) by (simp add: word_le_nat_alt)
  have "unat (saturating_add (next_pivot st) CHECKPOINT_BUCKET_SIZE) = min (unat (next_pivot st) + 1000) (2 ^ 64 - 1)"
    by (simp add: unat_saturating_add CHECKPOINT_BUCKET_SIZE_def)
  then have "unat (next_pivot st) < unat (saturating_add (next_pivot st) CHECKPOINT_BUCKET_SIZE)"
    using le assms(2) by linarith
  then show ?thesis using le by (simp add: loop_work_def)
qed

definition progress ::
  "ChainKey \<Rightarrow> CheckpointPruningState \<Rightarrow> ('c, 'z) StoreState_scheme \<Rightarrow> bool \<Rightarrow> ('c, 'z) StoreState_scheme \<Rightarrow> bool" where
  "progress k st s strict s' \<longleftrightarrow>
    (case CheckpointPruningStates s' k of None \<Rightarrow> True
     | Some st' \<Rightarrow> stop_height st' = stop_height st \<and> loop_work k st' s' \<le> loop_work k st s \<and>
         (strict \<longrightarrow> loop_work k st' s' < loop_work k st s))"

lemma progress_step:
  assumes "progress k st1 s1 b s'" and "stop_height st1 = stop_height st" and "loop_work k st1 s1 < loop_work k st s"
  shows "progress k st s c s'"
  using assms by (simp add: progress_def split: option.splits)

lemma prune_loop_progress:
  assumes "chain_iteration iter" and "unat (stop_height st) < 2 ^ 64 - 1"
  shows "progress k st s (entries > 0 \<and> pivots > 0) (prune_loop iter k entries pivots st s)"
  using assms
proof (induction iter k entries pivots st s rule: prune_loop.induct)
  case (1 iter k entries pivots st s)
  let ?A = "bucket_heights s k (next_pivot st)"
  let ?r = "take (MAX_CHECKPOINTS_CLEARED_PER_BLOCK + 1) (iter ?A)"
  let ?l = "min (length ?r) entries"
  let ?s = "fold (remove_checkpoint k (next_pivot st)) (take ?l ?r) s"
  let ?st = "st\<lparr>next_pivot := saturating_add (next_pivot st) CHECKPOINT_BUCKET_SIZE\<rparr>"
  note eq = prune_loop.simps [of iter k entries pivots st s]
  consider (out) "\<not> (entries > 0 \<and> pivots > 0)" | (fin) "entries > 0 \<and> pivots > 0" "next_pivot st > stop_height st"
    | (go) "entries > 0 \<and> pivots > 0" "\<not> next_pivot st > stop_height st" by blast
  then show ?case
  proof cases
    case out
    then show ?thesis by (simp only: eq if_False) (simp add: progress_def loop_work_def)
  next
    case fin
    then show ?thesis by (simp only: eq if_True simp_thms) (simp add: progress_def)
  next
    case go
    have sub: "set (take ?l ?r) \<subseteq> ?A"
      using set_take_subset [of ?l ?r] set_take_subset [of "MAX_CHECKPOINTS_CLEARED_PER_BLOCK + 1" "iter ?A"]
      unfolding chain_iteration.set_chain_iter [OF 1(3), of ?A] by (rule subset_trans)
    show ?thesis
    proof (cases "length ?r = ?l")
      case True
      then have e: "prune_loop iter k entries pivots st s = prune_loop iter k (entries - ?l) (pivots - 1) ?st ?s"
        unfolding eq using go by (simp only: if_True if_False Let_def simp_thms)
      have "loop_work k ?st ?s < loop_work k st ?s" using go 1(4) by (intro loop_work_next) simp_all
      then have "loop_work k ?st ?s < loop_work k st s" using loop_work_remove by (rule less_le_trans)
      then show ?thesis
        unfolding e using 1(4) by (intro progress_step [OF 1(1) [OF go refl refl refl True 1(3)]]) simp_all
    next
      case False
      then have e: "prune_loop iter k entries pivots st s = prune_loop iter k (entries - ?l) pivots st ?s"
        unfolding eq using go by (simp only: if_True if_False Let_def simp_thms)
      from False have "take ?l ?r \<noteq> []" using go by auto
      from loop_work_remove_less [OF this sub] show ?thesis
        unfolding e by (intro progress_step [OF 1(2) [OF go refl refl refl False 1(3,4)]]) simp_all
    qed
  qed
qed

lemma loop_work_prune_work: "CheckpointPruningStates s k = Some st \<Longrightarrow> loop_work k st s = prune_work s k"
  by (simp add: loop_work_def prune_work_def)

text \<open>At the largest height the next pivot saturates below it and the pruning would not advance; no
  chain has a checkpoint there.\<close>

definition prunable :: "('c, 'z) StoreState_scheme \<Rightarrow> bool" where
  "prunable s \<longleftrightarrow> (\<forall>k st. CheckpointPruningStates s k = Some st \<longrightarrow> unat (stop_height st) < 2 ^ 64 - 1)"

lemma on_init_prune_serves:
  assumes "chain_iteration iter" and "prunable s" and "CheckpointPruningStates s \<noteq> Map.empty"
  shows "\<exists>k\<in>dom (CheckpointPruningStates s).
    (\<forall>k'. k' \<noteq> k \<longrightarrow> CheckpointPruningStates (on_init_prune_checkpoints iter s) k' = CheckpointPruningStates s k' \<and>
      prune_work (on_init_prune_checkpoints iter s) k' = prune_work s k') \<and>
    (\<forall>st'. CheckpointPruningStates (on_init_prune_checkpoints iter s) k = Some st' \<longrightarrow>
      prune_work (on_init_prune_checkpoints iter s) k < prune_work s k \<and> unat (stop_height st') < 2 ^ 64 - 1)"
proof -
  have dom: "set (iter (dom (CheckpointPruningStates s))) = dom (CheckpointPruningStates s)"
    by (rule chain_iteration.set_chain_iter [OF assms(1)])
  with assms(3) obtain k ks where k: "iter (dom (CheckpointPruningStates s)) = k # ks"
    by (cases "iter (dom (CheckpointPruningStates s))") auto
  with dom obtain st where st: "CheckpointPruningStates s k = Some st" by force
  let ?s = "on_init_prune_checkpoints iter s"
  have eq: "?s = prune_loop iter k 40 80 st s"
    by (simp add: on_init_prune_checkpoints_def k st prune_checkpoints_impl_def MAX_CHECKPOINTS_CLEARED_PER_BLOCK_def)
  have b: "unat (stop_height st) < 2 ^ 64 - 1" using assms(2) st unfolding prunable_def by blast
  have "prune_work ?s k < prune_work s k \<and> unat (stop_height st') < 2 ^ 64 - 1"
    if "CheckpointPruningStates ?s k = Some st'" for st'
    using prune_loop_progress [OF assms(1) b, of k s 40 80] b loop_work_prune_work [OF st] loop_work_prune_work [OF that] that
    unfolding eq progress_def by simp
  moreover have "CheckpointPruningStates ?s k' = CheckpointPruningStates s k' \<and> prune_work ?s k' = prune_work s k'"
    if "k' \<noteq> k" for k'
    using prune_loop_other [OF that, of iter 40 80 st s] unfolding eq prune_work_def by simp
  ultimately show ?thesis using st by blast
qed

interpretation prune_drain: drain CheckpointPruningStates "on_init_prune_checkpoints iter" prune_work
  "\<lambda>s. chain_iteration iter \<and> prunable s"
proof (unfold_locales, goal_cases)
  case (1 s)
  then have "iter (dom (CheckpointPruningStates s)) = []"
    using chain_iteration.set_chain_iter [of iter "{}"] by simp
  then show ?case by (simp add: on_init_prune_checkpoints_def)
next
  case (2 s)
  then have it: "chain_iteration iter" and p: "prunable s" by simp_all
  show ?case
  proof (cases "CheckpointPruningStates s = Map.empty")
    case True
    then have "iter (dom (CheckpointPruningStates s)) = []"
      using chain_iteration.set_chain_iter [OF it, of "{}"] by simp
    then show ?thesis using 2 by (simp add: on_init_prune_checkpoints_def)
  next
    case False
    show ?thesis using on_init_prune_serves [OF it p False] it p unfolding prunable_def by metis
  qed
next
  case (3 s)
  then show ?case using on_init_prune_serves [of iter s] by (metis not_None_eq)
qed

section \<open>Properties\<close>

text \<open>C19: Pruning ends.  After as many blocks as the buckets left to prune and their entries bound, on all
  chains together, the storage of a reverted chain holds exactly the checkpoints up to the
  reverted height and no pruning blocks its commits, whichever chain each block serves.\<close>

theorem revert_completes:
  assumes "chain_iteration iter" and "store_ok s k" and "revert_to iter clr cfg supp origin k h s = Inr s'"
    and "prunable s'" and "(\<Sum>j\<in>dom (CheckpointPruningStates s'). Suc (prune_work s' j)) \<le> m"
  shows "CheckpointPruningStates ((on_init_prune_checkpoints iter ^^ m) s') k = None \<and>
    Checkpoints ((on_init_prune_checkpoints iter ^^ m) s') k n = (if n \<le> h then Checkpoints s k n else None)"
proof -
  have "CheckpointPruningStates ((on_init_prune_checkpoints iter ^^ m) s') = Map.empty"
    using assms(1,4,5) by (intro prune_drain.drained) (simp_all add: prune_drain.backlog_def)
  moreover have "reverted (Checkpoints s k) k h ((on_init_prune_checkpoints iter ^^ m) s')"
    using assms(1-3) by (intro funpow_on_init_prune_reverted revert_to_reverted)
  ultimately show ?thesis by (simp add: reverted_def)
qed

theorem revert_completes_witness:
  "\<exists>s' m. revert_to sorted_list_of_set (\<lambda>_ m. (m, None)) example_pallet_config (\<lambda>_. True) Root 7 0 example_ladder = Inr s' \<and>
    Checkpoints ((on_init_prune_checkpoints sorted_list_of_set ^^ m) s') 7 2500 = None"
proof -
  obtain s' where s': "revert_to sorted_list_of_set (\<lambda>_ m. (m, None)) example_pallet_config (\<lambda>_. True) Root 7 0
      example_ladder = Inr s'"
    using example_revert by blast
  have "prunable s'"
    using s' by (auto simp: revert_to_def do_revert_to_def purge_bucket_above_def example_ladder_def prunable_def
        Let_def deposit_event_def fold_if_filter fold_remove_checkpoint split: if_splits)
  from revert_completes [OF chain_key_order.chain_iteration_axioms example_ladder_ok s' this order_refl, of 2500] s'
  show ?thesis by auto
qed

end
