(* ===== verification/Ladder.thy ===== *)
theory Ladder
  imports Draining Randomness
begin

text \<open>The other calls that write checkpoints, \<open>import_checkpoints\<close> and \<open>forward_patch_checkpoints\<close>
  (\<open>impls.rs\<close>), and an invariant of the checkpoints of a supported chain that every operation on
  them keeps: the genesis builder, committing, importing, patching, reverting and pruning, in any order.\<close>

section \<open>Definitions\<close>

text \<open>The writes and the event with which a checkpoint is imported or patched.\<close>

definition insert_checkpoint ::
  "ChainKey \<Rightarrow> AttestationCheckpoint \<Rightarrow> ('c, 'z) StoreState_scheme \<Rightarrow> ('c, 'z) StoreState_scheme" where
  "insert_checkpoint k c s =
    deposit_event (CheckpointReached k c)
      (s\<lparr>Checkpoints := dmap_set k (cp_block_number c) (Some (cp_digest c)) (Checkpoints s),
         CheckpointBuckets := insert (k, compute_block_index_for (cp_block_number c), cp_block_number c)
           (CheckpointBuckets s)\<rparr>)"

fun import_loop ::
  "bool \<Rightarrow> AttestationCheckpoint option \<Rightarrow> ChainKey \<Rightarrow> AttestationCheckpoint list \<Rightarrow> AttestationCheckpoint option \<Rightarrow>
   ('c, 'z) StoreState_scheme \<Rightarrow> PalletError + AttestationCheckpoint option \<times> ('c, 'z) StoreState_scheme" where
  "import_loop has_attestations maybe_last k [] maybe_new s = Inr (maybe_new, s)"
| "import_loop has_attestations maybe_last k (c # cs) maybe_new s =
    (if Checkpoints s k (cp_block_number c) \<noteq> None then import_loop has_attestations maybe_last k cs maybe_new s
     else case maybe_last of
       Some l \<Rightarrow>
         if cp_block_number c \<ge> cp_block_number l then import_loop has_attestations maybe_last k cs maybe_new s
         else import_loop has_attestations maybe_last k cs maybe_new (insert_checkpoint k c s)
     | None \<Rightarrow>
         if has_attestations then Inl LastCheckpointNotSet
         else
           (let maybe_new' = (case maybe_new of
                  Some l \<Rightarrow> if cp_block_number c > cp_block_number l then Some c else Some l
                | None \<Rightarrow> Some c)
            in import_loop has_attestations maybe_last k cs maybe_new' (insert_checkpoint k c s)))"

definition do_import_checkpoints ::
  "(ChainKey \<Rightarrow> bool) \<Rightarrow> ChainKey \<Rightarrow> AttestationCheckpoint list \<Rightarrow>
   ('c, 'z) StoreState_scheme \<Rightarrow> PalletError + ('c, 'z) StoreState_scheme" where
  "do_import_checkpoints supp k cs s =
    (if \<not> supp k then Inl ChainNotSupported
     else
       (let maybe_last = LastCheckpoint s k;
            initial = (case maybe_last of Some l \<Rightarrow> cp_block_number l | None \<Rightarrow> 0)
        in case import_loop (LastDigest s k \<noteq> None) maybe_last k cs maybe_last s of Inl e \<Rightarrow> Inl e
           | Inr (None, s') \<Rightarrow> Inr s'
           | Inr (Some c, s') \<Rightarrow>
               if cp_block_number c > initial \<or> maybe_last = None
               then Inr (s'\<lparr>LastCheckpoint := (LastCheckpoint s')(k \<mapsto> c)\<rparr>) else Inr s'))"

definition import_checkpoints ::
  "PalletConfig \<Rightarrow> (ChainKey \<Rightarrow> bool) \<Rightarrow> Origin \<Rightarrow> ChainKey \<Rightarrow> AttestationCheckpoint list \<Rightarrow>
   ('c, 'z) StoreState_scheme \<Rightarrow> (PalletError, ('c, 'z) StoreState_scheme) dispatch" where
  "import_checkpoints cfg supp origin k cs s =
    (if \<not> OperatorsOrigin cfg origin then Inl BadOrigin
     else case do_import_checkpoints supp k cs s of Inl e \<Rightarrow> Inl (Module e) | Inr s' \<Rightarrow> Inr s')"

definition purge_attestations_for_forward_patch ::
  "attestation_clear \<Rightarrow> ChainKey \<Rightarrow> ('c, 'z) StoreState_scheme \<Rightarrow> ('c, 'z) StoreState_scheme" where
  "purge_attestations_for_forward_patch clear_prefix k s =
    (let s1 = s\<lparr>CheckpointingQueues := (CheckpointingQueues s)(k := None),
               AttestationRemovalQueues := (AttestationRemovalQueues s)(k := None),
               LastDigest := (LastDigest s)(k := None)\<rparr>;
         (rows, maybe_cursor) = clear_prefix MAX_ATTESTATIONS_CLEARED_PER_BLOCK (Attestations s1 k)
     in s1\<lparr>Attestations := (Attestations s1)(k := rows),
           AttestationClearingCursors := (AttestationClearingCursors s1)(k := maybe_cursor)\<rparr>)"

text \<open>The \<open>BTreeMap\<close> of the patch: a later checkpoint of the same height replaces an earlier one.\<close>

definition merge_patch :: "AttestationCheckpoint list \<Rightarrow> (u64 \<times> Digest) list" where
  "merge_patch cs = fold (\<lambda>c m. btree_insert (cp_block_number c) (cp_digest c) m) cs []"

definition wipe_above ::
  "(u64 set \<Rightarrow> u64 list) \<Rightarrow> ChainKey \<Rightarrow> u64 \<Rightarrow> ('c, 'z) StoreState_scheme \<Rightarrow> ('c, 'z) StoreState_scheme" where
  "wipe_above iter k batch_max s =
    (let (tip_pivot, s1) = purge_bucket_above iter k batch_max s;
         pivot = saturating_add tip_pivot CHECKPOINT_BUCKET_SIZE
     in case LastCheckpoint s1 k of None \<Rightarrow> s1
        | Some lc \<Rightarrow>
            if cp_block_number lc \<ge> pivot
            then s1\<lparr>CheckpointPruningStates := (CheckpointPruningStates s1)
              (k \<mapsto> \<lparr>stop_height = cp_block_number lc, next_pivot = pivot\<rparr>)\<rparr>
            else s1)"

definition do_forward_patch_checkpoints ::
  "(u64 set \<Rightarrow> u64 list) \<Rightarrow> attestation_clear \<Rightarrow> (ChainKey \<Rightarrow> bool) \<Rightarrow> ChainKey \<Rightarrow> bool \<Rightarrow>
   AttestationCheckpoint list \<Rightarrow> ('c, 'z) StoreState_scheme \<Rightarrow> PalletError + ('c, 'z) StoreState_scheme" where
  "do_forward_patch_checkpoints iter clear_prefix supp k wipe_suffix cs s =
    (if \<not> supp k then Inl ChainNotSupported
     else if \<not> (CheckpointPruningStates s k = None \<and> CheckpointClearingCursors s k = None \<and>
         BucketClearingCursors s k = None \<and> AttestationClearingCursors s k = None)
       then Inl CheckpointMaintenanceInProgress
     else if cs = [] then Inl EmptyCheckpointPatch
     else
       (let s1 = purge_attestations_for_forward_patch clear_prefix k s;
            merged = merge_patch cs
        in if merged = [] then Inl EmptyCheckpointPatch
           else
             (let (batch_max, tip_digest) = last merged;
                  s2 = (if wipe_suffix then wipe_above iter k batch_max s1 else s1);
                  s3 = fold (\<lambda>(n, d). insert_checkpoint k \<lparr>cp_block_number = n, cp_digest = d\<rparr>) merged s2;
                  batch_tip = \<lparr>cp_block_number = batch_max, cp_digest = tip_digest\<rparr>;
                  new_last = (case LastCheckpoint s3 k of
                    Some lc \<Rightarrow> if \<not> wipe_suffix \<and> cp_block_number lc > batch_max then lc else batch_tip
                  | None \<Rightarrow> batch_tip)
              in Inr (deposit_event (ForwardCheckpointPatchApplied k wipe_suffix (cp_block_number new_last))
                   (s3\<lparr>LastCheckpoint := (LastCheckpoint s3)(k \<mapsto> new_last)\<rparr>)))))"

definition forward_patch_checkpoints ::
  "(u64 set \<Rightarrow> u64 list) \<Rightarrow> attestation_clear \<Rightarrow> PalletConfig \<Rightarrow> (ChainKey \<Rightarrow> bool) \<Rightarrow> Origin \<Rightarrow> ChainKey \<Rightarrow> bool \<Rightarrow>
   AttestationCheckpoint list \<Rightarrow> ('c, 'z) StoreState_scheme \<Rightarrow> (PalletError, ('c, 'z) StoreState_scheme) dispatch" where
  "forward_patch_checkpoints iter clear_prefix cfg supp origin k wipe_suffix cs s =
    (if \<not> OperatorsOrigin cfg origin then Inl BadOrigin
     else case do_forward_patch_checkpoints iter clear_prefix supp k wipe_suffix cs s of
       Inl e \<Rightarrow> Inl (Module e) | Inr s' \<Rightarrow> Inr s')"

text \<open>The checkpoints of one chain in the genesis configuration, and the checkpoint part of the genesis
  builder.  Of two checkpoints of the same height the later one counts, in the map and as the last
  one.\<close>

fun genesis_checkpoint_loop ::
  "ChainKey \<Rightarrow> AttestationCheckpoint list \<Rightarrow> AttestationCheckpoint option \<Rightarrow> ('c, 'z) StoreState_scheme \<Rightarrow>
   AttestationCheckpoint option \<times> ('c, 'z) StoreState_scheme" where
  "genesis_checkpoint_loop k [] last_checkpoint s = (last_checkpoint, s)"
| "genesis_checkpoint_loop k (c # cs) last_checkpoint s =
    genesis_checkpoint_loop k cs
      (if (case last_checkpoint of None \<Rightarrow> True | Some lc \<Rightarrow> cp_block_number c \<ge> cp_block_number lc)
       then Some c else last_checkpoint)
      (s\<lparr>Checkpoints := dmap_set k (cp_block_number c) (Some (cp_digest c)) (Checkpoints s),
         CheckpointBuckets := insert (k, compute_block_index_for (cp_block_number c), cp_block_number c)
           (CheckpointBuckets s)\<rparr>)"

definition genesis_checkpoints ::
  "AttestationChainConfiguration \<Rightarrow> ('c, 'z) StoreState_scheme \<Rightarrow> ('c, 'z) StoreState_scheme" where
  "genesis_checkpoints c s =
    (let k = cfg_chain_key c in
     case genesis_checkpoint_loop k (cfg_checkpoints c) None s of
       (None, s') \<Rightarrow> s'
     | (Some checkpoint, s') \<Rightarrow> s'\<lparr>LastCheckpoint := (LastCheckpoint s')(k \<mapsto> checkpoint)\<rparr>)"

section \<open>The invariant\<close>

text \<open>What the invariant reads of a chain.\<close>

definition ladder_view ::
  "('c, 'z) StoreState_scheme \<Rightarrow> ChainKey \<Rightarrow>
   (u64 \<rightharpoonup> Digest) \<times> (u64 \<times> u64) set \<times> AttestationCheckpoint option \<times> CheckpointPruningState option" where
  "ladder_view s k =
    (Checkpoints s k, {(p, n). (k, p, n) \<in> CheckpointBuckets s}, LastCheckpoint s k, CheckpointPruningStates s k)"

definition buckets_agree :: "('c, 'z) StoreState_scheme \<Rightarrow> ChainKey \<Rightarrow> bool" where
  "buckets_agree s k \<longleftrightarrow>
    (\<forall>p n. (k, p, n) \<in> CheckpointBuckets s \<longleftrightarrow> Checkpoints s k n \<noteq> None \<and> p = compute_block_index_for n)"

text \<open>Above a height there are only checkpoints that are still to be pruned.\<close>

definition pruned_above :: "('c, 'z) StoreState_scheme \<Rightarrow> ChainKey \<Rightarrow> u64 \<Rightarrow> bool" where
  "pruned_above s k b \<longleftrightarrow>
    (case CheckpointPruningStates s k of
       None \<Rightarrow> \<forall>n. Checkpoints s k n \<noteq> None \<longrightarrow> n \<le> b
     | Some st \<Rightarrow> compute_block_index_for b < next_pivot st \<and> pivot_ok (next_pivot st) \<and>
         (\<forall>n>b. Checkpoints s k n \<noteq> None \<longrightarrow> next_pivot st \<le> compute_block_index_for n \<and> n \<le> stop_height st))"

definition ladder_ok :: "('c, 'z) StoreState_scheme \<Rightarrow> ChainKey \<Rightarrow> bool" where
  "ladder_ok s k \<longleftrightarrow> buckets_agree s k \<and>
    (case LastCheckpoint s k of
       None \<Rightarrow> Checkpoints s k = Map.empty \<and> CheckpointPruningStates s k = None
     | Some c \<Rightarrow> Checkpoints s k (cp_block_number c) = Some (cp_digest c) \<and> pruned_above s k (cp_block_number c))"

lemma ladder_view_eq:
  assumes "ladder_view s' k = ladder_view s k"
  shows "Checkpoints s' k = Checkpoints s k" and "LastCheckpoint s' k = LastCheckpoint s k"
    and "CheckpointPruningStates s' k = CheckpointPruningStates s k"
    and "(k, p, n) \<in> CheckpointBuckets s' \<longleftrightarrow> (k, p, n) \<in> CheckpointBuckets s"
  using assms by (auto simp: ladder_view_def)

lemma ladder_ok_view:
  assumes "ladder_ok s k" and "ladder_view s' k = ladder_view s k"
  shows "ladder_ok s' k"
  using assms(1) unfolding ladder_ok_def buckets_agree_def pruned_above_def ladder_view_eq [OF assms(2)] .

lemma ladder_ok_store_ok: "CheckpointPruningStates s k = None \<Longrightarrow> ladder_ok s k \<longleftrightarrow> store_ok s k"
  by (auto simp: ladder_ok_def store_ok_def buckets_agree_def pruned_above_def split: option.splits)

lemma ladder_ok_draining:
  assumes "CheckpointPruningStates s k = Some st" and "LastCheckpoint s k = Some c"
    and "Checkpoints s k (cp_block_number c) = Some (cp_digest c)" and "buckets_agree s k"
  shows "ladder_ok s k \<longleftrightarrow> draining (Checkpoints s k) k (cp_block_number c) st s"
  using assms by (auto simp: ladder_ok_def buckets_agree_def pruned_above_def draining_def)

section \<open>Importing and patching\<close>

lemma insert_checkpoint_fields [simp]:
  "Checkpoints (insert_checkpoint k c s) = dmap_set k (cp_block_number c) (Some (cp_digest c)) (Checkpoints s)"
  "CheckpointBuckets (insert_checkpoint k c s) =
    insert (k, compute_block_index_for (cp_block_number c), cp_block_number c) (CheckpointBuckets s)"
  "LastCheckpoint (insert_checkpoint k c s) = LastCheckpoint s"
  "CheckpointPruningStates (insert_checkpoint k c s) = CheckpointPruningStates s"
  by (simp_all add: insert_checkpoint_def deposit_event_def)

lemma insert_checkpoint_view: "k' \<noteq> k \<Longrightarrow> ladder_view (insert_checkpoint k c s) k' = ladder_view s k'"
  by (simp add: ladder_view_def fun_eq_iff)

lemma insert_checkpoint_agree: "buckets_agree s k \<Longrightarrow> buckets_agree (insert_checkpoint k c s) k"
  by (auto simp: buckets_agree_def)

lemma insert_checkpoint_pruned:
  assumes "pruned_above s k b" and "cp_block_number c \<le> b"
  shows "pruned_above (insert_checkpoint k c s) k b"
  using assms by (auto simp: pruned_above_def split: option.splits)

lemma import_loop_Some:
  assumes "import_loop ha (Some l) k cs nl s = Inr (nl', s')" and "buckets_agree s k"
    and "Checkpoints s k (cp_block_number l) = Some (cp_digest l)" and "pruned_above s k (cp_block_number l)"
  shows "nl' = nl \<and> buckets_agree s' k \<and> Checkpoints s' k (cp_block_number l) = Some (cp_digest l) \<and>
    pruned_above s' k (cp_block_number l) \<and> LastCheckpoint s' = LastCheckpoint s"
  using assms
proof (induction cs arbitrary: s)
  case (Cons c cs)
  show ?case
  proof (cases "Checkpoints s k (cp_block_number c) \<noteq> None \<or> cp_block_number c \<ge> cp_block_number l")
    case True
    then have "import_loop ha (Some l) k cs nl s = Inr (nl', s')" using Cons.prems(1) by (auto split: if_splits)
    then show ?thesis using Cons.IH Cons.prems(2-4) by blast
  next
    case False
    then have "import_loop ha (Some l) k cs nl (insert_checkpoint k c s) = Inr (nl', s')" using Cons.prems(1) by simp
    moreover have "cp_block_number l \<noteq> cp_block_number c" "cp_block_number c \<le> cp_block_number l" using False by auto
    ultimately show ?thesis
      using Cons.IH [of "insert_checkpoint k c s"] Cons.prems(2-4)
      by (simp add: insert_checkpoint_agree insert_checkpoint_pruned)
  qed
qed simp

definition fresh_ladder :: "('c, 'z) StoreState_scheme \<Rightarrow> ChainKey \<Rightarrow> AttestationCheckpoint option \<Rightarrow> bool" where
  "fresh_ladder s k nl \<longleftrightarrow> buckets_agree s k \<and> CheckpointPruningStates s k = None \<and>
    (case nl of None \<Rightarrow> Checkpoints s k = Map.empty
     | Some l \<Rightarrow> Checkpoints s k (cp_block_number l) = Some (cp_digest l) \<and>
         (\<forall>n. Checkpoints s k n \<noteq> None \<longrightarrow> n \<le> cp_block_number l))"

lemma fresh_ladder_insert:
  assumes "fresh_ladder s k nl" and "Checkpoints s k (cp_block_number c) = None"
  shows "fresh_ladder (insert_checkpoint k c s) k
    (case nl of Some l \<Rightarrow> if cp_block_number c > cp_block_number l then Some c else Some l | None \<Rightarrow> Some c)"
  using assms by (cases nl) (auto simp: fresh_ladder_def insert_checkpoint_agree)

lemma import_loop_None:
  assumes "import_loop ha None k cs nl s = Inr (nl', s')" and "fresh_ladder s k nl"
  shows "fresh_ladder s' k nl' \<and> LastCheckpoint s' = LastCheckpoint s"
  using assms
proof (induction cs arbitrary: nl s)
  case (Cons c cs)
  show ?case
  proof (cases "Checkpoints s k (cp_block_number c)")
    case None
    let ?nl = "case nl of Some l \<Rightarrow> if cp_block_number c > cp_block_number l then Some c else Some l | None \<Rightarrow> Some c"
    have "import_loop ha None k cs ?nl (insert_checkpoint k c s) = Inr (nl', s')"
      using Cons.prems(1) None by (simp add: Let_def split: if_splits)
    from Cons.IH [OF this fresh_ladder_insert [OF Cons.prems(2) None]] show ?thesis by simp
  next
    case (Some d)
    then show ?thesis using Cons by simp
  qed
qed simp

lemma import_loop_view:
  "import_loop ha ml k cs nl s = Inr (nl', s') \<Longrightarrow> k' \<noteq> k \<Longrightarrow> ladder_view s' k' = ladder_view s k'"
  by (induction cs arbitrary: nl s) (auto simp: Let_def insert_checkpoint_view split: if_splits option.split_asm)

lemma set_last_view:
  "k' \<noteq> k \<Longrightarrow> ladder_view (s\<lparr>LastCheckpoint := (LastCheckpoint s)(k \<mapsto> c)\<rparr>) k' = ladder_view s k'"
  by (simp add: ladder_view_def)

lemma import_view:
  assumes "import_checkpoints cfg supp origin k cs s = Inr s'" and "k' \<noteq> k"
  shows "ladder_view s' k' = ladder_view s k'"
  using assms by (auto simp: import_checkpoints_def do_import_checkpoints_def Let_def set_last_view
      dest!: import_loop_view split: if_splits sum.split_asm option.split_asm)

lemma import_ok:
  assumes "import_checkpoints cfg supp origin k cs s = Inr s'" and "ladder_ok s k"
  shows "ladder_ok s' k"
proof -
  obtain nl s1 where l: "import_loop (LastDigest s k \<noteq> None) (LastCheckpoint s k) k cs (LastCheckpoint s k) s = Inr (nl, s1)"
    using assms(1) by (auto simp: import_checkpoints_def do_import_checkpoints_def Let_def split: if_splits sum.split_asm)
  have "supp k" using assms(1) by (auto simp: import_checkpoints_def do_import_checkpoints_def split: if_splits)
  note s' = assms(1) [unfolded import_checkpoints_def do_import_checkpoints_def Let_def l]
  show ?thesis
  proof (cases "LastCheckpoint s k")
    case None
    then have "fresh_ladder s k None" using assms(2) by (simp add: ladder_ok_def fresh_ladder_def)
    from import_loop_None [OF l [unfolded None] this]
    have f: "fresh_ladder s1 k nl" and "LastCheckpoint s1 k = None" by (simp_all add: None)
    with s' show ?thesis unfolding None
      by (cases nl) (auto simp: ladder_ok_def fresh_ladder_def buckets_agree_def pruned_above_def split: if_splits)
  next
    case (Some c)
    then have "Checkpoints s k (cp_block_number c) = Some (cp_digest c)" "pruned_above s k (cp_block_number c)" "buckets_agree s k"
      using assms(2) by (simp_all add: ladder_ok_def)
    from import_loop_Some [OF l [unfolded Some] this(3,1,2)] s' show ?thesis
      unfolding Some by (auto simp: ladder_ok_def Some split: if_splits)
  qed
qed

lemma set_btree_insert: "set (btree_insert k v m) \<subseteq> insert (k, v) (set m)" "(k, v) \<in> set (btree_insert k v m)"
  by (induction k v m rule: btree_insert.induct) auto

lemma btree_insert_not_Nil: "btree_insert k v m \<noteq> []"
  using set_btree_insert(2) [of k v m] by force

lemma btree_insert_sorted:
  assumes "sorted_wrt (\<lambda>x y. fst x < fst y) m"
  shows "sorted_wrt (\<lambda>x y. fst x < fst y) (btree_insert k v m)"
  using assms
proof (induction k v m rule: btree_insert.induct)
  case (2 k v a b m)
  have "a < fst x" if "x \<in> set (btree_insert k v m)" "\<not> k < a" "k \<noteq> a" for x
    using that 2(2) set_btree_insert(1) [of k v m] by auto
  then show ?case using 2 by auto
qed simp

lemma merge_patch_sorted:
  assumes "cs \<noteq> []"
  shows "sorted_wrt (\<lambda>x y. fst x < fst y) (merge_patch cs)" and "merge_patch cs \<noteq> []"
proof -
  have "sorted_wrt (\<lambda>x y. fst x < fst y) (fold (\<lambda>c m. btree_insert (cp_block_number c) (cp_digest c) m) cs m)"
    if "sorted_wrt (\<lambda>x y. fst x < fst y) m" for m
    using that by (induction cs arbitrary: m) (simp_all add: btree_insert_sorted)
  then show "sorted_wrt (\<lambda>x y. fst x < fst y) (merge_patch cs)" by (simp add: merge_patch_def)
  have "fold (\<lambda>c m. btree_insert (cp_block_number c) (cp_digest c) m) cs m \<noteq> []" if "m \<noteq> [] \<or> cs \<noteq> []" for m
    using that by (induction cs arbitrary: m) (simp_all add: btree_insert_not_Nil)
  then show "merge_patch cs \<noteq> []" using assms by (simp add: merge_patch_def)
qed

lemma sorted_last:
  fixes m :: "(u64 \<times> 'v) list"
  assumes "sorted_wrt (\<lambda>x y. fst x < fst y) m" and "m \<noteq> []"
  shows "\<forall>e\<in>set m. fst e \<le> fst (last m)" and "map_of m (fst (last m)) = Some (snd (last m))" and "distinct (map fst m)"
proof -
  show d: "distinct (map fst m)" using assms(1) by (induction m) (auto simp: image_iff)
  show "map_of m (fst (last m)) = Some (snd (last m))" using d assms(2) by (simp add: map_of_eq_Some_iff)
  have "sorted_wrt (\<lambda>x y. fst x < fst y) (butlast m @ [last m])" using assms by simp
  then have "\<forall>e\<in>set (butlast m). fst e < fst (last m)" by (simp only: sorted_wrt_append) simp
  moreover have "set m = insert (last m) (set (butlast m))" using assms(2) by (metis append_butlast_last_id list.set(1,2) rotate1.simps(2) set_rotate1)
  ultimately show "\<forall>e\<in>set m. fst e \<le> fst (last m)" by auto
qed

definition insert_all ::
  "ChainKey \<Rightarrow> (u64 \<times> Digest) list \<Rightarrow> ('c, 'z) StoreState_scheme \<Rightarrow> ('c, 'z) StoreState_scheme" where
  "insert_all k m = fold (\<lambda>(n, d). insert_checkpoint k \<lparr>cp_block_number = n, cp_digest = d\<rparr>) m"

lemma insert_all_spec:
  assumes "distinct (map fst m)"
  shows "Checkpoints (insert_all k m s) k = Checkpoints s k ++ map_of m"
    and "LastCheckpoint (insert_all k m s) = LastCheckpoint s"
    and "CheckpointPruningStates (insert_all k m s) = CheckpointPruningStates s"
    and "buckets_agree s k \<Longrightarrow> buckets_agree (insert_all k m s) k"
    and "k' \<noteq> k \<Longrightarrow> ladder_view (insert_all k m s) k' = ladder_view s k'"
  using assms unfolding insert_all_def
  by (induction m arbitrary: s)
    (auto simp: insert_checkpoint_agree insert_checkpoint_view fun_eq_iff map_add_def split: option.splits
      dest: map_of_SomeD intro: rev_image_eqI)

lemma purge_patch_fields [simp]:
  "Checkpoints (purge_attestations_for_forward_patch clr k s) = Checkpoints s"
  "CheckpointBuckets (purge_attestations_for_forward_patch clr k s) = CheckpointBuckets s"
  "LastCheckpoint (purge_attestations_for_forward_patch clr k s) = LastCheckpoint s"
  "CheckpointPruningStates (purge_attestations_for_forward_patch clr k s) = CheckpointPruningStates s"
  by (simp_all add: purge_attestations_for_forward_patch_def Let_def split: prod.split)

lemma purge_patch_store_ok:
  assumes "ladder_ok s k" and "CheckpointPruningStates s k = None"
  shows "store_ok (purge_attestations_for_forward_patch clr k s) k"
  by (rule store_ok_same [OF ladder_ok_store_ok [THEN iffD1, OF assms(2,1)]]) simp_all

lemma purge_bucket_above_fields:
  "LastCheckpoint (snd (purge_bucket_above iter k h s)) = LastCheckpoint s"
  "CheckpointPruningStates (snd (purge_bucket_above iter k h s)) = CheckpointPruningStates s"
proof -
  have l: "LastCheckpoint (fold (remove_checkpoint k p) ns s) = LastCheckpoint s" for p ns
    by (induction ns arbitrary: s) (simp_all add: remove_checkpoint_def)
  show "LastCheckpoint (snd (purge_bucket_above iter k h s)) = LastCheckpoint s"
    "CheckpointPruningStates (snd (purge_bucket_above iter k h s)) = CheckpointPruningStates s"
    by (simp_all add: purge_bucket_above_def Let_def fold_if_filter fold_remove_checkpoint l)
qed

lemma purge_bucket_above_view:
  "k' \<noteq> k \<Longrightarrow> ladder_view (snd (purge_bucket_above iter k h s)) k' = ladder_view s k'"
  by (auto simp: ladder_view_def purge_bucket_above_fields fun_eq_iff)
    (simp_all add: purge_bucket_above_def Let_def fold_if_filter fold_remove_checkpoint)

text \<open>After the bucket of a height has been purged above it, the checkpoints above the height lie in
  later buckets.\<close>

lemma purged_later:
  assumes "chain_iteration iter" and "buckets_agree s k" and "h < n"
    and "Checkpoints (snd (purge_bucket_above iter k h s)) k n \<noteq> None"
  shows "saturating_add (compute_block_index_for h) CHECKPOINT_BUCKET_SIZE \<le> compute_block_index_for n"
    and "Checkpoints s k n \<noteq> None"
proof -
  have c: "Checkpoints s k n \<noteq> None" and b: "(k, compute_block_index_for h, n) \<notin> CheckpointBuckets s"
    using assms(3,4) by (auto simp: purge_bucket_above_spec [OF assms(1)] split: if_splits)
  then have "compute_block_index_for n \<noteq> compute_block_index_for h" using assms(2) by (auto simp: buckets_agree_def)
  then show "saturating_add (compute_block_index_for h) CHECKPOINT_BUCKET_SIZE \<le> compute_block_index_for n"
    using assms(3) by (intro pivot_ok_step pivot_ok_index index_mono) simp_all
  show "Checkpoints s k n \<noteq> None" by (rule c)
qed

lemma wipe_above_ok:
  assumes "chain_iteration iter" and "store_ok s k" and "CheckpointPruningStates s k = None"
  shows "buckets_agree (wipe_above iter k b s) k" and "pruned_above (wipe_above iter k b s) k b"
    and "LastCheckpoint (wipe_above iter k b s) = LastCheckpoint s"
    and "k' \<noteq> k \<Longrightarrow> ladder_view (wipe_above iter k b s) k' = ladder_view s k'"
proof -
  let ?s1 = "snd (purge_bucket_above iter k b s)" and ?p = "saturating_add (compute_block_index_for b) CHECKPOINT_BUCKET_SIZE"
  have agree: "buckets_agree s k" using assms(2) by (auto simp: store_ok_def buckets_agree_def)
  have eq: "wipe_above iter k b s = (case LastCheckpoint s k of None \<Rightarrow> ?s1
      | Some lc \<Rightarrow> if cp_block_number lc \<ge> ?p then ?s1\<lparr>CheckpointPruningStates := (CheckpointPruningStates s)
          (k \<mapsto> \<lparr>stop_height = cp_block_number lc, next_pivot = ?p\<rparr>)\<rparr> else ?s1)"
    unfolding wipe_above_def case_prod_unfold Let_def purge_bucket_above_fields purge_bucket_above_spec(1) [OF assms(1)] ..
  show "LastCheckpoint (wipe_above iter k b s) = LastCheckpoint s"
    by (simp add: eq purge_bucket_above_fields split: option.split)
  show "k' \<noteq> k \<Longrightarrow> ladder_view (wipe_above iter k b s) k' = ladder_view s k'"
    using purge_bucket_above_view [of k' k iter b s]
    by (simp add: eq ladder_view_def purge_bucket_above_fields split: option.split)
  have a1: "buckets_agree ?s1 k"
    using agree unfolding buckets_agree_def purge_bucket_above_spec [OF assms(1)] by auto
  then show "buckets_agree (wipe_above iter k b s) k" by (simp add: eq buckets_agree_def split: option.split)
  have top: "n \<le> cp_block_number lc" if "LastCheckpoint s k = Some lc" "Checkpoints s k n \<noteq> None" for lc n
    using that assms(2) by (auto simp: store_ok_def)
  have none: "Checkpoints s k = Map.empty" if "LastCheckpoint s k = None"
    using that assms(2) by (auto simp: store_ok_def)
  show "pruned_above (wipe_above iter k b s) k b"
  proof (cases "LastCheckpoint s k")
    case None
    then show ?thesis using none purged_later(2) [OF assms(1) agree]
      by (auto simp: eq pruned_above_def purge_bucket_above_fields assms(3) not_le [symmetric])
  next
    case (Some lc)
    have later: "?p \<le> compute_block_index_for n \<and> n \<le> cp_block_number lc" if "b < n" "Checkpoints ?s1 k n \<noteq> None" for n
      using purged_later [OF assms(1) agree that] top [OF Some] by blast
    have "n \<le> b" if "\<not> cp_block_number lc \<ge> ?p" "Checkpoints ?s1 k n \<noteq> None" for n
      using later [of n] that index_le [of n] by (meson leI order_trans)
    with later show ?thesis
      using index_less_next [of b] pivot_ok_next [OF pivot_ok_index, of b]
      by (auto simp: eq Some pruned_above_def purge_bucket_above_fields assms(3))
  qed
qed

lemma patch_effect:
  assumes "forward_patch_checkpoints iter clr cfg supp origin k wipe cs s = Inr s'"
  shows "CheckpointPruningStates s k = None" and "cs \<noteq> []"
    and "\<exists>b tip s2 c. last (merge_patch cs) = (b, tip) \<and>
      s2 = (if wipe then wipe_above iter k b (purge_attestations_for_forward_patch clr k s)
        else purge_attestations_for_forward_patch clr k s) \<and>
      c = (case LastCheckpoint s2 k of Some lc \<Rightarrow> if \<not> wipe \<and> cp_block_number lc > b then lc
          else \<lparr>cp_block_number = b, cp_digest = tip\<rparr> | None \<Rightarrow> \<lparr>cp_block_number = b, cp_digest = tip\<rparr>) \<and>
      s' = deposit_event (ForwardCheckpointPatchApplied k wipe (cp_block_number c))
        ((insert_all k (merge_patch cs) s2)\<lparr>LastCheckpoint := (LastCheckpoint s2)(k \<mapsto> c)\<rparr>)"
proof -
  have d: "do_forward_patch_checkpoints iter clr supp k wipe cs s = Inr s'"
    using assms by (simp add: forward_patch_checkpoints_def split: if_splits sum.split_asm)
  then show n: "CheckpointPruningStates s k = None" "cs \<noteq> []"
    by (auto simp: do_forward_patch_checkpoints_def split: if_splits)
  note dist = sorted_last(3) [OF merge_patch_sorted [OF n(2)]]
  obtain b tip where l: "last (merge_patch cs) = (b, tip)" by fastforce
  show "\<exists>b tip s2 c. last (merge_patch cs) = (b, tip) \<and>
      s2 = (if wipe then wipe_above iter k b (purge_attestations_for_forward_patch clr k s)
        else purge_attestations_for_forward_patch clr k s) \<and>
      c = (case LastCheckpoint s2 k of Some lc \<Rightarrow> if \<not> wipe \<and> cp_block_number lc > b then lc
          else \<lparr>cp_block_number = b, cp_digest = tip\<rparr> | None \<Rightarrow> \<lparr>cp_block_number = b, cp_digest = tip\<rparr>) \<and>
      s' = deposit_event (ForwardCheckpointPatchApplied k wipe (cp_block_number c))
        ((insert_all k (merge_patch cs) s2)\<lparr>LastCheckpoint := (LastCheckpoint s2)(k \<mapsto> c)\<rparr>)"
    using d merge_patch_sorted(2) [OF n(2)]
    unfolding do_forward_patch_checkpoints_def Let_def l insert_all_def [symmetric] prod.case insert_all_spec(2) [OF dist]
    by (intro exI [of _ b] exI [of _ tip]) (simp split: if_splits)
qed

lemma patch_ok:
  assumes "forward_patch_checkpoints iter clr cfg supp origin k wipe cs s = Inr s'" and "chain_iteration iter" and "ladder_ok s k"
  shows "ladder_ok s' k"
proof -
  note m = merge_patch_sorted [OF patch_effect(2) [OF assms(1)]]
  let ?m = "merge_patch cs" and ?s1 = "purge_attestations_for_forward_patch clr k s"
  from patch_effect(3) [OF assms(1)] obtain b tip s2 c where l: "last ?m = (b, tip)"
    and s2: "s2 = (if wipe then wipe_above iter k b ?s1 else ?s1)"
    and c: "c = (case LastCheckpoint s2 k of Some lc \<Rightarrow> if \<not> wipe \<and> cp_block_number lc > b then lc
          else \<lparr>cp_block_number = b, cp_digest = tip\<rparr> | None \<Rightarrow> \<lparr>cp_block_number = b, cp_digest = tip\<rparr>)"
    and s': "s' = deposit_event (ForwardCheckpointPatchApplied k wipe (cp_block_number c))
        ((insert_all k ?m s2)\<lparr>LastCheckpoint := (LastCheckpoint s2)(k \<mapsto> c)\<rparr>)"
    by blast
  have np: "CheckpointPruningStates ?s1 k = None" using patch_effect(1) [OF assms(1)] by simp
  have ok: "store_ok ?s1 k" by (rule purge_patch_store_ok [OF assms(3) patch_effect(1) [OF assms(1)]])
  have le: "n \<le> b" if "map_of ?m n \<noteq> None" for n
  proof -
    from that obtain d where "(n, d) \<in> set ?m" by (auto dest: map_of_SomeD)
    then show ?thesis using sorted_last(1) [OF m] l by fastforce
  qed
  have tip: "map_of ?m b = Some tip" using sorted_last(2) [OF m] l by simp
  note ins = insert_all_spec [OF sorted_last(3) [OF m], where k = k and s = s2]
  have f: "Checkpoints s' k = Checkpoints s2 k ++ map_of ?m" "LastCheckpoint s' k = Some c"
    "CheckpointPruningStates s' k = CheckpointPruningStates s2 k"
    "buckets_agree s' k \<longleftrightarrow> buckets_agree (insert_all k ?m s2) k"
    by (simp_all add: s' ins deposit_event_def buckets_agree_def)
  show ?thesis
  proof (cases wipe)
    case True
    note w = wipe_above_ok [OF assms(2) ok np, of b]
    have cb: "cp_block_number c = b" "cp_digest c = tip" using True by (auto simp: c split: option.split)
    have no: "map_of ?m n = None" if "b < n" for n using le [of n] that by (meson leD)
    have "pruned_above s' k b"
      using w(2) le no by (auto simp: pruned_above_def f s2 True map_add_def split: option.splits)
    then show ?thesis using ins(4) w(1) tip by (simp add: ladder_ok_def f cb s2 True)
  next
    case False
    then have eq: "s2 = ?s1" by (simp add: s2)
    have ag: "buckets_agree s2 k" using ok unfolding eq store_ok_def buckets_agree_def by blast
    have pr: "CheckpointPruningStates s2 k = None" using np by (simp add: eq)
    have "Checkpoints s' k (cp_block_number c) = Some (cp_digest c) \<and> (\<forall>n. Checkpoints s' k n \<noteq> None \<longrightarrow> n \<le> cp_block_number c)"
    proof (cases "LastCheckpoint ?s1 k")
      case None
      then have "Checkpoints ?s1 k = Map.empty" using ok by (simp add: store_ok_def)
      then show ?thesis using tip le unfolding f c eq None by simp
    next
      case (Some lc)
      then have t: "Checkpoints ?s1 k (cp_block_number lc) = Some (cp_digest lc)"
        "\<And>n. Checkpoints ?s1 k n \<noteq> None \<Longrightarrow> n \<le> cp_block_number lc"
        using ok by (simp_all add: store_ok_def)
      show ?thesis
      proof (cases "cp_block_number lc > b")
        case True
        then have "map_of ?m (cp_block_number lc) = None" using le [of "cp_block_number lc"] by (meson leD)
        moreover have "n \<le> cp_block_number lc" if "map_of ?m n \<noteq> None" for n using le [OF that] True by simp
        ultimately show ?thesis using t True False
          unfolding f c eq Some by (simp add: map_add_def split: option.split)
      next
        case F: False
        have "n \<le> b" if "Checkpoints ?s1 k n \<noteq> None" for n using t(2) [OF that] F by simp
        then show ?thesis using tip le F False unfolding f c eq Some by (simp add: map_add_def split: option.split)
      qed
    qed
    then show ?thesis using ins(4) [OF ag] by (simp add: ladder_ok_def f pr pruned_above_def)
  qed
qed

lemma patch_view:
  assumes "forward_patch_checkpoints iter clr cfg supp origin k wipe cs s = Inr s'" and "chain_iteration iter"
    and "ladder_ok s k" and "k' \<noteq> k"
  shows "ladder_view s' k' = ladder_view s k'"
proof -
  let ?s1 = "purge_attestations_for_forward_patch clr k s"
  note dist = sorted_last(3) [OF merge_patch_sorted [OF patch_effect(2) [OF assms(1)]]]
  have ok: "store_ok ?s1 k" "CheckpointPruningStates ?s1 k = None"
    using purge_patch_store_ok [OF assms(3)] patch_effect(1) [OF assms(1)] by simp_all
  from patch_effect(3) [OF assms(1)] obtain b s2 c where
    s2: "s2 = (if wipe then wipe_above iter k b ?s1 else ?s1)"
    and s': "s' = deposit_event (ForwardCheckpointPatchApplied k wipe (cp_block_number c))
        ((insert_all k (merge_patch cs) s2)\<lparr>LastCheckpoint := (LastCheckpoint s2)(k \<mapsto> c)\<rparr>)"
    by blast
  have "ladder_view s' k' = ladder_view (insert_all k (merge_patch cs) s2) k'"
    using assms(4) insert_all_spec(2) [OF dist, of k s2] by (simp add: s' ladder_view_def deposit_event_def)
  also have "\<dots> = ladder_view s2 k'" by (rule insert_all_spec(5) [OF dist assms(4)])
  also have "\<dots> = ladder_view ?s1 k'" unfolding s2 using wipe_above_ok(4) [OF assms(2) ok assms(4)] by simp
  also have "\<dots> = ladder_view s k'" by (simp add: ladder_view_def)
  finally show ?thesis .
qed

section \<open>Committing, reverting and pruning\<close>

text \<open>A commit leaves the other chains and the pruning alone.\<close>

definition only_touches :: "ChainKey \<Rightarrow> ('c, 'z) StoreState_scheme \<Rightarrow> ('c, 'z) StoreState_scheme \<Rightarrow> bool" where
  "only_touches k s s' \<longleftrightarrow>
    CheckpointPruningStates s' = CheckpointPruningStates s \<and> (\<forall>k'. k' \<noteq> k \<longrightarrow> ladder_view s' k' = ladder_view s k')"

lemma only_touches_refl [simp, intro]: "only_touches k s s"
  by (simp add: only_touches_def)

lemma only_touches_trans [trans]: "only_touches k s s' \<Longrightarrow> only_touches k s' s'' \<Longrightarrow> only_touches k s s''"
  by (simp add: only_touches_def)

lemma only_touches_record [simp, intro]: "only_touches k s (record_checkpoint k c s)"
  by (auto simp: only_touches_def ladder_view_def fun_eq_iff) (simp_all add: record_checkpoint_def deposit_event_def)

lemma only_touches_remove [simp, intro]: "only_touches k s (remove_attestations cfg k q s)"
  by (simp add: only_touches_def ladder_view_def) (simp add: remove_attestations_def split: prod.split)

lemma only_touches_remove_trans: "only_touches k s s' \<Longrightarrow> only_touches k s (remove_attestations cfg k q s')"
  by (rule only_touches_trans [OF _ only_touches_remove])

lemma only_touches_store [simp, intro]: "only_touches k s (store_attestation kc now k a c s)"
  by (simp add: only_touches_def ladder_view_def) (simp add: store_attestation_def Let_def deposit_event_def)

lemma only_touches_queues [simp]:
  "only_touches k s (s'\<lparr>CheckpointingQueues := q\<rparr>) = only_touches k s s'"
  by (simp add: only_touches_def ladder_view_def)

lemma checkpoint_loop_touches:
  assumes "checkpoint_loop width head digests k lastb s = Some r"
  shows "case r of Inl e \<Rightarrow> True | Inr (b, s') \<Rightarrow> only_touches k s s'"
proof (rule checkpoint_loop.raw_induct [where P = "\<lambda>width head digests k lastb s r.
    case r of Inl e \<Rightarrow> True | Inr (b, s') \<Rightarrow> only_touches k s s'", OF _ assms], goal_cases)
  case (1 loop width head digests k lastb s r)
  let ?n = "saturating_add lastb width" let ?t = "saturating_sub ?n (?n mod width)"
  show ?case
  proof (cases "?t > head")
    case True
    then show ?thesis using 1(2) by (auto simp: Let_def)
  next
    case False
    show ?thesis
    proof (cases "digests ?t")
      case None
      then show ?thesis using 1(2) False by (auto simp: Let_def)
    next
      case (Some d)
      then have "loop width head digests k ?t (record_checkpoint k \<lparr>cp_block_number = ?t, cp_digest = d\<rparr> s) = Some r"
        using 1(2) False by (simp add: Let_def)
      from 1(1) [OF this] show ?thesis
        by (auto split: sum.splits intro: only_touches_trans [OF only_touches_record])
    qed
  qed
qed

lemma checkpoint_at_touches: "only_touches k s (checkpoint_at_attestation cfg k n d q s)"
  unfolding checkpoint_at_attestation_def Let_def by (rule only_touches_trans [OF _ only_touches_remove]) simp

lemma queue_touches: "only_touches k s (queue_attestation w kc cfg k n d s)"
proof -
  obtain queue r where q: "try_make_checkpoint w kc cfg (checkpointing_queue s k @ [d]) k n s = (queue, r)" by fastforce
  have "only_touches k s (case r of Inl _ \<Rightarrow> s | Inr s' \<Rightarrow> s')"
    using q by (auto simp: try_make_checkpoint_def Let_def split: option.split_asm if_splits prod.split_asm sum.split_asm
        intro: only_touches_trans [OF only_touches_record only_touches_remove])
  then show ?thesis
    by (auto simp: queue_attestation_def Let_def q intro: only_touches_trans checkpoint_at_touches)
qed

lemma only_touches_removal_queues [simp]:
  "only_touches k s (s'\<lparr>AttestationRemovalQueues := q\<rparr>) = only_touches k s s'"
  by (simp add: only_touches_def ladder_view_def)

lemma commit_touches:
  assumes "commit_attestation w kc bls cfg supp now origin a s = Some (Inr s')"
  shows "only_touches (sa_chain_key a) s s'"
proof -
  let ?k = "sa_chain_key a" and ?n = "sa_header_number a" and ?d = "sa_digest kc a"
  define s1 where "s1 = store_attestation kc now ?k a (committed_this_block now s ?k) s"
  have t1: "only_touches ?k s s1" by (simp add: s1_def)
  have d: "do_commit_attestation w kc bls cfg supp now a s = Some (Inr s')" by (rule commit_validates(2) [OF assms])
  have "only_touches ?k s1 s'"
  proof (cases "Checkpoints s1 ?k = Map.empty")
    case True
    then have "first_checkpoint cfg ?k ?n ?d s1 = Inr s'"
      using d by (simp add: do_commit_attestation_def Let_def s1_def [symmetric] split: sum.split_asm if_splits)
    then show ?thesis
      by (auto simp: first_checkpoint_def Let_def split: if_splits sum.split_asm option.split_asm
          intro: only_touches_trans [OF only_touches_record])
  next
    case False
    then obtain b s2 where c: "create_checkpoints_from_continuity_proof w kc cfg ?k a ?d s1 = Some (Inr (b, s2))"
      and s': "s' = (if b then s2 else queue_attestation w kc cfg ?k ?n ?d s2)"
      using d by (auto simp: do_commit_attestation_def Let_def s1_def [symmetric]
          split: sum.split_asm if_splits option.split_asm bool.split_asm)
    have "only_touches ?k s1 s2" using c
      by (auto simp: create_checkpoints_from_continuity_proof_def create_checkpoints_from_queue_def Let_def
          split: if_splits option.split_asm sum.split_asm dest!: checkpoint_loop_touches)
        (erule only_touches_remove_trans)
    then show ?thesis using only_touches_trans [OF _ queue_touches] by (cases b) (simp_all add: s')
  qed
  with t1 show ?thesis by (rule only_touches_trans)
qed

lemma commit_ladder:
  assumes "commit_attestation w kc bls cfg supp now origin a s = Some (Inr s')" and "commit_room cfg s a"
    and "ladder_ok s (sa_chain_key a)"
  shows "ladder_ok s' (sa_chain_key a)"
proof -
  have "CheckpointPruningStates s (sa_chain_key a) = None"
    using validate_Inr(2) [OF commit_validates(1) [OF assms(1)]] by (simp add: commit_blocked_by_cleanup_def)
  moreover from this have "CheckpointPruningStates s' (sa_chain_key a) = None"
    using commit_touches [OF assms(1)] by (simp add: only_touches_def)
  ultimately show ?thesis using commit_ok [OF assms(1) _ assms(2)] assms(3) by (simp add: ladder_ok_store_ok)
qed

lemma draining_ladder:
  assumes "draining before k (cp_block_number c) st s" and "CheckpointPruningStates s k = Some st"
    and "LastCheckpoint s k = Some c" and "before (cp_block_number c) = Some (cp_digest c)"
  shows "ladder_ok s k"
  using assms by (auto simp: ladder_ok_def pruned_above_def draining_def buckets_agree_def)

lemma revert_effect:
  assumes "revert_to iter clr cfg supp origin k h s = Inr s'"
  shows "CheckpointPruningStates s k = None"
    and "\<exists>d. Checkpoints s k h = Some d \<and> LastCheckpoint s' k = Some \<lparr>cp_block_number = h, cp_digest = d\<rparr>"
    and "\<exists>st. CheckpointPruningStates s' k = Some st"
    and "k' \<noteq> k \<Longrightarrow> ladder_view s' k' = ladder_view s k'"
proof -
  show "CheckpointPruningStates s k = None"
    using assms by (auto simp: revert_to_def split: if_splits)
  show "\<exists>d. Checkpoints s k h = Some d \<and> LastCheckpoint s' k = Some \<lparr>cp_block_number = h, cp_digest = d\<rparr>"
    "\<exists>st. CheckpointPruningStates s' k = Some st"
    using assms by (auto simp: revert_to_def do_revert_to_def deposit_event_def Let_def
        split: if_splits option.split_asm prod.split_asm)
  obtain rows cur where cl: "clr MAX_ATTESTATIONS_CLEARED_PER_BLOCK (Attestations s k) = (rows, cur)" by fastforce
  define s1 where "s1 = s\<lparr>Attestations := (Attestations s)(k := rows),
      CheckpointingQueues := (CheckpointingQueues s)(k := None),
      AttestationRemovalQueues := (AttestationRemovalQueues s)(k := None),
      AttestationClearingCursors := (AttestationClearingCursors s)(k := cur)\<rparr>"
  assume k: "k' \<noteq> k"
  then have "ladder_view s' k' = ladder_view (snd (purge_bucket_above iter k h s1)) k'"
    using assms by (auto simp: revert_to_def do_revert_to_def deposit_event_def Let_def cl s1_def [symmetric]
        ladder_view_def split: if_splits option.split_asm prod.split_asm)
  also have "\<dots> = ladder_view s1 k'" by (rule purge_bucket_above_view [OF k])
  also have "\<dots> = ladder_view s k'" by (simp add: s1_def ladder_view_def)
  finally show "ladder_view s' k' = ladder_view s k'" .
qed

lemma revert_ladder:
  assumes "revert_to iter clr cfg supp origin k h s = Inr s'" and "chain_iteration iter" and "ladder_ok s k"
  shows "ladder_ok s' k"
proof -
  note e = revert_effect [OF assms(1)]
  from e(2,3) obtain d st where d: "Checkpoints s k h = Some d" "LastCheckpoint s' k = Some \<lparr>cp_block_number = h, cp_digest = d\<rparr>"
    and st: "CheckpointPruningStates s' k = Some st" by blast
  have "store_ok s k" using assms(3) e(1) by (simp add: ladder_ok_store_ok)
  from revert_to_reverted [OF assms(2) this assms(1)] have "draining (Checkpoints s k) k h st s'"
    by (simp add: reverted_def st)
  then show ?thesis using d(1) by (intro draining_ladder [where before = "Checkpoints s k", OF _ st d(2)]) simp_all
qed

lemma prune_loop_keeps:
  assumes "chain_iteration iter"
  shows "LastCheckpoint (prune_loop iter k entries pivots st s) = LastCheckpoint s \<and>
    (buckets_agree s k \<longrightarrow> buckets_agree (prune_loop iter k entries pivots st s) k)"
  using assms
proof (induction iter k entries pivots st s rule: prune_loop.induct)
  case (1 iter k entries pivots st s)
  have l: "LastCheckpoint (fold (remove_checkpoint k p) ns t) = LastCheckpoint t" for p ns and t :: "('a, 'b) StoreState_scheme"
    by (induction ns arbitrary: t) (simp_all add: remove_checkpoint_def)
  have b: "buckets_agree (fold (remove_checkpoint k (next_pivot st)) ns s) k"
    if "buckets_agree s k" "set ns \<subseteq> bucket_heights s k (next_pivot st)" for ns
    using that unfolding buckets_agree_def bucket_heights_def fold_remove_checkpoint by auto
  have sub: "set (take j (take i (iter A))) \<subseteq> A" for i j A
    using set_take_subset [of j "take i (iter A)"] set_take_subset [of i "iter A"]
    unfolding chain_iteration.set_chain_iter [OF 1(3), of A] by (rule subset_trans)
  show ?case
    using 1(1,2) [OF _ _ refl refl refl _ 1(3)] b [OF _ sub]
    by (subst (1 2) prune_loop.simps) (simp add: Let_def l buckets_agree_def)
qed

lemma on_init_prune_ladder:
  assumes "chain_iteration iter" and "ladder_ok s k"
  shows "ladder_ok (on_init_prune_checkpoints iter s) k"
proof (cases "iter (dom (CheckpointPruningStates s))")
  case (Cons k' ks)
  show ?thesis
  proof (cases "CheckpointPruningStates s k'")
    case (Some st)
    let ?s = "prune_loop iter k' MAX_CHECKPOINTS_CLEARED_PER_BLOCK (MAX_CHECKPOINTS_CLEARED_PER_BLOCK * 2) st s"
    have eq: "on_init_prune_checkpoints iter s = ?s"
      by (simp add: on_init_prune_checkpoints_def Cons Some prune_checkpoints_impl_def)
    note keeps = prune_loop_keeps [OF assms(1), of k' MAX_CHECKPOINTS_CLEARED_PER_BLOCK
        "MAX_CHECKPOINTS_CLEARED_PER_BLOCK * 2" st s]
    show ?thesis
    proof (cases "k' = k")
      case True
      with Some assms(2) obtain c where c: "LastCheckpoint s k = Some c"
        and d: "Checkpoints s k (cp_block_number c) = Some (cp_digest c)" and b: "buckets_agree s k"
        by (auto simp: ladder_ok_def split: option.split_asm)
      have "draining (Checkpoints s k) k (cp_block_number c) st s"
        using ladder_ok_draining [OF _ c d b] Some True assms(2) by simp
      from prune_loop_reverted [OF assms(1) order_refl this]
      have r: "reverted (Checkpoints s k) k (cp_block_number c) ?s" unfolding True .
      have c': "LastCheckpoint ?s k = Some c" and b': "buckets_agree ?s k" using keeps c b True by simp_all
      show ?thesis
      proof (cases "CheckpointPruningStates ?s k")
        case None
        then show ?thesis using r c' b' d
          by (simp add: eq ladder_ok_def pruned_above_def reverted_def)
      next
        case (Some st')
        then have "draining (Checkpoints s k) k (cp_block_number c) st' ?s" using r by (simp add: reverted_def)
        from draining_ladder [OF this Some c' d] show ?thesis by (simp add: eq)
      qed
    next
      case False
      show ?thesis unfolding eq
        by (rule ladder_ok_view [OF assms(2)]) (use False keeps in \<open>simp add: ladder_view_def prune_loop_other\<close>)
    qed
  qed (use assms(2) Cons in \<open>simp add: on_init_prune_checkpoints_def\<close>)
qed (use assms(2) in \<open>simp add: on_init_prune_checkpoints_def\<close>)

section \<open>The checkpoints as a system\<close>

inductive ladder_step ::
  "nat \<Rightarrow> keccak \<Rightarrow> ('pk, 'sg) Bls \<Rightarrow> PalletConfig \<Rightarrow> (u64 set \<Rightarrow> u64 list) \<Rightarrow>
   (ChainKey \<Rightarrow> bool) \<times> ('c, 'z) StoreState_scheme \<Rightarrow> (ChainKey \<Rightarrow> bool) \<times> ('c, 'z) StoreState_scheme \<Rightarrow> bool"
  for w kc bls cfg iter where
  commit: "commit_attestation w kc bls cfg supp now origin a s = Some (Inr s') \<Longrightarrow> commit_room cfg s a \<Longrightarrow>
    ladder_step w kc bls cfg iter (supp, s) (supp, s')"
| import: "import_checkpoints cfg supp origin k cs s = Inr s' \<Longrightarrow> ladder_step w kc bls cfg iter (supp, s) (supp, s')"
| patch: "forward_patch_checkpoints iter clr cfg supp origin k wipe cs s = Inr s' \<Longrightarrow>
    ladder_step w kc bls cfg iter (supp, s) (supp, s')"
| revert: "revert_to iter clr cfg supp origin k h s = Inr s' \<Longrightarrow> ladder_step w kc bls cfg iter (supp, s) (supp, s')"
| prune: "ladder_step w kc bls cfg iter (supp, s) (supp, on_init_prune_checkpoints iter s)"
| new_chain: "ladder_view s' k = (Map.empty, {}, None, None) \<Longrightarrow>
    (\<forall>k'. supp k' \<longrightarrow> ladder_view s' k' = ladder_view s k') \<Longrightarrow>
    ladder_step w kc bls cfg iter (supp, s) (supp(k := True), s')"
| elsewhere: "(\<forall>k. supp' k \<longrightarrow> supp k \<and> ladder_view s' k = ladder_view s k) \<Longrightarrow>
    ladder_step w kc bls cfg iter (supp, s) (supp', s')"

definition ladder_inv :: "(ChainKey \<Rightarrow> bool) \<times> ('c, 'z) StoreState_scheme \<Rightarrow> bool" where
  "ladder_inv st \<longleftrightarrow> (\<forall>k. fst st k \<longrightarrow> ladder_ok (snd st) k)"

text \<open>Genesis writes the checkpoints of the configured chains, each of which is configured once, into
  empty storage.\<close>

definition ladder_genesis :: "(ChainKey \<Rightarrow> bool) \<times> ('c, 'z) StoreState_scheme \<Rightarrow> bool" where
  "ladder_genesis st \<longleftrightarrow> (\<exists>cs s0. distinct (map cfg_chain_key cs) \<and>
    (\<forall>k. ladder_view s0 k = (Map.empty, {}, None, None)) \<and> snd st = fold genesis_checkpoints cs s0)"

lemma ladder_ok_empty: "ladder_view s k = (Map.empty, {}, None, None) \<Longrightarrow> ladder_ok s k"
  by (auto simp: ladder_view_def ladder_ok_def buckets_agree_def)

text \<open>A call on one chain keeps the invariant when it keeps it there and leaves the others alone.\<close>

lemma ladder_inv_call:
  assumes "ladder_inv (supp, s)" and "supp k" and "ladder_ok s k \<Longrightarrow> ladder_ok s' k"
    and "\<And>k'. k' \<noteq> k \<Longrightarrow> ladder_ok s k \<Longrightarrow> ladder_view s' k' = ladder_view s k'"
  shows "ladder_inv (supp, s')"
proof -
  have "ladder_ok s' k'" if "supp k'" for k'
    using assms that ladder_ok_view [of s k' s'] by (cases "k' = k") (simp_all add: ladder_inv_def)
  then show ?thesis by (simp add: ladder_inv_def)
qed

lemma ladder_step_inv:
  assumes "chain_iteration iter" and "ladder_step w kc bls cfg iter st st'" and "ladder_inv st"
  shows "ladder_inv st'"
  using assms(2,3)
proof (cases rule: ladder_step.cases)
  case (commit supp now origin a s s')
  have "supp (sa_chain_key a)" by (rule validate_Inr(1) [OF commit_validates(1) [OF commit(3)]])
  then show ?thesis
    using assms(3) commit commit_ladder [OF commit(3,4)] commit_touches [OF commit(3)]
    by (auto simp: only_touches_def intro: ladder_inv_call)
next
  case (import supp origin k cs s s')
  have "supp k" using import(3)
    by (auto simp: import_checkpoints_def do_import_checkpoints_def split: if_splits)
  then show ?thesis using assms(3) import import_ok [OF import(3)] import_view [OF import(3)]
    by (auto intro: ladder_inv_call)
next
  case (patch clr supp origin k wipe cs s s')
  have "supp k" using patch(3)
    by (auto simp: forward_patch_checkpoints_def do_forward_patch_checkpoints_def split: if_splits)
  then show ?thesis
    using assms(3) patch patch_ok [OF patch(3) assms(1)] patch_view [OF patch(3) assms(1)] by (auto intro: ladder_inv_call)
next
  case (revert clr supp origin k h s s')
  have "supp k" using revert(3) by (auto simp: revert_to_def split: if_splits)
  then show ?thesis
    using assms(3) revert revert_ladder [OF revert(3) assms(1)] revert_effect(4) [OF revert(3)] by (auto intro: ladder_inv_call)
next
  case (prune supp s)
  then show ?thesis using assms(3) by (auto simp: ladder_inv_def on_init_prune_ladder [OF assms(1)])
next
  case (new_chain s' k supp s)
  then show ?thesis using assms(3) ladder_ok_empty [of s' k] ladder_ok_view [of s _ s'] by (auto simp: ladder_inv_def)
next
  case (elsewhere supp' supp s' s)
  then show ?thesis using assms(3) ladder_ok_view [of s _ s'] by (auto simp: ladder_inv_def)
qed

lemma genesis_loop_spec:
  assumes "genesis_checkpoint_loop k cs l s = (l', s')"
    and "buckets_agree s k" and "CheckpointPruningStates s k = None"
    and "case l of None \<Rightarrow> Checkpoints s k = Map.empty
      | Some c \<Rightarrow> Checkpoints s k (cp_block_number c) = Some (cp_digest c) \<and> (\<forall>n. Checkpoints s k n \<noteq> None \<longrightarrow> n \<le> cp_block_number c)"
  shows "buckets_agree s' k \<and> CheckpointPruningStates s' = CheckpointPruningStates s \<and> LastCheckpoint s' = LastCheckpoint s \<and>
    (case l' of None \<Rightarrow> Checkpoints s' k = Map.empty
      | Some c \<Rightarrow> Checkpoints s' k (cp_block_number c) = Some (cp_digest c) \<and> (\<forall>n. Checkpoints s' k n \<noteq> None \<longrightarrow> n \<le> cp_block_number c)) \<and>
    (\<forall>k'. k' \<noteq> k \<longrightarrow> ladder_view s' k' = ladder_view s k')"
  using assms
proof (induction k cs l s rule: genesis_checkpoint_loop.induct)
  case (2 k c cs l s)
  let ?l = "if (case l of None \<Rightarrow> True | Some lc \<Rightarrow> cp_block_number c \<ge> cp_block_number lc) then Some c else l"
  let ?s = "s\<lparr>Checkpoints := dmap_set k (cp_block_number c) (Some (cp_digest c)) (Checkpoints s),
    CheckpointBuckets := insert (k, compute_block_index_for (cp_block_number c), cp_block_number c) (CheckpointBuckets s)\<rparr>"
  have b: "buckets_agree ?s k" using 2(3) by (auto simp: buckets_agree_def dmap_set_def)
  have v: "ladder_view ?s k' = ladder_view s k'" if "k' \<noteq> k" for k'
    using that by (simp add: ladder_view_def dmap_set_def)
  have l: "case ?l of None \<Rightarrow> Checkpoints ?s k = Map.empty
      | Some c \<Rightarrow> Checkpoints ?s k (cp_block_number c) = Some (cp_digest c) \<and> (\<forall>n. Checkpoints ?s k n \<noteq> None \<longrightarrow> n \<le> cp_block_number c)"
    using 2(5) by (auto simp: dmap_set_def split: option.splits if_splits)
  show ?case using 2(1) [OF _ b _ l] 2(2,4) v by simp
qed auto

lemma genesis_checkpoints_ok:
  assumes "ladder_view s (cfg_chain_key c) = (Map.empty, {}, None, None)"
  shows "ladder_ok (genesis_checkpoints c s) (cfg_chain_key c)"
    and "k \<noteq> cfg_chain_key c \<Longrightarrow> ladder_view (genesis_checkpoints c s) k = ladder_view s k"
proof -
  obtain l s' where l: "genesis_checkpoint_loop (cfg_chain_key c) (cfg_checkpoints c) None s = (l, s')" by fastforce
  have s: "buckets_agree s (cfg_chain_key c)" "CheckpointPruningStates s (cfg_chain_key c) = None"
      "LastCheckpoint s (cfg_chain_key c) = None" "Checkpoints s (cfg_chain_key c) = Map.empty"
    using assms by (auto simp: ladder_view_def buckets_agree_def)
  note spec = genesis_loop_spec [OF l s(1,2)]
  show "ladder_ok (genesis_checkpoints c s) (cfg_chain_key c)"
    using spec s by (auto simp: genesis_checkpoints_def l ladder_ok_def buckets_agree_def pruned_above_def split: option.splits)
  show "ladder_view (genesis_checkpoints c s) k = ladder_view s k" if "k \<noteq> cfg_chain_key c"
    using spec s that by (auto simp: genesis_checkpoints_def l ladder_view_def split: option.splits)
qed

lemma genesis_fold_ok:
  assumes "distinct (map cfg_chain_key cs)" and "\<And>k. ladder_ok s k"
    and "\<And>c. c \<in> set cs \<Longrightarrow> ladder_view s (cfg_chain_key c) = (Map.empty, {}, None, None)"
  shows "ladder_ok (fold genesis_checkpoints cs s) k"
  using assms
proof (induction cs arbitrary: s)
  case (Cons c cs)
  note e = genesis_checkpoints_ok [OF Cons.prems(3) [of c, simplified]]
  have "ladder_ok (genesis_checkpoints c s) k'" for k'
    using e ladder_ok_view [OF Cons.prems(2) e(2)] by (cases "k' = cfg_chain_key c") simp_all
  moreover have "ladder_view (genesis_checkpoints c s) (cfg_chain_key c') = (Map.empty, {}, None, None)" if "c' \<in> set cs" for c'
  proof -
    have "cfg_chain_key c' \<noteq> cfg_chain_key c" using Cons.prems(1) that by (metis distinct.simps(2) image_eqI list.set_map list.simps(9))
    then show ?thesis using e(2) Cons.prems(3) [of c'] that by simp
  qed
  ultimately show ?case using Cons.IH Cons.prems(1) by simp
qed simp

lemma ladder_genesis_inv: "ladder_genesis st \<Longrightarrow> ladder_inv st"
  unfolding ladder_genesis_def ladder_inv_def using genesis_fold_ok ladder_ok_empty by metis

interpretation ladder_sys: invariant_system ladder_genesis
  "\<lambda>st st'. chain_iteration iter \<and> ladder_step w kc bls cfg iter st st'" ladder_inv
  by unfold_locales (blast intro: ladder_genesis_inv ladder_step_inv)+

lemma ladder_serves:
  assumes "ladder_ok s k" and "LastCheckpoint s k = Some c"
  shows "checkpoint_if_stable s k (cp_block_number c) = Some (cp_digest c)"
    and "cp_block_number c < n \<Longrightarrow> checkpoint_if_stable s k n = None"
proof -
  have p: "pruned_above s k (cp_block_number c)" and d: "Checkpoints s k (cp_block_number c) = Some (cp_digest c)"
    using assms by (simp_all add: ladder_ok_def)
  show "checkpoint_if_stable s k (cp_block_number c) = Some (cp_digest c)"
    using p d by (auto simp: checkpoint_if_stable_def pruned_above_def split: option.splits)
  show "checkpoint_if_stable s k n = None" if "cp_block_number c < n"
    using p that by (cases "Checkpoints s k n") (auto simp: checkpoint_if_stable_def pruned_above_def split: option.splits)
qed

section \<open>Properties\<close>

text \<open>C6: In every state reached from a genesis with any configured checkpoints by commits, imports,
  patches, reverts and the pruning of blocks, on any chains and in any order, a supported chain
  serves its last checkpoint and none above it, its buckets list exactly its checkpoints, and
  without a last checkpoint it has none.\<close>

theorem checkpoint_ladder_invariant:
  assumes "chain_iteration iter" and "ladder_genesis st0" and "(ladder_step w kc bls cfg iter)\<^sup>*\<^sup>* st0 (supp, s)" and "supp k"
  shows "(\<forall>p n. (k, p, n) \<in> CheckpointBuckets s \<longleftrightarrow> Checkpoints s k n \<noteq> None \<and> p = compute_block_index_for n) \<and>
    (case LastCheckpoint s k of None \<Rightarrow> Checkpoints s k = Map.empty
     | Some c \<Rightarrow> checkpoint_if_stable s k (cp_block_number c) = Some (cp_digest c) \<and>
         (\<forall>n>cp_block_number c. checkpoint_if_stable s k n = None))"
proof -
  have "ladder_inv (supp, s)"
    by (rule ladder_sys.reachable_inv [where iter = iter and w = w and kc = kc and bls = bls and cfg = cfg, OF assms(2)])
      (use assms(1,3) in simp)
  then have ok: "ladder_ok s k" using assms(4) by (simp add: ladder_inv_def)
  show ?thesis
  proof (cases "LastCheckpoint s k")
    case None
    then show ?thesis using ok by (simp add: ladder_ok_def buckets_agree_def)
  next
    case (Some c)
    then show ?thesis using ok ladder_serves [OF ok Some] by (simp add: ladder_ok_def buckets_agree_def)
  qed
qed

text \<open>A chain that imports two checkpoints.\<close>

definition example_empty :: "lock_table StoreState" where
  "example_empty = store_default (\<lambda>_. [])"

definition example_import :: "AttestationCheckpoint list" where
  "example_import = [\<lparr>cp_block_number = 40, cp_digest = 4\<rparr>, \<lparr>cp_block_number = 20, cp_digest = 2\<rparr>]"

lemma example_import_step:
  "\<exists>s'. ladder_step 32 (\<lambda>_. 77) signing_bls example_pallet_config sorted_list_of_set (\<lambda>_. True, example_empty) (\<lambda>_. True, s') \<and>
    LastCheckpoint s' 7 = Some \<lparr>cp_block_number = 40, cp_digest = 4\<rparr>"
proof -
  have "\<exists>s'. import_checkpoints example_pallet_config (\<lambda>_. True) Root 7 example_import (example_empty) = Inr s' \<and>
    LastCheckpoint s' 7 = Some \<lparr>cp_block_number = 40, cp_digest = 4\<rparr>"
    by (simp add: import_checkpoints_def do_import_checkpoints_def example_import_def example_pallet_config_def
        example_empty_def store_default_def registry_default_def RegistryState.defs StoreState.defs LedgerState.defs ParamsState.defs
        params_default_def Let_def)
  then show ?thesis by (blast intro: ladder_step.import)
qed

theorem checkpoint_ladder_invariant_witness:
  "\<exists>s'. LastCheckpoint s' 7 = Some \<lparr>cp_block_number = 40, cp_digest = 4\<rparr> \<and>
    checkpoint_if_stable (s' :: lock_table StoreState) 7 40 = Some 4 \<and> checkpoint_if_stable s' 7 41 = None"
proof -
  obtain s' where step: "ladder_step 32 (\<lambda>_. 77) signing_bls example_pallet_config sorted_list_of_set
      (\<lambda>_. True, example_empty) (\<lambda>_. True, s')"
    and last: "LastCheckpoint s' 7 = Some \<lparr>cp_block_number = 40, cp_digest = 4\<rparr>"
    using example_import_step by blast
  have g: "ladder_genesis (\<lambda>_. True, example_empty)"
    unfolding ladder_genesis_def
    by (intro exI [of _ "[]"] exI [of _ example_empty]) (simp add: ladder_view_def example_empty_def store_default_def registry_default_def RegistryState.defs
        StoreState.defs LedgerState.defs ParamsState.defs params_default_def)
  have "(ladder_step 32 (\<lambda>_. 77) signing_bls example_pallet_config sorted_list_of_set)\<^sup>*\<^sup>*
      (\<lambda>_. True, example_empty) (\<lambda>_. True, s')"
    using step by (rule r_into_rtranclp)
  from checkpoint_ladder_invariant [OF chain_key_order.chain_iteration_axioms g this, of 7] last
  show ?thesis by (intro exI [of _ s']) simp
qed

end
