(* ===== verification/Removal.thy ===== *)
theory Removal
  imports Draining
begin

text \<open>The removal of a chain (\<open>clear_or_revert.rs\<close>): the listener \<open>on_supported_chain_removed\<close>, the
  bounded batches that \<open>on_initialize\<close> runs after it, and that they leave nothing of the chain's
  attestors behind.\<close>

section \<open>Definitions\<close>

text \<open>What the storage of the node provides: the order in which the keys of a map are enumerated, by
  chain or height and by account, the enumeration from a raw key on, and \<open>clear_prefix\<close> for each
  map, which is given a limit and a cursor and returns the rows that are left and a cursor if there
  are any; for two of the maps, also the number of rows it removed.\<close>

record HostStorage =
  number_order :: "u64 set \<Rightarrow> u64 list"
  id_order :: "AccountId set \<Rightarrow> AccountId list"
  ids_from :: "bytes \<Rightarrow> AccountId set \<Rightarrow> AccountId list"
  hashed_key_for :: "ChainKey \<Rightarrow> AccountId \<Rightarrow> bytes"
  clear_attestations :: "u32 \<Rightarrow> bytes option \<Rightarrow> (Digest \<rightharpoonup> SignedAttestation) \<Rightarrow> (Digest \<rightharpoonup> SignedAttestation) \<times> bytes option"
  clear_checkpoints :: "u32 \<Rightarrow> bytes option \<Rightarrow> (u64 \<rightharpoonup> Digest) \<Rightarrow> (u64 \<rightharpoonup> Digest) \<times> bytes option"
  clear_buckets :: "u32 \<Rightarrow> bytes option \<Rightarrow> (u64 \<times> u64) set \<Rightarrow> (u64 \<times> u64) set \<times> bytes option"
  clear_owners :: "nat \<Rightarrow> (BlsPublicKey \<rightharpoonup> AccountId) \<Rightarrow> (BlsPublicKey \<rightharpoonup> AccountId) \<times> nat \<times> bytes option"
  clear_invulnerables :: "nat \<Rightarrow> (AccountId \<rightharpoonup> bool) \<Rightarrow> (AccountId \<rightharpoonup> bool) \<times> nat \<times> bytes option"

definition MAX_REMOVAL_CLEANUP_ITEMS_PER_BLOCK :: nat where
  "MAX_REMOVAL_CLEANUP_ITEMS_PER_BLOCK = 40"

text \<open>The body of the loop of \<open>chill_attestors_batch\<close>.\<close>

definition chill_removed ::
  "ChainKey \<Rightarrow> AccountId \<Rightarrow> ('c, 'z) StoreState_scheme \<Rightarrow> ('c, 'z) StoreState_scheme" where
  "chill_removed k a s =
    deposit_event (AttestorChilled k a)
      (s\<lparr>Attestors := dmap_set k a (map_option (\<lambda>at. at\<lparr>status := Idle\<rparr>) (Attestors s k a)) (Attestors s)\<rparr>)"

definition chill_attestors_batch ::
  "HostStorage \<Rightarrow> ChainKey \<Rightarrow> bytes option \<Rightarrow> nat \<Rightarrow> ('c, 'z) StoreState_scheme \<Rightarrow>
   bool \<times> bytes option \<times> nat \<times> ('c, 'z) StoreState_scheme" where
  "chill_attestors_batch h k cursor budget s =
    (let ids = take (budget + 1) (case cursor of
           Some c \<Rightarrow> ids_from h c (dom (Attestors s k)) | None \<Rightarrow> id_order h (dom (Attestors s k)));
         chilled = take budget ids
     in (length ids \<le> budget,
         if chilled = [] then cursor else Some (hashed_key_for h k (last chilled)),
         budget - length chilled,
         fold (chill_removed k) chilled s))"

definition clear_retired_row ::
  "ChainKey \<Rightarrow> AccountId \<times> RetiredAttestorBlsKeyEntry \<Rightarrow> ('c, 'z) StoreState_scheme \<Rightarrow> ('c, 'z) StoreState_scheme" where
  "clear_retired_row k row s =
    remove_stash_retired_index_pair (retired_stash (snd row)) k (fst row)
      (s\<lparr>RetiredAttestorBlsKeys := dmap_set k (fst row) None (RetiredAttestorBlsKeys s)\<rparr>)"

definition clear_retired_keys_batch ::
  "HostStorage \<Rightarrow> ChainKey \<Rightarrow> nat \<Rightarrow> ('c, 'z) StoreState_scheme \<Rightarrow> bool \<times> nat \<times> ('c, 'z) StoreState_scheme" where
  "clear_retired_keys_batch h k budget s =
    (let rows = take (budget + 1) (map (\<lambda>a. (a, the (RetiredAttestorBlsKeys s k a)))
           (id_order h (dom (RetiredAttestorBlsKeys s k))))
     in (length rows \<le> budget, budget - length (take budget rows), fold (clear_retired_row k) (take budget rows) s))"

fun phase_rank :: "RemovedChainCleanupPhase \<Rightarrow> nat" where
  "phase_rank (ChillAttestors _) = 3"
| "phase_rank RetiredKeys = 2"
| "phase_rank BlsKeyOwners = 1"
| "phase_rank InvulnerableRows = 0"

text \<open>The loop of \<open>run_removed_chain_cleanup\<close>, from a phase and with what is left of the budget.\<close>

function cleanup_loop ::
  "HostStorage \<Rightarrow> ChainKey \<Rightarrow> RemovedChainCleanupPhase \<Rightarrow> nat \<Rightarrow> ('c, 'z) StoreState_scheme \<Rightarrow>
   RemovedChainCleanupPhase option \<times> ('c, 'z) StoreState_scheme" where
  "cleanup_loop h k (ChillAttestors cursor) budget s =
    (case chill_attestors_batch h k cursor budget s of (finished, cursor', budget', s') \<Rightarrow>
       if \<not> finished then (Some (ChillAttestors cursor'), s') else cleanup_loop h k RetiredKeys budget' s')"
| "cleanup_loop h k RetiredKeys budget s =
    (case clear_retired_keys_batch h k budget s of (finished, budget', s') \<Rightarrow>
       if \<not> finished then (Some RetiredKeys, s') else cleanup_loop h k BlsKeyOwners budget' s')"
| "cleanup_loop h k BlsKeyOwners budget s =
    (case clear_owners h budget (BlsKeyOwner s k) of (rows, unique, maybe_cursor) \<Rightarrow>
       (let s' = s\<lparr>BlsKeyOwner := (BlsKeyOwner s)(k := rows)\<rparr> in
        if maybe_cursor \<noteq> None then (Some BlsKeyOwners, s')
        else cleanup_loop h k InvulnerableRows (budget - unique) s'))"
| "cleanup_loop h k InvulnerableRows budget s =
    (case clear_invulnerables h budget (Invulnerables s k) of (rows, unique, maybe_cursor) \<Rightarrow>
       (map_option (\<lambda>_. InvulnerableRows) maybe_cursor, s\<lparr>Invulnerables := (Invulnerables s)(k := rows)\<rparr>))"
  by pat_completeness auto
termination
  by (relation "measure (\<lambda>(h, k, phase, budget, s). phase_rank phase)") simp_all

declare cleanup_loop.simps [simp del]

definition run_removed_chain_cleanup ::
  "HostStorage \<Rightarrow> ChainKey \<Rightarrow> RemovedChainCleanupPhase \<Rightarrow> ('c, 'z) StoreState_scheme \<Rightarrow>
   RemovedChainCleanupPhase option \<times> ('c, 'z) StoreState_scheme" where
  "run_removed_chain_cleanup h k phase = cleanup_loop h k phase MAX_REMOVAL_CLEANUP_ITEMS_PER_BLOCK"

definition continue_removed_chain_cleanup ::
  "HostStorage \<Rightarrow> ChainKey \<Rightarrow> RemovedChainCleanupPhase \<Rightarrow> ('c, 'z) StoreState_scheme \<Rightarrow> ('c, 'z) StoreState_scheme" where
  "continue_removed_chain_cleanup h k phase s =
    (case run_removed_chain_cleanup h k phase s of (next_phase, s') \<Rightarrow>
       s'\<lparr>RemovedChainCleanup := (RemovedChainCleanup s')(k := next_phase)\<rparr>)"

definition on_init_cleanup_removed_chains ::
  "HostStorage \<Rightarrow> ('c, 'z) StoreState_scheme \<Rightarrow> ('c, 'z) StoreState_scheme" where
  "on_init_cleanup_removed_chains h s =
    (case number_order h (dom (RemovedChainCleanup s)) of [] \<Rightarrow> s
     | k # _ \<Rightarrow> (case RemovedChainCleanup s k of None \<Rightarrow> s | Some phase \<Rightarrow> continue_removed_chain_cleanup h k phase s))"

text \<open>\<open>clear_prefix\<close> on a map of the chain, with the cursor it leaves.\<close>

definition clear_attestation_rows ::
  "HostStorage \<Rightarrow> ChainKey \<Rightarrow> bytes option \<Rightarrow> ('c, 'z) StoreState_scheme \<Rightarrow> ('c, 'z) StoreState_scheme" where
  "clear_attestation_rows h k cursor s =
    (case clear_attestations h MAX_ATTESTATIONS_CLEARED_PER_BLOCK cursor (Attestations s k) of (rows, maybe_cursor) \<Rightarrow>
       s\<lparr>Attestations := (Attestations s)(k := rows),
         AttestationClearingCursors := (AttestationClearingCursors s)(k := maybe_cursor)\<rparr>)"

definition clear_checkpoint_rows ::
  "HostStorage \<Rightarrow> ChainKey \<Rightarrow> bytes option \<Rightarrow> ('c, 'z) StoreState_scheme \<Rightarrow> bytes option \<times> ('c, 'z) StoreState_scheme" where
  "clear_checkpoint_rows h k cursor s =
    (case clear_checkpoints h (of_nat MAX_CHECKPOINTS_CLEARED_PER_BLOCK) cursor (Checkpoints s k) of (rows, maybe_cursor) \<Rightarrow>
       (maybe_cursor, s\<lparr>Checkpoints := (Checkpoints s)(k := rows)\<rparr>))"

definition clear_bucket_rows ::
  "HostStorage \<Rightarrow> ChainKey \<Rightarrow> bytes option \<Rightarrow> ('c, 'z) StoreState_scheme \<Rightarrow> bytes option \<times> ('c, 'z) StoreState_scheme" where
  "clear_bucket_rows h k cursor s =
    (case clear_buckets h (of_nat MAX_CHECKPOINTS_CLEARED_PER_BLOCK) cursor {(p, n). (k, p, n) \<in> CheckpointBuckets s} of
       (rows, maybe_cursor) \<Rightarrow>
         (maybe_cursor, s\<lparr>CheckpointBuckets := {(k', p, n). (k', p, n) \<in> CheckpointBuckets s \<and> (k' \<noteq> k \<or> (p, n) \<in> rows)}\<rparr>))"

definition on_init_clear_checkpoints ::
  "HostStorage \<Rightarrow> ('c, 'z) StoreState_scheme \<Rightarrow> ('c, 'z) StoreState_scheme" where
  "on_init_clear_checkpoints h s =
    (case number_order h (dom (CheckpointClearingCursors s)) of [] \<Rightarrow> s
     | k # _ \<Rightarrow> (case clear_checkpoint_rows h k (CheckpointClearingCursors s k) s of (maybe_cursor, s') \<Rightarrow>
         deposit_event (CheckpointsCleared k)
           (s'\<lparr>CheckpointClearingCursors := (CheckpointClearingCursors s')(k := maybe_cursor)\<rparr>)))"

definition on_init_clear_buckets ::
  "HostStorage \<Rightarrow> ('c, 'z) StoreState_scheme \<Rightarrow> ('c, 'z) StoreState_scheme" where
  "on_init_clear_buckets h s =
    (case number_order h (dom (BucketClearingCursors s)) of [] \<Rightarrow> s
     | k # _ \<Rightarrow> (case clear_bucket_rows h k (BucketClearingCursors s k) s of (maybe_cursor, s') \<Rightarrow>
         s'\<lparr>BucketClearingCursors := (BucketClearingCursors s')(k := maybe_cursor)\<rparr>))"

definition on_init_clear_attestations ::
  "HostStorage \<Rightarrow> ('c, 'z) StoreState_scheme \<Rightarrow> ('c, 'z) StoreState_scheme" where
  "on_init_clear_attestations h s =
    (case number_order h (dom (AttestationClearingCursors s)) of [] \<Rightarrow> s
     | k # _ \<Rightarrow> clear_attestation_rows h k (AttestationClearingCursors s k) s)"

definition on_initialize :: "HostStorage \<Rightarrow> ('c, 'z) StoreState_scheme \<Rightarrow> ('c, 'z) StoreState_scheme" where
  "on_initialize h s =
    on_init_cleanup_removed_chains h (on_init_clear_attestations h (on_init_clear_buckets h
      (on_init_clear_checkpoints h (on_init_prune_checkpoints (number_order h) s))))"

definition clear_removed_checkpoints ::
  "HostStorage \<Rightarrow> ChainKey \<Rightarrow> ('c, 'z) StoreState_scheme \<Rightarrow> ('c, 'z) StoreState_scheme" where
  "clear_removed_checkpoints h k s =
    (let (maybe_cursor, s1) = clear_checkpoint_rows h k None s;
         s2 = (if maybe_cursor \<noteq> None
           then s1\<lparr>CheckpointClearingCursors := (CheckpointClearingCursors s1)(k := maybe_cursor)\<rparr>
           else deposit_event (CheckpointsCleared k) s1);
         (maybe_buckets_cursor, s3) = clear_bucket_rows h k None s2
     in if maybe_buckets_cursor \<noteq> None
        then s3\<lparr>BucketClearingCursors := (BucketClearingCursors s3)(k := maybe_buckets_cursor)\<rparr> else s3)"

definition on_supported_chain_removed ::
  "HostStorage \<Rightarrow> ChainKey \<Rightarrow> bool \<Rightarrow> ('c, 'z) StoreState_scheme \<Rightarrow> ('c, 'z) StoreState_scheme" where
  "on_supported_chain_removed h k remove_checkpoints s =
    (let s1 = continue_removed_chain_cleanup h k (ChillAttestors None)
           (s\<lparr>ActiveAttestors := (ActiveAttestors s)(k := None)\<rparr>);
         s2 = remove_chain_params k (clear_attestation_rows h k None s1);
         s3 = s2\<lparr>CheckpointingQueues := (CheckpointingQueues s2)(k := None),
                 AttestationRemovalQueues := (AttestationRemovalQueues s2)(k := None),
                 AttestationsInBlock := (AttestationsInBlock s2)(k := None),
                 LastCheckpoint := (LastCheckpoint s2)(k := None),
                 LastDigest := (LastDigest s2)(k := None)\<rparr>;
         s4 = (if remove_checkpoints then clear_removed_checkpoints h k s3 else s3)
     in deposit_event (ClearedStorageForRemovedChain k)
          (s4\<lparr>CheckpointPruningStates := (CheckpointPruningStates s4)(k := None)\<rparr>))"

section \<open>Batches\<close>

text \<open>What the cleanup relies on of the storage.  Keys are enumerated in one order, also from a key on;
  \<open>clear_prefix\<close> removes rows, at least one of them if it may, and returns no cursor only when none
  is left.\<close>

locale removal_host =
  fixes h :: HostStorage
  assumes numbers: "chain_iteration (number_order h)"
    and set_ids: "set (id_order h A) = A" and distinct_ids: "distinct (id_order h A)"
    and ids_after: "id_order h A = xs @ a # ys \<Longrightarrow> ids_from h (hashed_key_for h k a) A = ys"
    and owners: "clear_owners h n m = (m', u, c) \<Longrightarrow>
      dom m' \<subseteq> dom m \<and> (c = None \<longrightarrow> m' = Map.empty) \<and> (c \<noteq> None \<longrightarrow> 0 < n \<longrightarrow> dom m' \<noteq> dom m)"
    and invulnerables: "clear_invulnerables h n m2 = (m2', u, c) \<Longrightarrow>
      dom m2' \<subseteq> dom m2 \<and> (c = None \<longrightarrow> m2' = Map.empty) \<and> (c \<noteq> None \<longrightarrow> 0 < n \<longrightarrow> dom m2' \<noteq> dom m2)"

definition all_idle :: "('c, 'z) StoreState_scheme \<Rightarrow> ChainKey \<Rightarrow> AccountId set \<Rightarrow> bool" where
  "all_idle s k A \<longleftrightarrow> (\<forall>a at. a \<in> A \<longrightarrow> Attestors s k a = Some at \<longrightarrow> status at = Idle)"

definition remaining :: "HostStorage \<Rightarrow> ('c, 'z) StoreState_scheme \<Rightarrow> ChainKey \<Rightarrow> bytes option \<Rightarrow> AccountId list" where
  "remaining h s k cursor =
    (case cursor of Some c \<Rightarrow> ids_from h c (dom (Attestors s k)) | None \<Rightarrow> id_order h (dom (Attestors s k)))"

text \<open>What is done before a phase, and after the last.\<close>

definition phase_ok :: "HostStorage \<Rightarrow> ('c, 'z) StoreState_scheme \<Rightarrow> ChainKey \<Rightarrow> RemovedChainCleanupPhase \<Rightarrow> bool" where
  "phase_ok h s k phase \<longleftrightarrow>
    (case phase of
       ChillAttestors cursor \<Rightarrow>
         \<exists>xs. id_order h (dom (Attestors s k)) = xs @ remaining h s k cursor \<and> all_idle s k (set xs)
     | RetiredKeys \<Rightarrow> all_idle s k UNIV
     | BlsKeyOwners \<Rightarrow> all_idle s k UNIV \<and> RetiredAttestorBlsKeys s k = Map.empty
     | InvulnerableRows \<Rightarrow> all_idle s k UNIV \<and> RetiredAttestorBlsKeys s k = Map.empty \<and> BlsKeyOwner s k = Map.empty)"

definition cleaned :: "('c, 'z) StoreState_scheme \<Rightarrow> ChainKey \<Rightarrow> bool" where
  "cleaned s k \<longleftrightarrow> all_idle s k UNIV \<and> RetiredAttestorBlsKeys s k = Map.empty \<and>
    BlsKeyOwner s k = Map.empty \<and> Invulnerables s k = Map.empty"

definition phase_work :: "HostStorage \<Rightarrow> ('c, 'z) StoreState_scheme \<Rightarrow> ChainKey \<Rightarrow> RemovedChainCleanupPhase \<Rightarrow> nat" where
  "phase_work h s k phase =
    (case phase of ChillAttestors cursor \<Rightarrow> length (remaining h s k cursor) | _ \<Rightarrow> 0) + phase_rank phase +
    card (dom (RetiredAttestorBlsKeys s k)) + card (dom (BlsKeyOwner s k)) + card (dom (Invulnerables s k))"

lemma fold_chill_removed:
  "Attestors (fold (chill_removed k) as s) k' a =
    (if k' = k \<and> a \<in> set as then map_option (\<lambda>at. at\<lparr>status := Idle\<rparr>) (Attestors s k' a) else Attestors s k' a)"
  "RetiredAttestorBlsKeys (fold (chill_removed k) as s) = RetiredAttestorBlsKeys s"
  "BlsKeyOwner (fold (chill_removed k) as s) = BlsKeyOwner s"
  "Invulnerables (fold (chill_removed k) as s) = Invulnerables s"
  "RemovedChainCleanup (fold (chill_removed k) as s) = RemovedChainCleanup s"
  by (induction as arbitrary: s) (auto simp: chill_removed_def deposit_event_def option.map_comp o_def)

lemma dom_fold_chill_removed: "dom (Attestors (fold (chill_removed k) as s) k') = dom (Attestors s k')"
  by (auto simp: dom_def fold_chill_removed)

lemma fold_clear_retired_row:
  "RetiredAttestorBlsKeys (fold (clear_retired_row k) rows s) k' a =
    (if k' = k \<and> a \<in> fst ` set rows then None else RetiredAttestorBlsKeys s k' a)"
  "Attestors (fold (clear_retired_row k) rows s) = Attestors s"
  "BlsKeyOwner (fold (clear_retired_row k) rows s) = BlsKeyOwner s"
  "Invulnerables (fold (clear_retired_row k) rows s) = Invulnerables s"
  "RemovedChainCleanup (fold (clear_retired_row k) rows s) = RemovedChainCleanup s"
  by (induction rows arbitrary: s)
    (auto simp: clear_retired_row_def remove_stash_retired_index_pair_def Let_def split: option.splits)

context removal_host
begin

lemma chill_batch:
  assumes "chill_attestors_batch h k cursor b s = (finished, cursor', b', s')" and "phase_ok h s k (ChillAttestors cursor)"
  shows "phase_ok h s' k (ChillAttestors cursor')" and "finished \<Longrightarrow> all_idle s' k UNIV"
    and "\<not> finished \<Longrightarrow> 0 < b \<Longrightarrow> length (remaining h s' k cursor') < length (remaining h s k cursor)"
    and "length (remaining h s' k cursor') \<le> length (remaining h s k cursor)"
proof -
  let ?rem = "remaining h s k cursor"
  obtain xs where xs: "id_order h (dom (Attestors s k)) = xs @ ?rem" and idle: "all_idle s k (set xs)"
    using assms(2) by (auto simp: phase_ok_def)
  have s': "s' = fold (chill_removed k) (take b ?rem) s" and fin: "finished \<longleftrightarrow> length ?rem \<le> b"
    and c': "cursor' = (if take b ?rem = [] then cursor else Some (hashed_key_for h k (last (take b ?rem))))"
    using assms(1) by (auto simp: chill_attestors_batch_def Let_def remaining_def [symmetric])
  have dom: "dom (Attestors s' k) = dom (Attestors s k)" by (simp add: s' dom_fold_chill_removed)
  have rem': "remaining h s' k cursor' = drop b ?rem"
  proof (cases "take b ?rem = []")
    case True
    have "remaining h s' k c = remaining h s k c" for c unfolding remaining_def dom ..
    then show ?thesis using c' True by auto
  next
    case False
    have "id_order h (dom (Attestors s k)) = (xs @ butlast (take b ?rem)) @ last (take b ?rem) # drop b ?rem"
      using append_butlast_last_id [OF False] xs by (metis append.assoc append_Cons append_Nil append_take_drop_id)
    from ids_after [OF this] False show ?thesis by (simp add: c' remaining_def [of _ s'] dom)
  qed
  have idle': "all_idle s' k (set (xs @ take b ?rem))"
    using idle by (auto simp: all_idle_def s' fold_chill_removed)
  show "phase_ok h s' k (ChillAttestors cursor')"
    unfolding phase_ok_def using idle' xs by (auto simp: rem' dom intro!: exI [of _ "xs @ take b ?rem"])
  show "all_idle s' k UNIV" if finished
  proof -
    have "set (xs @ take b ?rem) = dom (Attestors s' k)" using that fin xs set_ids [of "dom (Attestors s k)"] by (simp add: dom)
    with idle' show ?thesis by (auto simp: all_idle_def dom_def)
  qed
  show "length (remaining h s' k cursor') < length ?rem" if "\<not> finished" "0 < b"
    using that fin by (simp add: rem')
  show "length (remaining h s' k cursor') \<le> length ?rem" by (simp add: rem')
qed

lemma retired_batch:
  assumes "clear_retired_keys_batch h k b s = (finished, b', s')"
  shows "finished \<Longrightarrow> RetiredAttestorBlsKeys s' k = Map.empty"
    and "\<not> finished \<Longrightarrow> 0 < b \<Longrightarrow> card (dom (RetiredAttestorBlsKeys s' k)) < card (dom (RetiredAttestorBlsKeys s k))"
    and "card (dom (RetiredAttestorBlsKeys s' k)) \<le> card (dom (RetiredAttestorBlsKeys s k))"
    and "Attestors s' = Attestors s" and "BlsKeyOwner s' = BlsKeyOwner s" and "Invulnerables s' = Invulnerables s"
proof -
  let ?A = "dom (RetiredAttestorBlsKeys s k)"
  let ?rows = "map (\<lambda>a. (a, the (RetiredAttestorBlsKeys s k a))) (id_order h ?A)"
  have s': "s' = fold (clear_retired_row k) (take b ?rows) s" and fin: "finished \<longleftrightarrow> length ?rows \<le> b"
    using assms by (auto simp: clear_retired_keys_batch_def Let_def)
  have fst: "fst ` set (take b ?rows) = set (take b (id_order h ?A))" by (force simp: take_map)
  have d: "dom (RetiredAttestorBlsKeys s' k) = ?A - set (take b (id_order h ?A))"
  proof (rule set_eqI)
    fix a
    show "a \<in> dom (RetiredAttestorBlsKeys s' k) \<longleftrightarrow> a \<in> ?A - set (take b (id_order h ?A))"
      unfolding Diff_iff domIff [of a] s' fold_clear_retired_row fst by simp
  qed
  show "Attestors s' = Attestors s" "BlsKeyOwner s' = BlsKeyOwner s" "Invulnerables s' = Invulnerables s"
    by (simp_all add: s' fold_clear_retired_row)
  show "card (dom (RetiredAttestorBlsKeys s' k)) \<le> card ?A" unfolding d by (intro card_mono) auto
  show "RetiredAttestorBlsKeys s' k = Map.empty" if finished
    using that fin set_ids [of ?A] by (simp add: d flip: dom_eq_empty_conv)
  show "card (dom (RetiredAttestorBlsKeys s' k)) < card ?A" if "\<not> finished" "0 < b"
  proof -
    have "take b (id_order h ?A) \<noteq> []" using that fin by auto
    then have "hd (take b (id_order h ?A)) \<in> set (take b (id_order h ?A)) \<inter> ?A"
      using hd_in_set [of "take b (id_order h ?A)"] set_take_subset [of b "id_order h ?A"] set_ids [of ?A] by blast
    then show ?thesis unfolding d by (intro psubset_card_mono) auto
  qed
qed

lemma cleanup_loop_ok:
  assumes "phase_ok h s k phase" and "cleanup_loop h k phase b s = (r, s')"
  shows "case r of None \<Rightarrow> cleaned s' k
    | Some phase' \<Rightarrow> phase_ok h s' k phase' \<and> phase_work h s' k phase' \<le> phase_work h s k phase \<and>
        (0 < b \<longrightarrow> phase_work h s' k phase' < phase_work h s k phase)"
  using assms
proof (induction "phase_rank phase" arbitrary: phase b s rule: less_induct)
  case less
  show ?case
  proof (cases phase)
    case (ChillAttestors cursor)
    obtain finished cursor' b' s1 where e: "chill_attestors_batch h k cursor b s = (finished, cursor', b', s1)"
      by (metis prod_cases4)
    note c = chill_batch [OF e less.prems(1) [unfolded ChillAttestors]]
    have f: "RetiredAttestorBlsKeys s1 = RetiredAttestorBlsKeys s" "BlsKeyOwner s1 = BlsKeyOwner s" "Invulnerables s1 = Invulnerables s"
      using e by (auto simp: chill_attestors_batch_def Let_def fold_chill_removed)
    show ?thesis
    proof (cases finished)
      case False
      then show ?thesis using less.prems(2) c f by (auto simp: ChillAttestors cleanup_loop.simps e phase_work_def)
    next
      case True
      then have "cleanup_loop h k RetiredKeys b' s1 = (r, s')" using less.prems(2) by (simp add: ChillAttestors cleanup_loop.simps e)
      from less.hyps [OF _ _ this] c(2) [OF True] show ?thesis
        by (auto simp: ChillAttestors phase_ok_def [of _ _ _ RetiredKeys] phase_work_def [of _ s1] phase_work_def [of _ s] f split: option.splits)
    qed
  next
    case RetiredKeys
    obtain finished b' s1 where e: "clear_retired_keys_batch h k b s = (finished, b', s1)" by (metis prod_cases3)
    note c = retired_batch [OF e]
    have i: "all_idle s1 k UNIV" using less.prems(1) by (simp add: RetiredKeys phase_ok_def all_idle_def c(4))
    show ?thesis
    proof (cases finished)
      case False
      then show ?thesis using less.prems(2) c(2,3,5,6) i
        by (auto simp: RetiredKeys cleanup_loop.simps e phase_work_def phase_ok_def)
    next
      case True
      then have "cleanup_loop h k BlsKeyOwners b' s1 = (r, s')" using less.prems(2) by (simp add: RetiredKeys cleanup_loop.simps e)
      from less.hyps [OF _ _ this] c(1) [OF True] i show ?thesis
        by (auto simp: RetiredKeys phase_ok_def [of _ _ _ BlsKeyOwners] phase_work_def [of _ s1] phase_work_def [of _ s] c(5,6) split: option.splits)
    qed
  next
    case BlsKeyOwners
    obtain rows u c where e: "clear_owners h b (BlsKeyOwner s k) = (rows, u, c)" by (metis prod_cases3)
    let ?s = "s\<lparr>BlsKeyOwner := (BlsKeyOwner s)(k := rows)\<rparr>"
    note o = owners [OF e]
    have i: "all_idle ?s k UNIV" "RetiredAttestorBlsKeys ?s k = Map.empty"
      using less.prems(1) by (simp_all add: BlsKeyOwners phase_ok_def all_idle_def)
    have le: "card (dom rows) \<le> card (dom (BlsKeyOwner s k))" using o by (intro card_mono) simp_all
    show ?thesis
    proof (cases c)
      case (Some c')
      then have "0 < b \<Longrightarrow> card (dom rows) < card (dom (BlsKeyOwner s k))" using o by (intro psubset_card_mono) auto
      then show ?thesis using less.prems(2) le i
        by (auto simp: BlsKeyOwners cleanup_loop.simps e Let_def Some phase_ok_def phase_work_def)
    next
      case None
      then have "cleanup_loop h k InvulnerableRows (b - u) ?s = (r, s')"
        using less.prems(2) by (simp add: BlsKeyOwners cleanup_loop.simps(3) e Let_def)
      moreover have "phase_ok h ?s k InvulnerableRows" using i None o by (simp add: phase_ok_def)
      moreover have "phase_work h ?s k InvulnerableRows < phase_work h s k BlsKeyOwners" using le by (simp add: phase_work_def)
      ultimately show ?thesis using less.hyps [of InvulnerableRows ?s "b - u"]
        by (auto simp: BlsKeyOwners split: option.splits)
    qed
  next
    case InvulnerableRows
    obtain rows u c where e: "clear_invulnerables h b (Invulnerables s k) = (rows, u, c)" by (metis prod_cases3)
    note o = invulnerables [OF e]
    have "card (dom rows) \<le> card (dom (Invulnerables s k))" using o by (intro card_mono) simp_all
    moreover have "c \<noteq> None \<Longrightarrow> 0 < b \<Longrightarrow> card (dom rows) < card (dom (Invulnerables s k))"
      using o by (intro psubset_card_mono) auto
    ultimately show ?thesis using less.prems o
      by (cases c) (auto simp: InvulnerableRows cleanup_loop.simps e cleaned_def phase_ok_def phase_work_def all_idle_def)
  qed
qed

end

section \<open>The cleanup ends\<close>

text \<open>What the cleanup reads and writes of a chain.\<close>

definition removal_view ::
  "('c, 'z) StoreState_scheme \<Rightarrow> ChainKey \<Rightarrow> (AccountId \<rightharpoonup> Attestor) \<times> (AccountId \<rightharpoonup> RetiredAttestorBlsKeyEntry) \<times>
   (BlsPublicKey \<rightharpoonup> AccountId) \<times> (AccountId \<rightharpoonup> bool)" where
  "removal_view s k = (Attestors s k, RetiredAttestorBlsKeys s k, BlsKeyOwner s k, Invulnerables s k)"

lemma removal_view_same:
  assumes "removal_view s' k = removal_view s k"
  shows "phase_ok h s' k phase = phase_ok h s k phase" and "phase_work h s' k phase = phase_work h s k phase"
    and "cleaned s' k = cleaned s k"
proof -
  have v: "Attestors s' k = Attestors s k" "RetiredAttestorBlsKeys s' k = RetiredAttestorBlsKeys s k"
    "BlsKeyOwner s' k = BlsKeyOwner s k" "Invulnerables s' k = Invulnerables s k"
    using assms by (simp_all add: removal_view_def)
  show "phase_ok h s' k phase = phase_ok h s k phase" "phase_work h s' k phase = phase_work h s k phase" "cleaned s' k = cleaned s k"
    unfolding phase_ok_def phase_work_def cleaned_def all_idle_def remaining_def v by simp_all
qed

lemma cleanup_loop_other:
  assumes "cleanup_loop h k phase b s = (r, s')"
  shows "RemovedChainCleanup s' = RemovedChainCleanup s \<and> (k' \<noteq> k \<longrightarrow> removal_view s' k' = removal_view s k')"
  using assms
proof (induction h k phase b s arbitrary: r rule: cleanup_loop.induct)
  case (1 h k cursor budget s)
  have v: "k' \<noteq> k \<Longrightarrow> removal_view (fold (chill_removed k) as s) k' = removal_view s k'" for as
    by (simp add: removal_view_def fold_chill_removed fun_eq_iff)
  obtain finished cursor' b' s1 where e: "chill_attestors_batch h k cursor budget s = (finished, cursor', b', s1)"
    by (metis prod_cases4)
  then have s1: "RemovedChainCleanup s1 = RemovedChainCleanup s" "k' \<noteq> k \<Longrightarrow> removal_view s1 k' = removal_view s k'"
    by (auto simp: chill_attestors_batch_def Let_def fold_chill_removed v)
  show ?case
    using 1(1) [OF e [symmetric] refl refl, of r] 1(2) s1 by (cases finished) (simp_all add: cleanup_loop.simps e)
next
  case (2 h k budget s)
  have v: "k' \<noteq> k \<Longrightarrow> removal_view (fold (clear_retired_row k) rows s) k' = removal_view s k'" for rows
    by (simp add: removal_view_def fold_clear_retired_row fun_eq_iff)
  obtain finished b' s1 where e: "clear_retired_keys_batch h k budget s = (finished, b', s1)" by (metis prod_cases3)
  then have s1: "RemovedChainCleanup s1 = RemovedChainCleanup s" "k' \<noteq> k \<Longrightarrow> removal_view s1 k' = removal_view s k'"
    by (auto simp: clear_retired_keys_batch_def Let_def fold_clear_retired_row v)
  show ?case
    using 2(1) [OF e [symmetric] refl, of r] 2(2) s1 by (cases finished) (simp_all add: cleanup_loop.simps e)
next
  case (3 h k budget s)
  obtain rows u c where e: "clear_owners h budget (BlsKeyOwner s k) = (rows, u, c)" by (metis prod_cases3)
  let ?s = "s\<lparr>BlsKeyOwner := (BlsKeyOwner s)(k := rows)\<rparr>"
  have s1: "RemovedChainCleanup ?s = RemovedChainCleanup s" "k' \<noteq> k \<Longrightarrow> removal_view ?s k' = removal_view s k'"
    by (simp_all add: removal_view_def)
  show ?case
    using 3(1) [OF e [symmetric] refl refl, of r] 3(2) s1 by (cases c) (auto simp: cleanup_loop.simps(3) e Let_def)
next
  case (4 h k budget s)
  then show ?case by (auto simp: cleanup_loop.simps(4) removal_view_def split: prod.split_asm)
qed

definition removal_work :: "HostStorage \<Rightarrow> ('c, 'z) StoreState_scheme \<Rightarrow> ChainKey \<Rightarrow> nat" where
  "removal_work h s k = (case RemovedChainCleanup s k of None \<Rightarrow> 0 | Some phase \<Rightarrow> phase_work h s k phase)"

definition removal_ok :: "HostStorage \<Rightarrow> ('c, 'z) StoreState_scheme \<Rightarrow> bool" where
  "removal_ok h s \<longleftrightarrow> (\<forall>k phase. RemovedChainCleanup s k = Some phase \<longrightarrow> phase_ok h s k phase)"

text \<open>One batch: it finishes the chain or lessens its work, and leaves the other chains alone.\<close>

lemma continue_cleanup:
  assumes "removal_host h" and "phase_ok h s k phase"
  shows "case RemovedChainCleanup (continue_removed_chain_cleanup h k phase s) k of
      None \<Rightarrow> cleaned (continue_removed_chain_cleanup h k phase s) k
    | Some phase' \<Rightarrow> phase_ok h (continue_removed_chain_cleanup h k phase s) k phase' \<and>
        phase_work h (continue_removed_chain_cleanup h k phase s) k phase' < phase_work h s k phase"
    and "k' \<noteq> k \<Longrightarrow> RemovedChainCleanup (continue_removed_chain_cleanup h k phase s) k' = RemovedChainCleanup s k' \<and>
      removal_view (continue_removed_chain_cleanup h k phase s) k' = removal_view s k'"
proof -
  obtain r s1 where e: "cleanup_loop h k phase 40 s = (r, s1)" by fastforce
  let ?s = "s1\<lparr>RemovedChainCleanup := (RemovedChainCleanup s1)(k := r)\<rparr>"
  have eq: "continue_removed_chain_cleanup h k phase s = ?s"
    by (simp add: continue_removed_chain_cleanup_def run_removed_chain_cleanup_def MAX_REMOVAL_CLEANUP_ITEMS_PER_BLOCK_def e)
  have v: "removal_view ?s j = removal_view s1 j" for j by (simp add: removal_view_def)
  note same = removal_view_same [OF v]
  show "case RemovedChainCleanup (continue_removed_chain_cleanup h k phase s) k of
      None \<Rightarrow> cleaned (continue_removed_chain_cleanup h k phase s) k
    | Some phase' \<Rightarrow> phase_ok h (continue_removed_chain_cleanup h k phase s) k phase' \<and>
        phase_work h (continue_removed_chain_cleanup h k phase s) k phase' < phase_work h s k phase"
    using removal_host.cleanup_loop_ok [OF assms e] unfolding eq same by (cases r) simp_all
  show "k' \<noteq> k \<Longrightarrow> RemovedChainCleanup (continue_removed_chain_cleanup h k phase s) k' = RemovedChainCleanup s k' \<and>
      removal_view (continue_removed_chain_cleanup h k phase s) k' = removal_view s k'"
    using cleanup_loop_other [OF e, of k'] v [of k'] unfolding eq by simp
qed

lemma on_init_cleanup_cases:
  assumes "removal_host h"
  obtains (idle) "RemovedChainCleanup s = Map.empty" and "on_init_cleanup_removed_chains h s = s"
  | (serve) k phase where "RemovedChainCleanup s k = Some phase"
      and "on_init_cleanup_removed_chains h s = continue_removed_chain_cleanup h k phase s"
proof (cases "number_order h (dom (RemovedChainCleanup s))")
  case Nil
  then have "dom (RemovedChainCleanup s) = {}"
    using chain_iteration.set_chain_iter [OF removal_host.numbers [OF assms], of "dom (RemovedChainCleanup s)"] by simp
  then have "RemovedChainCleanup s = Map.empty" by simp
  with Nil idle show ?thesis by (simp add: on_init_cleanup_removed_chains_def)
next
  case (Cons k ks)
  then have "k \<in> dom (RemovedChainCleanup s)"
    using chain_iteration.set_chain_iter [OF removal_host.numbers [OF assms], of "dom (RemovedChainCleanup s)"] by auto
  with Cons serve show ?thesis by (force simp: on_init_cleanup_removed_chains_def)
qed

text \<open>A chain whose removal has begun: its cleanup is in order or done.\<close>

definition removing :: "HostStorage \<Rightarrow> ('c, 'z) StoreState_scheme \<Rightarrow> ChainKey \<Rightarrow> bool" where
  "removing h s k \<longleftrightarrow>
    (case RemovedChainCleanup s k of None \<Rightarrow> cleaned s k | Some phase \<Rightarrow> phase_ok h s k phase)"

lemma on_init_cleanup_removing:
  assumes "removal_host h" and "removal_ok h s" and "removing h s k"
  shows "removing h (on_init_cleanup_removed_chains h s) k"
  using assms(1)
proof (cases rule: on_init_cleanup_cases [of h s])
  case idle
  then show ?thesis using assms(3) by simp
next
  case (serve j phase)
  then have ok: "phase_ok h s j phase" using assms(2) by (simp add: removal_ok_def)
  show ?thesis
  proof (cases "k = j")
    case True
    then show ?thesis using continue_cleanup(1) [OF assms(1) ok] serve by (simp add: removing_def split: option.splits)
  next
    case False
    note o = continue_cleanup(2) [OF assms(1) ok False]
    show ?thesis
      using assms(3) unfolding serve(2) removing_def removal_view_same [OF conjunct2 [OF o]] conjunct1 [OF o] .
  qed
qed

lemma on_init_cleanup_ok:
  assumes "removal_host h" and "removal_ok h s"
  shows "removal_ok h (on_init_cleanup_removed_chains h s)"
  using assms(1)
proof (cases rule: on_init_cleanup_cases [of h s])
  case (serve j phase)
  then have ok: "phase_ok h s j phase" using assms(2) by (simp add: removal_ok_def)
  show ?thesis unfolding removal_ok_def
  proof (intro allI impI)
    fix k phase'
    assume p: "RemovedChainCleanup (on_init_cleanup_removed_chains h s) k = Some phase'"
    show "phase_ok h (on_init_cleanup_removed_chains h s) k phase'"
    proof (cases "k = j")
      case True
      then show ?thesis using continue_cleanup(1) [OF assms(1) ok] serve p by simp
    next
      case False
      note o = continue_cleanup(2) [OF assms(1) ok False]
      show ?thesis
        using p assms(2) unfolding serve(2) removal_view_same [OF conjunct2 [OF o]] conjunct1 [OF o]
        by (simp add: removal_ok_def)
    qed
  qed
qed (use assms(2) in simp)

interpretation removal_drain: drain RemovedChainCleanup "on_init_cleanup_removed_chains h" "removal_work h"
  "\<lambda>s. removal_host h \<and> removal_ok h s"
proof (unfold_locales, goal_cases)
  case (1 s)
  then have H: "removal_host h" by simp
  from H show ?case by (cases rule: on_init_cleanup_cases [of h s]) (use 1 in simp_all)
next
  case (2 s)
  then show ?case by (simp add: on_init_cleanup_ok)
next
  case (3 s)
  then have H: "removal_host h" by simp
  from H show ?case
  proof (cases rule: on_init_cleanup_cases [of h s])
    case idle
    then show ?thesis using 3 by simp
  next
    case (serve k phase)
    then have ok: "phase_ok h s k phase" using 3 by (simp add: removal_ok_def)
    note c = continue_cleanup [OF H ok]
    have "removal_work h (continue_removed_chain_cleanup h k phase s) k' = removal_work h s k'" if "k' \<noteq> k" for k'
      unfolding removal_work_def removal_view_same [OF conjunct2 [OF c(2) [OF that]]] conjunct1 [OF c(2) [OF that]] ..
    moreover have "RemovedChainCleanup (continue_removed_chain_cleanup h k phase s) k = None \<or>
        removal_work h (continue_removed_chain_cleanup h k phase s) k < removal_work h s k"
      using c(1) serve(1) by (auto simp: removal_work_def split: option.splits)
    ultimately show ?thesis using c(2) serve by (intro bexI [of _ k]) auto
  qed
qed

section \<open>Properties\<close>

text \<open>The other clears of a removal.\<close>

lemma clears_view:
  "removal_view (clear_attestation_rows h k c s) j = removal_view s j"
  "removal_view (snd (clear_checkpoint_rows h k c s)) j = removal_view s j"
  "removal_view (snd (clear_bucket_rows h k c s)) j = removal_view s j"
  "RemovedChainCleanup (clear_attestation_rows h k c s) = RemovedChainCleanup s"
  "RemovedChainCleanup (snd (clear_checkpoint_rows h k c s)) = RemovedChainCleanup s"
  "RemovedChainCleanup (snd (clear_bucket_rows h k c s)) = RemovedChainCleanup s"
  by (simp_all add: clear_attestation_rows_def clear_checkpoint_rows_def clear_bucket_rows_def removal_view_def split: prod.split)

lemma clears_view_rest:
  "removal_view (remove_chain_params k s) j = removal_view s j" "RemovedChainCleanup (remove_chain_params k s) = RemovedChainCleanup s"
  "removal_view (deposit_event e s) j = removal_view s j" "RemovedChainCleanup (deposit_event e s) = RemovedChainCleanup s"
  "removal_view (s\<lparr>CheckpointPruningStates := m\<rparr>) j = removal_view s j"
  "removal_view (s\<lparr>CheckpointingQueues := q1, AttestationRemovalQueues := q2, AttestationsInBlock := q3, LastCheckpoint := q4,
    LastDigest := q5\<rparr>) j = removal_view s j"
  "removal_view (clear_removed_checkpoints h k s) j = removal_view s j"
  "RemovedChainCleanup (clear_removed_checkpoints h k s) = RemovedChainCleanup s"
proof -
  show d: "removal_view (deposit_event e s) j = removal_view s j" "RemovedChainCleanup (deposit_event e s) = RemovedChainCleanup s"
    for e and s :: "('a, 'b) StoreState_scheme" and j
    by (simp_all add: deposit_event_def removal_view_def)
  have u: "removal_view (s\<lparr>CheckpointClearingCursors := m1\<rparr>) j = removal_view s j"
    "removal_view (s\<lparr>BucketClearingCursors := m2\<rparr>) j = removal_view s j" for m1 m2 and s :: "('a, 'b) StoreState_scheme" and j
    by (simp_all add: removal_view_def)
  show "removal_view (clear_removed_checkpoints h k s) j = removal_view s j"
    "RemovedChainCleanup (clear_removed_checkpoints h k s) = RemovedChainCleanup s"
    unfolding clear_removed_checkpoints_def case_prod_unfold Let_def by (simp_all add: clears_view d u)
qed (simp_all add: removal_view_def remove_chain_params_def)

lemma removed_removing:
  assumes "removal_host h"
  shows "removing h (on_supported_chain_removed h k remove_checkpoints s) k"
    and "k' \<noteq> k \<Longrightarrow> RemovedChainCleanup (on_supported_chain_removed h k remove_checkpoints s) k' = RemovedChainCleanup s k' \<and>
      removal_view (on_supported_chain_removed h k remove_checkpoints s) k' = removal_view s k'"
proof -
  define s0 where "s0 = s\<lparr>ActiveAttestors := (ActiveAttestors s)(k := None)\<rparr>"
  let ?s1 = "continue_removed_chain_cleanup h k (ChillAttestors None) s0"
  let ?s = "on_supported_chain_removed h k remove_checkpoints s"
  have ok: "phase_ok h s0 k (ChillAttestors None)" by (simp add: phase_ok_def remaining_def all_idle_def)
  note c = continue_cleanup [OF assms ok]
  have f: "removal_view ?s j = removal_view ?s1 j" "RemovedChainCleanup ?s = RemovedChainCleanup ?s1" for j
    unfolding on_supported_chain_removed_def Let_def s0_def [symmetric] by (simp_all add: clears_view clears_view_rest)
  show "removing h ?s k"
    using c(1) unfolding removing_def f(2) removal_view_same [OF f(1)] by (cases "RemovedChainCleanup ?s1 k") simp_all
  show "RemovedChainCleanup ?s k' = RemovedChainCleanup s k' \<and> removal_view ?s k' = removal_view s k'" if "k' \<noteq> k"
    using c(2) [OF that] by (simp add: f) (simp add: removal_view_def s0_def)
qed

lemma removal_ok_removed:
  assumes "removal_host h" and "removal_ok h s"
  shows "removal_ok h (on_supported_chain_removed h k remove_checkpoints s)"
  unfolding removal_ok_def
proof (intro allI impI)
  fix k' phase
  let ?s = "on_supported_chain_removed h k remove_checkpoints s"
  assume p: "RemovedChainCleanup ?s k' = Some phase"
  show "phase_ok h ?s k' phase"
  proof (cases "k' = k")
    case True
    then show ?thesis using removed_removing(1) [OF assms(1), of k remove_checkpoints s] p by (simp add: removing_def)
  next
    case False
    note o = removed_removing(2) [OF assms(1) False, of remove_checkpoints s]
    show ?thesis using p assms(2) unfolding removal_view_same [OF conjunct2 [OF o]] conjunct1 [OF o] by (simp add: removal_ok_def)
  qed
qed

lemma funpow_removing:
  assumes "removal_host h" and "removal_ok h s" and "removing h s k"
  shows "removing h ((on_init_cleanup_removed_chains h ^^ m) s) k"
proof -
  have "removal_ok h ((on_init_cleanup_removed_chains h ^^ m) s) \<and> removing h ((on_init_cleanup_removed_chains h ^^ m) s) k"
    by (induction m) (simp_all add: assms on_init_cleanup_ok on_init_cleanup_removing)
  then show ?thesis ..
qed

text \<open>C20: Removing a chain leaves nothing of its attestors.  After as many blocks as the rows left to
  handle bound, over all chains being removed, every attestor of the chain is idle and its retired
  keys, key owners and invulnerables are gone, although each block handles at most forty rows of
  one chain.\<close>

theorem removal_completes:
  assumes "removal_host h" and "removal_ok h s"
    and "s' = on_supported_chain_removed h k remove_checkpoints s"
    and "(\<Sum>j\<in>dom (RemovedChainCleanup s'). Suc (removal_work h s' j)) \<le> m"
  shows "(\<forall>a at. Attestors ((on_init_cleanup_removed_chains h ^^ m) s') k a = Some at \<longrightarrow> status at = Idle) \<and>
    RetiredAttestorBlsKeys ((on_init_cleanup_removed_chains h ^^ m) s') k = Map.empty \<and>
    BlsKeyOwner ((on_init_cleanup_removed_chains h ^^ m) s') k = Map.empty \<and>
    Invulnerables ((on_init_cleanup_removed_chains h ^^ m) s') k = Map.empty \<and>
    RemovedChainCleanup ((on_init_cleanup_removed_chains h ^^ m) s') k = None"
proof -
  have ok: "removal_ok h s'" unfolding assms(3) by (rule removal_ok_removed [OF assms(1,2)])
  have "RemovedChainCleanup ((on_init_cleanup_removed_chains h ^^ m) s') = Map.empty"
    using assms(1,4) ok by (intro removal_drain.drained) (simp_all add: removal_drain.backlog_def)
  moreover have "removing h ((on_init_cleanup_removed_chains h ^^ m) s') k"
    using removed_removing(1) [OF assms(1)] by (intro funpow_removing [OF assms(1) ok]) (simp add: assms(3))
  ultimately show ?thesis by (simp add: removing_def cleaned_def all_idle_def)
qed

text \<open>A storage that enumerates in numerical order and clears a prefix from its first key on.\<close>

definition clear_rows :: "nat \<Rightarrow> (('l::len) word \<rightharpoonup> 'v) \<Rightarrow> ('l word \<rightharpoonup> 'v) \<times> nat \<times> bytes option" where
  "clear_rows n m =
    (let ks = sorted_list_of_set (dom m) in
     (m |` set (drop n ks), length (take n ks), if length ks \<le> n then None else Some []))"

definition example_host :: HostStorage where
  "example_host = \<lparr>number_order = sorted_list_of_set, id_order = sorted_list_of_set,
     ids_from = (\<lambda>c A. tl (dropWhile (\<lambda>a. as_bytes a \<noteq> c) (sorted_list_of_set A))),
     hashed_key_for = (\<lambda>_. as_bytes),
     clear_attestations = (\<lambda>_ _ _. (Map.empty, None)), clear_checkpoints = (\<lambda>_ _ _. (Map.empty, None)),
     clear_buckets = (\<lambda>_ _ _. ({}, None)), clear_owners = clear_rows, clear_invulnerables = clear_rows\<rparr>"

lemma clear_rows_spec:
  assumes "clear_rows n m = (m', u, c)"
  shows "dom m' \<subseteq> dom m \<and> (c = None \<longrightarrow> m' = Map.empty) \<and> (c \<noteq> None \<longrightarrow> 0 < n \<longrightarrow> dom m' \<noteq> dom m)"
proof -
  let ?ks = "sorted_list_of_set (dom m)"
  have m': "m' = m |` set (drop n ?ks)" and c: "c = None \<longleftrightarrow> length ?ks \<le> n"
    using assms by (auto simp: clear_rows_def Let_def split: if_splits)
  have d: "dom m' = dom m \<inter> set (drop n ?ks)" by (simp add: m')
  have "dom m' \<noteq> dom m" if "\<not> length ?ks \<le> n" "0 < n"
  proof -
    have "?ks ! 0 \<in> dom m" using that nth_mem [of 0 ?ks] by simp
    moreover have "?ks ! 0 \<notin> set (drop n ?ks)"
      using that distinct_sorted_list_of_set [of "dom m"]
      by (auto simp: in_set_conv_nth nth_eq_iff_index_eq)
    ultimately show ?thesis using d by blast
  qed
  with c d show ?thesis by (auto simp: m')
qed

lemma ids_after_sorted:
  assumes "sorted_list_of_set A = xs @ a # ys"
  shows "tl (dropWhile (\<lambda>b. b \<noteq> a) (xs @ a # ys)) = (ys :: ('l::len) word list)"
proof -
  have "distinct (xs @ a # ys)" using distinct_sorted_list_of_set [of A] assms by simp
  then have "dropWhile (\<lambda>b. b \<noteq> a) (xs @ a # ys) = a # ys" by (induction xs) auto
  then show ?thesis by simp
qed

interpretation example_removal: removal_host example_host
  by unfold_locales (auto simp: example_host_def dest!: clear_rows_spec ids_after_sorted)

theorem removal_completes_witness:
  "\<exists>m. BlsKeyOwner ((on_init_cleanup_removed_chains example_host ^^ m)
    (on_supported_chain_removed example_host 7 True example_store)) 7 = Map.empty"
proof -
  have "removal_ok example_host example_store"
    by (simp add: removal_ok_def example_store_def store_default_def registry_default_def RegistryState.defs StoreState.defs
        LedgerState.defs ParamsState.defs params_default_def)
  from removal_completes [OF example_removal.removal_host_axioms this refl order_refl, of 7 True] show ?thesis by blast
qed

end
