(* ===== verification/BlockProver.thy ===== *)
theory BlockProver
  imports Merkle AttestationInv
begin

text \<open>The block-prover precompile (\<open>precompiles/block-prover/src\<close>): the verification of one query
  and of a batch of queries against the attestations and checkpoints of the pallet, and the
  transaction index that it reports.

  The handle of the EVM is a parameter: recording a cost and recording a log are functions of its
  state that may fail, and the ABI encoding of a string and of an integer are functions to bytes.
  The decoding of the arguments, which bounds their sizes, is done by generated code and is not
  modelled.

  The properties are that an accepted query is a transaction of the block it names as long as the
  pallet's anchors are the digests of the source chain, that a batch is accepted exactly when each
  of its queries would be, and that the reported index is the position of the transaction in its
  block.\<close>

section \<open>The handle\<close>

datatype ExitError = OutOfGas | OtherExit string

datatype PrecompileFailure = Revert bytes | Failure ExitError

record 'h EvmHandle =
  record_cost :: "u64 \<Rightarrow> 'h \<Rightarrow> ExitError + 'h"
  record_log :: "H256 list \<Rightarrow> bytes \<Rightarrow> 'h \<Rightarrow> ExitError + 'h"
  encode_string :: "string \<Rightarrow> bytes"
  encode_uint :: "u64 \<Rightarrow> bytes"

text \<open>The operator \<open>?\<close> turns an error of the handle into a failure of the precompile.\<close>

definition exit_result :: "ExitError + 'a \<Rightarrow> PrecompileFailure + 'a" where
  "exit_result r = (case r of Inl e \<Rightarrow> Inl (Failure e) | Inr x \<Rightarrow> Inr x)"

definition encode_revert_message :: "'h EvmHandle \<Rightarrow> string \<Rightarrow> bytes" where
  "encode_revert_message ev m = [0x08, 0xc3, 0x79, 0xa0] @ encode_string ev m"

definition revert_with_message :: "'h EvmHandle \<Rightarrow> string \<Rightarrow> PrecompileFailure + 'a" where
  "revert_with_message ev m = Inl (Revert (encode_revert_message ev m))"

section \<open>Constants\<close>

definition CONTINUITY_BLOCK_HASH_COST :: u64 where
  "CONTINUITY_BLOCK_HASH_COST = 48"

definition GAS_STORAGE_LOOKUP :: u64 where
  "GAS_STORAGE_LOOKUP = 2600"

definition MAX_CONTINUITY_ROOTS :: nat where
  "MAX_CONTINUITY_ROOTS = 50000"

definition CALCULATE_TX_INDEX_BASE_COST :: u64 where
  "CALCULATE_TX_INDEX_BASE_COST = 10"

definition CALCULATE_TX_INDEX_ITERATION_COST :: u64 where
  "CALCULATE_TX_INDEX_ITERATION_COST = 18"

definition SELECTOR_LOG_TRANSACTION_VERIFIED :: "keccak \<Rightarrow> H256" where
  "SELECTOR_LOG_TRANSACTION_VERIFIED kc = kc (map of_char ''TransactionVerified(uint64,uint64,uint64)'')"

section \<open>Anchors\<close>

definition prover_get_attestation ::
  "'h EvmHandle \<Rightarrow> ('c, 'z) StoreState_scheme \<Rightarrow> ChainKey \<Rightarrow> H256 \<Rightarrow> 'h \<Rightarrow>
   PrecompileFailure + SignedAttestation option \<times> 'h" where
  "prover_get_attestation ev s k digest hs =
    and_then (exit_result (record_cost ev (saturating_mul GAS_STORAGE_LOOKUP 2) hs)) (\<lambda>hs.
    Inr (get_attestation s k digest, hs))"

definition prover_get_checkpoint ::
  "'h EvmHandle \<Rightarrow> (ChainKey \<Rightarrow> bool) \<Rightarrow> ('c, 'z) StoreState_scheme \<Rightarrow> ChainKey \<Rightarrow> u64 \<Rightarrow> 'h \<Rightarrow>
   PrecompileFailure + H256 option \<times> 'h" where
  "prover_get_checkpoint ev supp s k n hs =
    and_then (exit_result (record_cost ev (saturating_mul GAS_STORAGE_LOOKUP 1) hs)) (\<lambda>hs.
    if \<not> supp k then Inr (None, hs)
    else and_then (exit_result (record_cost ev (saturating_mul GAS_STORAGE_LOOKUP 2) hs)) (\<lambda>hs.
         Inr (checkpoint_if_stable s k n, hs)))"

section \<open>The continuity chain\<close>

datatype ContinuityVerificationError =
    InsufficientBlocks
  | TooManyRoots
  | ChainDoesNotReachQueryHeight
  | NoMatchingAttestationOrCheckpoint
  | RangeOverflow

fun message :: "ContinuityVerificationError \<Rightarrow> string" where
  "message InsufficientBlocks = ''Continuity chain cannot be empty''"
| "message TooManyRoots = ''Continuity chain exceeds maximum allowed roots''"
| "message ChainDoesNotReachQueryHeight = ''Continuity chain does not reach query height''"
| "message NoMatchingAttestationOrCheckpoint = ''Continuity proof does not match attestation or checkpoint''"
| "message RangeOverflow = ''Continuity chain range overflows u64''"

definition continuity_revert :: "'h EvmHandle \<Rightarrow> ContinuityVerificationError \<Rightarrow> PrecompileFailure" where
  "continuity_revert ev err = Revert (encode_revert_message ev (message err))"

definition verify_continuity_chain ::
  "keccak \<Rightarrow> 'h EvmHandle \<Rightarrow> (ChainKey \<Rightarrow> bool) \<Rightarrow> ContinuityProof \<Rightarrow> u64 \<Rightarrow> ChainKey \<Rightarrow> u64 \<Rightarrow>
   ('c, 'z) StoreState_scheme \<Rightarrow> 'h \<Rightarrow> PrecompileFailure + 'h" where
  "verify_continuity_chain kc ev supp p start k height s hs =
    (if roots p = [] then Inl (continuity_revert ev InsufficientBlocks)
     else if length (roots p) > MAX_CONTINUITY_ROOTS then Inl (continuity_revert ev TooManyRoots)
     else case checked_add start (saturating_sub (len64 (roots p)) 1) of
       None \<Rightarrow> Inl (continuity_revert ev RangeOverflow)
     | Some final_block_number \<Rightarrow>
         if final_block_number < height then Inl (continuity_revert ev ChainDoesNotReachQueryHeight)
         else case checked_mul CONTINUITY_BLOCK_HASH_COST (len64 (roots p)) of
           None \<Rightarrow> Inl (Failure OutOfGas)
         | Some total_continuity_gas \<Rightarrow>
             and_then (exit_result (record_cost ev total_continuity_gas hs)) (\<lambda>hs.
             let final_digest = compute_continuity_digest kc p start in
             and_then (prover_get_attestation ev s k final_digest hs) (\<lambda>(att, hs).
             let attestation_matches =
                   (case att of None \<Rightarrow> False | Some a \<Rightarrow> sa_header_number a = final_block_number) in
             and_then (if attestation_matches then Inr (False, hs)
               else and_then (prover_get_checkpoint ev supp s k final_block_number hs) (\<lambda>(cp, hs).
                    Inr (case cp of None \<Rightarrow> False | Some digest \<Rightarrow> digest = final_digest, hs)))
             (\<lambda>(checkpoint_matches, hs).
               if \<not> (attestation_matches \<or> checkpoint_matches)
               then Inl (continuity_revert ev NoMatchingAttestationOrCheckpoint)
               else Inr hs))))"

section \<open>Queries\<close>

definition charge_query_gas :: "'h EvmHandle \<Rightarrow> nat \<Rightarrow> 'h \<Rightarrow> PrecompileFailure + 'h" where
  "charge_query_gas ev merkle_siblings_len hs =
    (case checked_mul CONTINUITY_BLOCK_HASH_COST (of_nat merkle_siblings_len) of
       None \<Rightarrow> Inl (Failure OutOfGas)
     | Some merkle_gas \<Rightarrow> exit_result (record_cost ev merkle_gas hs))"

definition verify_merkle_proof ::
  "keccak \<Rightarrow> 'h EvmHandle \<Rightarrow> TransactionMerkleProof \<Rightarrow> bytes \<Rightarrow> 'h \<Rightarrow> PrecompileFailure + bool \<times> 'h" where
  "verify_merkle_proof kc ev merkle_proof tx_bytes hs =
    and_then (charge_query_gas ev (length (siblings merkle_proof)) hs) (\<lambda>hs.
    Inr (verify kc merkle_proof tx_bytes, hs))"

fun index_step :: "nat \<times> MerkleProofEntry \<Rightarrow> u64 \<Rightarrow> u64" where
  "index_step (bit_position, entry) tx_index =
    (if is_left entry then or tx_index (push_bit bit_position 1) else tx_index)"

definition calculate_tx_index_impl :: "TransactionMerkleProof \<Rightarrow> PrecompileFailure + u64" where
  "calculate_tx_index_impl merkle_proof =
    (if siblings merkle_proof = [] then Inr 0
     else if length (siblings merkle_proof) > 64
     then Inl (Failure (OtherExit ''Merkle proof has too many siblings (max 64)''))
     else Inr (fold index_step (List.enumerate 0 (siblings merkle_proof)) 0))"

text \<open>The checks on one query that the single and the batch verification share: the transaction
  is in a block with the root of the Merkle proof, and the continuity proof has that root at the
  queried height.\<close>

definition check_query ::
  "nat \<Rightarrow> keccak \<Rightarrow> 'h EvmHandle \<Rightarrow> ContinuityProof \<Rightarrow> u64 \<Rightarrow> u64 \<Rightarrow> bytes \<Rightarrow> TransactionMerkleProof \<Rightarrow> 'h \<Rightarrow>
   PrecompileFailure + 'h" where
  "check_query w kc ev p start height tx_bytes merkle_proof hs =
    (if tx_bytes = [] then revert_with_message ev ''Transaction data cannot be empty''
     else and_then (verify_merkle_proof kc ev merkle_proof tx_bytes hs) (\<lambda>(verified, hs).
       if \<not> verified then revert_with_message ev ''Merkle proof validation failed''
       else case find_query_block_index w p start height of
         None \<Rightarrow> revert_with_message ev ''Query block not found in continuity chain''
       | Some query_block_idx \<Rightarrow>
           if roots p ! query_block_idx \<noteq> mp_root merkle_proof
           then revert_with_message ev ''Merkle root mismatch''
           else Inr hs))"

definition emit_verified ::
  "keccak \<Rightarrow> 'h EvmHandle \<Rightarrow> ChainKey \<Rightarrow> u64 \<Rightarrow> TransactionMerkleProof \<Rightarrow> 'h \<Rightarrow> PrecompileFailure + 'h" where
  "emit_verified kc ev k height merkle_proof hs =
    and_then (calculate_tx_index_impl merkle_proof) (\<lambda>tx_index.
    exit_result (record_log ev [SELECTOR_LOG_TRANSACTION_VERIFIED kc, ucast k, ucast height]
      (encode_uint ev tx_index) hs))"

definition verify_impl ::
  "nat \<Rightarrow> keccak \<Rightarrow> 'h EvmHandle \<Rightarrow> (ChainKey \<Rightarrow> bool) \<Rightarrow> ChainKey \<Rightarrow> u64 \<Rightarrow> bytes \<Rightarrow> TransactionMerkleProof \<Rightarrow>
   ContinuityProof \<Rightarrow> bool \<Rightarrow> ('c, 'z) StoreState_scheme \<Rightarrow> 'h \<Rightarrow> PrecompileFailure + bool \<times> 'h" where
  "verify_impl w kc ev supp k height encoded_transaction merkle_proof p emit_events s hs =
    (let start_block_number = height in
     and_then (check_query w kc ev p start_block_number height encoded_transaction merkle_proof hs) (\<lambda>hs.
     and_then (verify_continuity_chain kc ev supp p start_block_number k height s hs) (\<lambda>hs.
     and_then (if emit_events then emit_verified kc ev k height merkle_proof hs else Inr hs) (\<lambda>hs.
     Inr (True, hs)))))"

fun batch_loop ::
  "nat \<Rightarrow> keccak \<Rightarrow> 'h EvmHandle \<Rightarrow> ChainKey \<Rightarrow> ContinuityProof \<Rightarrow> u64 \<Rightarrow> bool \<Rightarrow>
   ((u64 \<times> bytes) \<times> TransactionMerkleProof) list \<Rightarrow> 'h \<Rightarrow> PrecompileFailure + 'h" where
  "batch_loop w kc ev k p start emit_events [] hs = Inr hs"
| "batch_loop w kc ev k p start emit_events (((height, encoded_transaction), merkle_proof) # queries) hs =
    and_then (check_query w kc ev p start height encoded_transaction merkle_proof hs) (\<lambda>hs.
    and_then (if emit_events then emit_verified kc ev k height merkle_proof hs else Inr hs) (\<lambda>hs.
    batch_loop w kc ev k p start emit_events queries hs))"

text \<open>The loop that finds the least and the greatest height.\<close>

definition height_range :: "u64 list \<Rightarrow> u64 option \<times> u64 option" where
  "height_range heights =
    fold (\<lambda>height (min_height, max_height).
        (Some (case min_height of None \<Rightarrow> height | Some m \<Rightarrow> min m height),
         Some (case max_height of None \<Rightarrow> height | Some m \<Rightarrow> max m height))) heights (None, None)"

definition verify_batch_impl ::
  "nat \<Rightarrow> keccak \<Rightarrow> 'h EvmHandle \<Rightarrow> (ChainKey \<Rightarrow> bool) \<Rightarrow> ChainKey \<Rightarrow> u64 list \<Rightarrow> bytes list \<Rightarrow>
   TransactionMerkleProof list \<Rightarrow> ContinuityProof \<Rightarrow> bool \<Rightarrow> ('c, 'z) StoreState_scheme \<Rightarrow> 'h \<Rightarrow>
   PrecompileFailure + bool \<times> 'h" where
  "verify_batch_impl w kc ev supp k heights encoded_transactions merkle_proofs p emit_events s hs =
    (if length heights \<noteq> length encoded_transactions \<or> length heights \<noteq> length merkle_proofs
     then revert_with_message ev
       ''Should have the same number of heights, encoded transactions, and merkle proofs''
     else if heights = [] then revert_with_message ev ''Should have at least one height''
     else let min_height = the (fst (height_range heights)); max_height = the (snd (height_range heights));
              start_block_number = min_height in
       if roots p = [] then revert_with_message ev ''Continuity chain cannot be empty''
       else case checked_add start_block_number (saturating_sub (len64 (roots p)) 1) of
         None \<Rightarrow> revert_with_message ev ''Continuity chain range overflows u64''
       | Some last_block_number \<Rightarrow>
           if last_block_number < max_height
           then revert_with_message ev ''Continuity chain doesn't cover maximum query height''
           else and_then (verify_continuity_chain kc ev supp p start_block_number k max_height s hs) (\<lambda>hs.
             and_then (batch_loop w kc ev k p start_block_number emit_events
               (zip (zip heights encoded_transactions) merkle_proofs) hs) (\<lambda>hs.
             Inr (True, hs))))"

section \<open>The public functions\<close>

definition precompile_verify where
  "precompile_verify w kc ev supp k height encoded_transaction merkle_proof p s hs =
    verify_impl w kc ev supp k height encoded_transaction merkle_proof p False s hs"

definition verify_and_emit where
  "verify_and_emit w kc ev supp k height encoded_transaction merkle_proof p s hs =
    verify_impl w kc ev supp k height encoded_transaction merkle_proof p True s hs"

definition verify_batch where
  "verify_batch w kc ev supp k heights encoded_transactions merkle_proofs p s hs =
    verify_batch_impl w kc ev supp k heights encoded_transactions merkle_proofs p False s hs"

definition verify_batch_and_emit where
  "verify_batch_and_emit w kc ev supp k heights encoded_transactions merkle_proofs p s hs =
    verify_batch_impl w kc ev supp k heights encoded_transactions merkle_proofs p True s hs"

definition calculate_tx_index ::
  "'h EvmHandle \<Rightarrow> TransactionMerkleProof \<Rightarrow> 'h \<Rightarrow> PrecompileFailure + u64 \<times> 'h" where
  "calculate_tx_index ev merkle_proof hs =
    (case checked_mul CALCULATE_TX_INDEX_ITERATION_COST (len64 (siblings merkle_proof)) of
       None \<Rightarrow> Inl (Failure OutOfGas)
     | Some iteration_gas \<Rightarrow>
         case checked_add CALCULATE_TX_INDEX_BASE_COST iteration_gas of
           None \<Rightarrow> Inl (Failure OutOfGas)
         | Some total_gas \<Rightarrow>
             and_then (exit_result (record_cost ev total_gas hs)) (\<lambda>hs.
             and_then (calculate_tx_index_impl merkle_proof) (\<lambda>tx_index.
             Inr (tx_index, hs))))"

section \<open>What is accepted\<close>

lemma exit_result_Inr [simp]: "exit_result r = Inr x \<longleftrightarrow> r = Inr x"
  by (simp add: exit_result_def split: sum.split)

lemma revert_neq_Inr [simp]: "revert_with_message ev m \<noteq> Inr x"
  by (simp add: revert_with_message_def)

text \<open>A digest at a height that the pallet vouches for.\<close>

definition anchored :: "(ChainKey \<Rightarrow> bool) \<Rightarrow> ('c, 'z) StoreState_scheme \<Rightarrow> ChainKey \<Rightarrow> u64 \<Rightarrow> H256 \<Rightarrow> bool" where
  "anchored supp s k n d \<longleftrightarrow>
    (\<exists>a. get_attestation s k d = Some a \<and> sa_header_number a = n) \<or> supp k \<and> checkpoint_if_stable s k n = Some d"

definition proof_end :: "u64 \<Rightarrow> ContinuityProof \<Rightarrow> u64" where
  "proof_end start p = start + of_nat (length (roots p) - 1)"

definition chain_valid ::
  "keccak \<Rightarrow> (ChainKey \<Rightarrow> bool) \<Rightarrow> ('c, 'z) StoreState_scheme \<Rightarrow> ChainKey \<Rightarrow> ContinuityProof \<Rightarrow> u64 \<Rightarrow> u64 \<Rightarrow> bool" where
  "chain_valid kc supp s k p start height \<longleftrightarrow>
    roots p \<noteq> [] \<and> length (roots p) \<le> MAX_CONTINUITY_ROOTS \<and> unat start + length (roots p) \<le> 2 ^ 64 \<and>
    unat height < unat start + length (roots p) \<and>
    anchored supp s k (proof_end start p) (digest_chain kc start (lower_endpoint_digest p) (roots p))"

definition query_valid ::
  "nat \<Rightarrow> keccak \<Rightarrow> ContinuityProof \<Rightarrow> u64 \<Rightarrow> u64 \<Rightarrow> bytes \<Rightarrow> TransactionMerkleProof \<Rightarrow> bool" where
  "query_valid w kc p start height tx mp \<longleftrightarrow>
    tx \<noteq> [] \<and> checked_mul CONTINUITY_BLOCK_HASH_COST (of_nat (length (siblings mp))) \<noteq> None \<and> verify kc mp tx \<and>
    (\<exists>i. find_query_block_index w p start height = Some i \<and> roots p ! i = mp_root mp)"

lemma proof_range:
  assumes "roots p \<noteq> []" and "length (roots p) \<le> MAX_CONTINUITY_ROOTS"
  shows "checked_add start (saturating_sub (len64 (roots p)) 1) =
      (if unat start + length (roots p) \<le> 2 ^ 64 then Some (proof_end start p) else None)"
    and "checked_mul CONTINUITY_BLOCK_HASH_COST (len64 (roots p)) \<noteq> None"
    and "unat start + length (roots p) \<le> 2 ^ 64 \<Longrightarrow> proof_end start p < height \<longleftrightarrow> \<not> unat height < unat start + length (roots p)"
proof -
  obtain n where n: "length (roots p) = Suc n" using assms(1) by (cases "roots p") auto
  have lt: "Suc n < 2 ^ 64" using assms(2) n by (simp add: MAX_CONTINUITY_ROOTS_def)
  have l: "saturating_sub (len64 (roots p)) 1 = of_nat n"
    using lt n by (simp add: word_unat_eq_iff unat_saturating_sub len64_def unat_of_nat del: of_nat_Suc)
  have u: "unat (of_nat n :: u64) = n" using lt by (simp add: unat_of_nat)
  show "checked_add start (saturating_sub (len64 (roots p)) 1) =
      (if unat start + length (roots p) \<le> 2 ^ 64 then Some (proof_end start p) else None)"
    unfolding l using n u by (auto simp: checked_add_def proof_end_def)
  show "checked_mul CONTINUITY_BLOCK_HASH_COST (len64 (roots p)) \<noteq> None"
    using assms(2) by (simp add: checked_mul_def CONTINUITY_BLOCK_HASH_COST_def len64_def unat_of_nat MAX_CONTINUITY_ROOTS_def)
  show "proof_end start p < height \<longleftrightarrow> \<not> unat height < unat start + length (roots p)"
    if "unat start + length (roots p) \<le> 2 ^ 64"
    using that n u by (auto simp: proof_end_def word_less_nat_alt unat_word_ariths)
qed


lemma verify_continuity_chain_valid:
  assumes "verify_continuity_chain kc ev supp p start k height s hs = Inr hs'"
  shows "chain_valid kc supp s k p start height"
proof -
  have ne: "roots p \<noteq> []" "length (roots p) \<le> MAX_CONTINUITY_ROOTS"
    using assms by (auto simp: verify_continuity_chain_def split: if_splits)
  from assms have "unat start + length (roots p) \<le> 2 ^ 64"
    using ne by (simp add: verify_continuity_chain_def proof_range(1) split: if_splits)
  with assms ne show ?thesis
    by (auto simp: verify_continuity_chain_def chain_valid_def proof_range(1,3) anchored_def res_simps Let_def
        prover_get_attestation_def prover_get_checkpoint_def compute_continuity_digest_chain
        split: if_splits option.splits)
qed

lemma check_query_valid:
  "check_query w kc ev p start height tx mp hs = Inr hs' \<Longrightarrow> query_valid w kc p start height tx mp"
  by (auto simp: check_query_def query_valid_def verify_merkle_proof_def charge_query_gas_def res_simps
      split: if_splits option.splits)

lemma verify_impl_valid:
  assumes "verify_impl w kc ev supp k height tx mp p emit s hs = Inr (b, hs')"
  shows "query_valid w kc p height height tx mp" and "chain_valid kc supp s k p height height" and "b"
  using assms by (auto simp: verify_impl_def res_simps Let_def dest: check_query_valid verify_continuity_chain_valid)

lemma find_own_height:
  "roots p \<noteq> [] \<Longrightarrow> length (roots p) \<le> MAX_CONTINUITY_ROOTS \<Longrightarrow> unat height + length (roots p) \<le> 2 ^ 64 \<Longrightarrow>
   find_query_block_index w p height height = Some 0"
  using unat_find_query_range [of "length (roots p)" height height]
  by (simp add: find_query_block_index_def Let_def as_usize_def)

section \<open>Soundness\<close>

text \<open>The roots of \<open>m\<close> blocks of the source chain from a height on, given the transactions of
  each block.\<close>

definition block_roots :: "keccak \<Rightarrow> (u64 \<Rightarrow> bytes list) \<Rightarrow> u64 \<Rightarrow> nat \<Rightarrow> H256 list" where
  "block_roots kc txs height m = map (\<lambda>j. tree_root (tree_new kc (txs (height + of_nat j)))) [0..<m]"

lemma hd_block_roots: "0 < m \<Longrightarrow> block_roots kc txs height m ! 0 = tree_root (tree_new kc (txs height))"
  by (simp add: block_roots_def)

section \<open>The transaction index\<close>

lemma bit_fold_index:
  fixes x :: u64
  shows "bit (fold index_step (List.enumerate j es) x) n \<longleftrightarrow>
    bit x n \<or> n < 64 \<and> j \<le> n \<and> n - j < length es \<and> is_left (es ! (n - j))"
proof (induction es arbitrary: j x)
  case (Cons e es)
  have "bit (index_step (j, e) x) n \<longleftrightarrow> bit x n \<or> is_left e \<and> n < 64 \<and> n = j"
    by (auto simp: bit_or_iff bit_push_bit_iff bit_1_iff bit_exp_iff)
  then have "bit (fold index_step (List.enumerate (Suc j) es) (index_step (j, e) x)) n \<longleftrightarrow>
      (bit x n \<or> is_left e \<and> n < 64 \<and> n = j) \<or> n < 64 \<and> Suc j \<le> n \<and> n - Suc j < length es \<and> is_left (es ! (n - Suc j))"
    by (simp only: Cons.IH)
  then show ?case by (auto simp: nth_Cons' Suc_le_eq simp del: index_step.simps)
qed simp

lemma length_level_path:
  "l \<noteq> [] \<Longrightarrow> length l \<le> 2 ^ m \<Longrightarrow> length (level_path kc l i) \<le> m"
proof (induction l arbitrary: i m rule: level_induct [where kc = kc])
  case (step l)
  then obtain m' where m: "m = Suc m'" by (cases m) auto
  have "length (next_level kc l) \<le> 2 ^ m'" using step m by (simp add: length_next_level)
  from step.IH [OF this] step m show ?case by (simp add: level_path_step next_level_eq_Nil)
qed simp

lemma level_path_bits:
  "l \<noteq> [] \<Longrightarrow> i < length l \<Longrightarrow>
   (m < length (level_path kc l i) \<and> is_left (level_path kc l i ! m)) \<longleftrightarrow> bit i m"
proof (induction l arbitrary: i m rule: level_induct [where kc = kc])
  case (step l)
  have h: "i div 2 < length (next_level kc l)" using step by (intro half_less_next_level)
  show ?case
  proof (cases m)
    case 0
    then show ?thesis using step.hyps by (simp add: level_path_step sibling_def bit_0)
  next
    case (Suc n)
    from step.IH [OF h, of n] step.hyps Suc show ?thesis
      by (simp add: level_path_step bit_Suc next_level_eq_Nil)
  qed
qed (simp add: bit_0)

lemma generated_tx_index:
  assumes "generate_proof (tree_new kc items) i = Inr p" and "length items \<le> 2 ^ 64"
  shows "calculate_tx_index_impl p = Inr (of_nat i)"
proof -
  let ?l = "map (hash_leaf kc) items"
  let ?x = "fold index_step (List.enumerate 0 (siblings p)) 0"
  have i: "i < length items" and p: "siblings p = level_path kc ?l i"
    using assms(1) by (auto simp: generate_proof_tree_new split: if_splits)
  then have ne: "?l \<noteq> []" by auto
  have len: "length (siblings p) \<le> 64" using length_level_path [OF ne, of 64 kc i] assms(2) p by simp
  have "bit ?x n \<longleftrightarrow> bit (of_nat i :: u64) n" for n
    using level_path_bits [OF ne, of i n kc] i by (auto simp: bit_fold_index p bit_of_nat_iff)
  then have "?x = of_nat i" by (simp add: bit_eq_iff)
  moreover have "of_nat i = (0::u64)" if "siblings p = []" using \<open>?x = of_nat i\<close> that by simp
  ultimately show ?thesis using len by (auto simp: calculate_tx_index_impl_def not_less)
qed

section \<open>Batches\<close>

text \<open>The part of a proof from a height on, which is the proof of a query for that height.\<close>

definition suffix_proof :: "keccak \<Rightarrow> ContinuityProof \<Rightarrow> u64 \<Rightarrow> u64 \<Rightarrow> ContinuityProof" where
  "suffix_proof kc p start height =
    (let i = unat height - unat start in
     \<lparr>lower_endpoint_digest = digest_chain kc start (lower_endpoint_digest p) (take i (roots p)),
      roots = drop i (roots p)\<rparr>)"

text \<open>A handle with gas for everything.\<close>

definition affordable :: "'h EvmHandle \<Rightarrow> bool" where
  "affordable ev \<longleftrightarrow> (\<forall>c hs. \<exists>hs'. record_cost ev c hs = Inr hs')"

lemma affordable_cost: "affordable ev \<Longrightarrow> \<exists>f. \<forall>c hs. record_cost ev c hs = Inr (f c hs)"
  unfolding affordable_def by metis

lemma verify_continuity_chain_iff:
  assumes "affordable ev"
  shows "(\<exists>hs'. verify_continuity_chain kc ev supp p start k height s hs = Inr hs') \<longleftrightarrow>
    chain_valid kc supp s k p start height"
proof
  assume v: "chain_valid kc supp s k p start height"
  then have ne: "roots p \<noteq> []" "length (roots p) \<le> MAX_CONTINUITY_ROOTS" and b: "unat start + length (roots p) \<le> 2 ^ 64"
    by (auto simp: chain_valid_def)
  obtain f where f: "\<forall>c hs. record_cost ev c hs = Inr (f c hs)" using affordable_cost [OF assms] by blast
  obtain g where g: "checked_mul CONTINUITY_BLOCK_HASH_COST (len64 (roots p)) = Some g"
    using proof_range(2) [OF ne] by auto
  show "\<exists>hs'. verify_continuity_chain kc ev supp p start k height s hs = Inr hs'"
    using v ne b
    by (auto simp: verify_continuity_chain_def chain_valid_def proof_range(1,3) f g exit_result_def anchored_def Let_def
        prover_get_attestation_def prover_get_checkpoint_def compute_continuity_digest_chain
        split: option.splits)
qed (auto dest: verify_continuity_chain_valid)

lemma check_query_iff:
  assumes "affordable ev"
  shows "(\<exists>hs'. check_query w kc ev p start height tx mp hs = Inr hs') \<longleftrightarrow> query_valid w kc p start height tx mp"
proof
  obtain f where f: "\<forall>c hs. record_cost ev c hs = Inr (f c hs)" using affordable_cost [OF assms] by blast
  show "query_valid w kc p start height tx mp \<Longrightarrow> \<exists>hs'. check_query w kc ev p start height tx mp hs = Inr hs'"
    by (auto simp: check_query_def query_valid_def verify_merkle_proof_def charge_query_gas_def f exit_result_def)
qed (auto dest: check_query_valid)

lemma verify_impl_iff:
  assumes "affordable ev"
  shows "(\<exists>hs'. verify_impl w kc ev supp k height tx mp p False s hs = Inr (True, hs')) \<longleftrightarrow>
    query_valid w kc p height height tx mp \<and> chain_valid kc supp s k p height height"
proof -
  have "(\<exists>hs'. verify_impl w kc ev supp k height tx mp p False s hs = Inr (True, hs')) \<longleftrightarrow>
      (\<exists>h1 h2. check_query w kc ev p height height tx mp hs = Inr h1 \<and>
        verify_continuity_chain kc ev supp p height k height s h1 = Inr h2)"
    by (auto simp: verify_impl_def res_simps)
  then show ?thesis using verify_continuity_chain_iff [OF assms] check_query_iff [OF assms] by metis
qed

lemma batch_loop_iff:
  assumes "affordable ev"
  shows "(\<exists>hs'. batch_loop w kc ev k p start False qs hs = Inr hs') \<longleftrightarrow>
    (\<forall>q\<in>set qs. query_valid w kc p start (fst (fst q)) (snd (fst q)) (snd q))"
proof (induction qs arbitrary: hs)
  case (Cons q qs)
  obtain height tx mp where q: "q = ((height, tx), mp)" by (metis prod.exhaust)
  have "(\<exists>hs'. batch_loop w kc ev k p start False (q # qs) hs = Inr hs') \<longleftrightarrow>
      (\<exists>h1 h2. check_query w kc ev p start height tx mp hs = Inr h1 \<and>
        batch_loop w kc ev k p start False qs h1 = Inr h2)"
    by (auto simp: q res_simps)
  also have "\<dots> \<longleftrightarrow> query_valid w kc p start height tx mp \<and>
      (\<forall>q\<in>set qs. query_valid w kc p start (fst (fst q)) (snd (fst q)) (snd q))"
    using Cons.IH check_query_iff [OF assms] by metis
  finally show ?case by (simp add: q)
qed simp

lemma height_range_min_max:
  "heights \<noteq> [] \<Longrightarrow> height_range heights = (Some (Min (set heights)), Some (Max (set heights)))"
proof (induction heights rule: rev_induct)
  case (snoc h hs)
  then show ?case
    by (cases "hs = []") (simp_all add: height_range_def min.commute max.commute)
qed simp


lemma suffix_valid:
  assumes "16 \<le> w" and "start \<le> h" and "chain_valid kc supp s k p start m" and "unat h < unat start + length (roots p)"
  shows "chain_valid kc supp s k (suffix_proof kc p start h) h h"
    and "query_valid w kc (suffix_proof kc p start h) h h tx mp \<longleftrightarrow> query_valid w kc p start h tx mp"
proof -
  define i where "i = unat h - unat start"
  have le: "unat start \<le> unat h" using assms(2) by (simp add: word_le_nat_alt)
  have b: "length (roots p) \<le> MAX_CONTINUITY_ROOTS" "unat start + length (roots p) \<le> 2 ^ 64"
    using assms(3) by (auto simp: chain_valid_def)
  have i: "i < length (roots p)" "unat h = unat start + i" using assms(4) le by (auto simp: i_def)
  have h: "h = start + of_nat i"
    using i b by (simp add: word_unat_eq_iff unat_word_ariths unat_of_nat)
  have r: "suffix_proof kc p start h =
      \<lparr>lower_endpoint_digest = digest_chain kc start (lower_endpoint_digest p) (take i (roots p)), roots = drop i (roots p)\<rparr>"
    by (simp add: suffix_proof_def i_def Let_def)
  have "i + (length (roots p) - i - 1) = length (roots p) - 1" using i(1) by simp
  then have "(of_nat i :: u64) + of_nat (length (roots p) - i - 1) = of_nat (length (roots p) - 1)"
    by (metis of_nat_add)
  then have "proof_end h (suffix_proof kc p start h) = proof_end start p"
    unfolding r proof_end_def by (simp add: h add.assoc)
  moreover have "digest_chain kc h (digest_chain kc start (lower_endpoint_digest p) (take i (roots p))) (drop i (roots p)) =
      digest_chain kc start (lower_endpoint_digest p) (roots p)"
    using digest_chain_append [of kc start "lower_endpoint_digest p" "take i (roots p)" "drop i (roots p)"] i(1)
    by (simp add: h)
  ultimately show "chain_valid kc supp s k (suffix_proof kc p start h) h h"
    using assms(3) i b by (auto simp: chain_valid_def r)
  have w: "length (roots p) \<le> 2 ^ w"
    using b(1) power_increasing [OF assms(1), of "2::nat"] by (simp add: MAX_CONTINUITY_ROOTS_def)
  have "find_query_block_index w p start h = Some i"
    using find_query_block_index_iff [OF b(2) w] i by simp
  moreover have "find_query_block_index w (suffix_proof kc p start h) h h = Some 0"
    using i b by (intro find_own_height) (auto simp: r)
  ultimately show "query_valid w kc (suffix_proof kc p start h) h h tx mp \<longleftrightarrow> query_valid w kc p start h tx mp"
    using i(1) by (simp add: query_valid_def r)
qed

lemma verify_batch_impl_iff:
  assumes "affordable ev" and "length heights = length txs" "length heights = length mps" and "heights \<noteq> []"
  shows "(\<exists>hs'. verify_batch_impl w kc ev supp k heights txs mps p False s hs = Inr (True, hs')) \<longleftrightarrow>
    chain_valid kc supp s k p (Min (set heights)) (Max (set heights)) \<and>
    (\<forall>i<length heights. query_valid w kc p (Min (set heights)) (heights ! i) (txs ! i) (mps ! i))"
    (is "?L \<longleftrightarrow> ?C \<and> ?Q")
proof -
  have "?L \<longleftrightarrow> roots p \<noteq> [] \<and> (\<exists>n. checked_add (Min (set heights)) (saturating_sub (len64 (roots p)) 1) = Some n \<and>
      \<not> n < Max (set heights)) \<and>
      (\<exists>h1 h2. verify_continuity_chain kc ev supp p (Min (set heights)) k (Max (set heights)) s hs = Inr h1 \<and>
        batch_loop w kc ev k p (Min (set heights)) False (zip (zip heights txs) mps) h1 = Inr h2)"
    using assms(2-4) by (auto simp: verify_batch_impl_def height_range_min_max res_simps Let_def split: option.splits)
  also have "\<dots> \<longleftrightarrow> ?C \<and> (\<forall>q\<in>set (zip (zip heights txs) mps).
      query_valid w kc p (Min (set heights)) (fst (fst q)) (snd (fst q)) (snd q))"
    using verify_continuity_chain_iff [OF assms(1), of kc supp p "Min (set heights)" k "Max (set heights)" s hs]
      batch_loop_iff [OF assms(1)] proof_range(1,3) [of p "Min (set heights)"]
    unfolding chain_valid_def by metis
  also have "(\<forall>q\<in>set (zip (zip heights txs) mps).
      query_valid w kc p (Min (set heights)) (fst (fst q)) (snd (fst q)) (snd q)) \<longleftrightarrow> ?Q"
    using assms(2,3) by (simp add: all_set_conv_all_nth)
  finally show ?thesis .
qed

section \<open>Properties\<close>

text \<open>C1: An accepted query is a transaction of the source chain.  If the anchor at the end of the
  continuity proof is the digest that the source chain has there, and the hash neither collides nor
  gives the padding on the byte strings at hand, then the transaction is one of the block at the
  queried height, the Merkle proof is the one generated for it, and its position in the block is
  the index that is reported.\<close>

theorem accepted_query_is_in_block:
  assumes "verify_impl w kc ev supp k height tx mp p emit s hs = Inr (b, hs')"
    and "\<forall>d. anchored supp s k (proof_end height p) d \<longrightarrow>
      d = digest_chain kc height prev (block_roots kc txs height (length (roots p)))"
    and "inj_on kc A" and "PAD_HASH \<notin> kc ` A"
    and "chain_inputs kc height (lower_endpoint_digest p) (roots p) \<subseteq> A"
    and "chain_inputs kc height prev (block_roots kc txs height (length (roots p))) \<subseteq> A"
    and "tree_inputs kc (txs height) \<subseteq> A" and "proof_inputs kc mp tx \<subseteq> A"
  shows "\<exists>i < length (txs height). tx = txs height ! i \<and> generate_proof (tree_new kc (txs height)) i = Inr mp \<and>
    (length (txs height) \<le> 2 ^ 64 \<longrightarrow> calculate_tx_index_impl mp = Inr (of_nat i))"
proof -
  note v = verify_impl_valid(1,2) [OF assms(1), unfolded chain_valid_def]
  have "digest_chain kc height (lower_endpoint_digest p) (roots p) =
      digest_chain kc height prev (block_roots kc txs height (length (roots p)))"
    using assms(2) v(2) by blast
  then have "roots p = block_roots kc txs height (length (roots p))"
    using digest_chain_inject [of "roots p" "block_roots kc txs height (length (roots p))" kc height]
      inj_on_subset [OF assms(3), OF Un_least [OF assms(5,6)]]
    by (simp add: block_roots_def)
  moreover have "roots p ! 0 = mp_root mp"
    using v find_own_height [of p height w] by (auto simp: query_valid_def)
  ultimately have "mp_root mp = tree_root (tree_new kc (txs height))"
    using v(2) hd_block_roots [of "length (roots p)" kc txs height] by simp
  then obtain i where "i < length (txs height)" "tx = txs height ! i" "generate_proof (tree_new kc (txs height)) i = Inr mp"
    using accepted_proof_is_generated [of kc mp tx "txs height"] v(1) assms(4,7,8)
      inj_on_subset [OF assms(3), OF Un_least [OF assms(7,8)]]
    by (auto simp: query_valid_def)
  then show ?thesis using generated_tx_index by blast
qed

text \<open>C23: A batch is accepted exactly when every query of it is, each with the part of the shared
  continuity proof from its height on.  The handle has gas for both.\<close>

theorem batch_verifies_each:
  assumes "affordable ev" and "16 \<le> w"
    and "length heights = length txs" and "length heights = length mps" and "heights \<noteq> []"
  shows "(\<exists>hs'. verify_batch w kc ev supp k heights txs mps p s hs = Inr (True, hs')) \<longleftrightarrow>
    (\<forall>i<length heights. \<exists>hs'. precompile_verify w kc ev supp k (heights ! i) (txs ! i) (mps ! i)
       (suffix_proof kc p (Min (set heights)) (heights ! i)) s hs = Inr (True, hs'))"
    (is "?L \<longleftrightarrow> ?R")
proof -
  let ?m = "Min (set heights)" and ?M = "Max (set heights)"
  have in_set: "heights ! i \<in> set heights" if "i < length heights" for i using that by simp
  have m: "\<exists>i<length heights. heights ! i = ?m" "\<exists>i<length heights. heights ! i = ?M"
    using assms(5) by (auto simp flip: in_set_conv_nth)
  have le: "?m \<le> heights ! i" "heights ! i \<le> ?M" if "i < length heights" for i using that by simp_all
  show ?thesis
  proof
    assume ?L
    then have c: "chain_valid kc supp s k p ?m ?M"
      and q: "\<And>i. i < length heights \<Longrightarrow> query_valid w kc p ?m (heights ! i) (txs ! i) (mps ! i)"
      using assms by (auto simp: verify_batch_def verify_batch_impl_iff)
    have "unat (heights ! i) < unat ?m + length (roots p)" if "i < length heights" for i
      using c le(2) [OF that] by (auto simp: chain_valid_def word_le_nat_alt)
    then show ?R using suffix_valid [OF assms(2) le(1) c] q assms(1)
      by (simp add: precompile_verify_def verify_impl_iff)
  next
    assume R: ?R
    then have each: "query_valid w kc (suffix_proof kc p ?m (heights ! i)) (heights ! i) (heights ! i) (txs ! i) (mps ! i)"
        "chain_valid kc supp s k (suffix_proof kc p ?m (heights ! i)) (heights ! i) (heights ! i)"
      if "i < length heights" for i
      using that assms(1) by (simp_all add: precompile_verify_def verify_impl_iff)
    have "suffix_proof kc p ?m ?m = p" by (simp add: suffix_proof_def)
    then have c0: "chain_valid kc supp s k p ?m ?m" using each(2) m(1) by metis
    have lt: "unat (heights ! i) < unat ?m + length (roots p)" if "i < length heights" for i
      using each(2) [OF that] le(1) [OF that] by (auto simp: chain_valid_def suffix_proof_def Let_def word_le_nat_alt)
    then have "unat ?M < unat ?m + length (roots p)" using m(2) by metis
    then have "chain_valid kc supp s k p ?m ?M" using c0 by (simp add: chain_valid_def)
    then show ?L using suffix_valid(2) [OF assms(2) le(1) c0 lt] each(1) assms
      by (simp add: verify_batch_def verify_batch_impl_iff)
  qed
qed

text \<open>The index computed from a Merkle proof is the position of the leaf it was generated for,
  in every block of at most \<open>2 ^ 64\<close> transactions; in particular the limit of 64 siblings
  never refuses such a proof.\<close>

theorem tx_index_roundtrip:
  assumes "generate_proof (tree_new kc items) i = Inr p" and "length items \<le> 2 ^ 64"
  shows "calculate_tx_index_impl p = Inr (of_nat i)"
  using assms by (rule generated_tx_index)


text \<open>A chain with one block of one transaction and a checkpoint on it, and a handle that has gas for
  everything.\<close>

definition example_prover_store :: "lock_table StoreState" where
  "example_prover_store = (store_default (\<lambda>_. []))\<lparr>Checkpoints := (\<lambda>_. Map.empty)(7 := [10 \<mapsto> 2])\<rparr>"

definition example_handle :: "unit EvmHandle" where
  "example_handle = \<lparr>record_cost = (\<lambda>_ h. Inr h), record_log = (\<lambda>_ _ h. Inr h), encode_string = (\<lambda>_. []), encode_uint = (\<lambda>_. [])\<rparr>"


abbreviation "example_kc \<equiv> \<lambda>bs. if bs = leaf_input [1] then 1 else (2 :: H256)"
abbreviation "example_mp \<equiv> \<lparr>mp_root = 1, siblings = []\<rparr>"
abbreviation "example_cp \<equiv> \<lparr>lower_endpoint_digest = 7, roots = [1]\<rparr>"

lemma payload_neq_leaf: "payload n r d \<noteq> leaf_input [x]"
  by (auto simp: payload_def leaf_input_def dest: arg_cong [where f = length])

lemma example_store_anchor:
  "get_attestation example_prover_store 7 d = None" "checkpoint_if_stable example_prover_store 7 10 = Some 2"
  by (simp_all add: get_attestation_def checkpoint_if_stable_def attestations_stable_def example_prover_store_def store_default_def
      registry_default_def RegistryState.defs StoreState.defs LedgerState.defs ParamsState.defs params_default_def)

lemma example_affordable: "affordable example_handle"
  by (simp add: affordable_def example_handle_def)

lemma example_verifies:
  "precompile_verify 32 example_kc example_handle (\<lambda>_. True) 7 10 [1] example_mp example_cp example_prover_store () =
    Inr (True, ())"
proof -
  have "chain_valid example_kc (\<lambda>_. True) example_prover_store 7 example_cp 10 10"
    by (simp add: chain_valid_def MAX_CONTINUITY_ROOTS_def anchored_def proof_end_def example_store_anchor hash_payload_alt
        payload_neq_leaf)
  moreover have "query_valid 32 example_kc example_cp 10 10 [1] example_mp"
    by (simp add: query_valid_def checked_mul_def verify_def hash_leaf_input find_query_block_index_def Let_def as_usize_def)
  ultimately show ?thesis
    using verify_impl_iff [OF example_affordable, of 32 example_kc "\<lambda>_. True" 7 10 "[1]" example_mp example_cp
        example_prover_store "()"] by (simp add: precompile_verify_def)
qed

theorem accepted_query_is_in_block_witness:
  "\<exists>i < length [[1::u8]]. [1::u8] = [[1]] ! i \<and> generate_proof (tree_new example_kc [[1]]) i = Inr example_mp \<and>
    (length [[1::u8]] \<le> 2 ^ 64 \<longrightarrow> calculate_tx_index_impl example_mp = Inr (of_nat i))"
proof -
  have r: "block_roots example_kc (\<lambda>_. [[1]]) 10 (Suc 0) = [1]"
    by (simp add: block_roots_def tree_root_tree_new hash_leaf_input)
  show ?thesis
    by (rule accepted_query_is_in_block [OF example_verifies [unfolded precompile_verify_def],
          where prev = 7 and txs = "\<lambda>_. [[1]]" and A = "{leaf_input [1], payload 10 1 7}"])
      (auto simp: r anchored_def proof_end_def example_store_anchor hash_payload_alt payload_neq_leaf inj_on_def PAD_HASH_def
        tree_inputs_def proof_inputs_def)
qed

theorem batch_verifies_each_witness:
  "\<exists>hs'. verify_batch 32 example_kc example_handle (\<lambda>_. True) 7 [10] [[1]] [example_mp] example_cp example_prover_store () =
    Inr (True, hs')"
  using batch_verifies_each [OF example_affordable, of 32 "[10]" "[[1]]" "[example_mp]" example_kc "\<lambda>_. True" 7 example_cp
      example_prover_store "()"] example_verifies
  by (simp add: suffix_proof_def)

theorem tx_index_roundtrip_witness: "calculate_tx_index_impl example_mp = Inr (of_nat 0)"
  by (rule tx_index_roundtrip [of example_kc "[[1]]"])
    (simp_all add: generate_proof_tree_new tree_root_tree_new hash_leaf_input)

end
