(* ===== verification/ChainInfo.thy ===== *)
theory ChainInfo
  imports BlockProver Ladder SupportedChains
begin

text \<open>The chain-info precompile (\<open>precompiles/chain-info/src/lib.rs\<close>): what contracts can ask about
  the registered chains and about the heights that are attested.

  The handle of the EVM, the SCALE-encoded size of a registry row and the encoding of a revert
  reason are parameters, and so is the order in which a storage prefix is enumerated: the keys of
  a bucket and the rows of \<open>Attestations\<close>.  Every read is charged before or after it is made, as in
  the source, so that a query may run out of gas in the middle.

  The properties are that the bounds reported for a height are anchors that the block prover
  accepts, on both sides of the height; that the search for the highest checkpoint below a height
  is exact within the buckets it visits; and that the two ways of asking whether a height is
  attested disagree at the last checkpoint.\<close>

section \<open>Handle and results\<close>

record 'h ChainInfoHandle =
  evm :: "'h EvmHandle"
  record_db_read :: "nat \<Rightarrow> 'h \<Rightarrow> ExitError + 'h"
  encoded_size :: "SupportedChain \<Rightarrow> nat"
  encode_reason :: "string \<Rightarrow> bytes"

type_synonym ('h, 'a) view = "'h \<Rightarrow> PrecompileFailure + 'a \<times> 'h"

definition charge :: "'h ChainInfoHandle \<Rightarrow> u64 \<Rightarrow> 'h \<Rightarrow> PrecompileFailure + 'h" where
  "charge ch cost hs = exit_result (record_cost (evm ch) cost hs)"

definition db_read :: "'h ChainInfoHandle \<Rightarrow> nat \<Rightarrow> 'h \<Rightarrow> PrecompileFailure + 'h" where
  "db_read ch encoded_len hs = exit_result (record_db_read ch encoded_len hs)"

text \<open>\<open>max_encoded_len\<close> of a height with a digest and of a checkpoint: a \<open>u64\<close> and an \<open>H256\<close> each.\<close>

definition height_digest_len :: nat where
  "height_digest_len = 8 + 32"

definition BUCKET_SEARCH_ATTEMPTS :: nat where
  "BUCKET_SEARCH_ATTEMPTS = 5"

record ChainInfo =
  ci_chain_key :: ChainKey
  ci_chain_id :: ChainId
  ci_chain_name :: bytes
  ci_chain_encoding :: u8

record ChainInfoResult =
  ci_chain :: ChainInfo
  ci_exists :: bool

definition chain_info_default :: ChainInfo where
  "chain_info_default = \<lparr>ci_chain_key = 0, ci_chain_id = 0, ci_chain_name = [], ci_chain_encoding = 0\<rparr>"

definition chain_info_result_default :: ChainInfoResult where
  "chain_info_result_default = \<lparr>ci_chain = chain_info_default, ci_exists = False\<rparr>"

definition with_chain :: "ChainInfo \<Rightarrow> ChainInfoResult" where
  "with_chain chain = \<lparr>ci_chain = chain, ci_exists = True\<rparr>"

record HeightResult =
  h_height :: u64
  h_exists :: bool

record HashResult =
  d_hash :: H256
  d_exists :: bool

record HeightHashResult =
  r_height :: u64
  r_hash :: H256
  r_is_attestation :: bool
  r_exists :: bool

record BoundsCheckResult =
  parent :: u64
  parent_hash :: H256
  parent_is_attestation :: bool
  child :: u64
  child_hash :: H256
  child_is_attestation :: bool
  is_attested :: bool

definition height_hash_default :: HeightHashResult where
  "height_hash_default = \<lparr>r_height = 0, r_hash = 0, r_is_attestation = False, r_exists = False\<rparr>"

definition checkpoint_result :: "u64 \<Rightarrow> H256 \<Rightarrow> HeightHashResult" where
  "checkpoint_result n d = \<lparr>r_height = n, r_hash = d, r_is_attestation = False, r_exists = True\<rparr>"

definition attestation_result :: "u64 \<Rightarrow> H256 \<Rightarrow> HeightHashResult" where
  "attestation_result n d = \<lparr>r_height = n, r_hash = d, r_is_attestation = True, r_exists = True\<rparr>"

section \<open>The registry\<close>

definition ensure_chain_supported ::
  "'h ChainInfoHandle \<Rightarrow> ChainsState \<Rightarrow> ChainKey \<Rightarrow> 'h \<Rightarrow> PrecompileFailure + 'h" where
  "ensure_chain_supported ch cs k hs =
    and_then (charge ch GAS_STORAGE_LOOKUP hs) (\<lambda>hs.
    if SupportedChains cs k = None then Inl (Revert (encode_reason ch ''chain not supported'')) else Inr hs)"

text \<open>\<open>sc.chain_encoding as u8\<close>\<close>

fun encoding_byte :: "ChainEncodingVersion \<Rightarrow> u8" where
  "encoding_byte V1 = 1"

definition to_chain_info :: "ChainKey \<Rightarrow> SupportedChain \<Rightarrow> ChainInfo" where
  "to_chain_info k sc = \<lparr>ci_chain_key = k, ci_chain_id = chain_id sc, ci_chain_name = chain_name sc,
     ci_chain_encoding = encoding_byte (chain_encoding sc)\<rparr>"

fun supported_chains_loop ::
  "'h ChainInfoHandle \<Rightarrow> (ChainKey \<times> SupportedChain) list \<Rightarrow> ('h, ChainInfo list) view" where
  "supported_chains_loop ch [] hs = Inr ([], hs)"
| "supported_chains_loop ch ((k, sc) # rows) hs =
    and_then (db_read ch (encoded_size ch sc) hs) (\<lambda>hs.
    and_then (supported_chains_loop ch rows hs) (\<lambda>(infos, hs).
    Inr (to_chain_info k sc # infos, hs)))"

definition get_supported_chains ::
  "'h ChainInfoHandle \<Rightarrow> ((ChainKey \<rightharpoonup> SupportedChain) \<Rightarrow> (ChainKey \<times> SupportedChain) list) \<Rightarrow>
   ChainsState \<Rightarrow> ('h, ChainInfo list) view" where
  "get_supported_chains ch rows cs hs = supported_chains_loop ch (rows (SupportedChains cs)) hs"

definition get_chain_by_key ::
  "'h ChainInfoHandle \<Rightarrow> ChainsState \<Rightarrow> ChainKey \<Rightarrow> ('h, ChainInfoResult) view" where
  "get_chain_by_key ch cs k hs =
    (case SupportedChains cs k of
       Some sc \<Rightarrow> and_then (db_read ch (encoded_size ch sc) hs) (\<lambda>hs. Inr (with_chain (to_chain_info k sc), hs))
     | None \<Rightarrow> and_then (db_read ch 0 hs) (\<lambda>hs. Inr (chain_info_result_default, hs)))"

definition get_attestation_genesis_height ::
  "'h ChainInfoHandle \<Rightarrow> PalletConfig \<Rightarrow> ChainsState \<Rightarrow> ('c, 'z) StoreState_scheme \<Rightarrow> ChainKey \<Rightarrow> ('h, u64) view" where
  "get_attestation_genesis_height ch cfg cs s k hs =
    and_then (ensure_chain_supported ch cs k hs) (\<lambda>hs.
    let height = attestation_chain_genesis_block_number cfg s k in
    and_then (db_read ch 8 hs) (\<lambda>hs. Inr (height, hs)))"

section \<open>The latest heights\<close>

definition get_latest_checkpoint_height_and_hash ::
  "'h ChainInfoHandle \<Rightarrow> ChainsState \<Rightarrow> ('c, 'z) StoreState_scheme \<Rightarrow> ChainKey \<Rightarrow> ('h, HeightHashResult) view" where
  "get_latest_checkpoint_height_and_hash ch cs s k hs =
    and_then (ensure_chain_supported ch cs k hs) (\<lambda>hs.
    and_then (db_read ch height_digest_len hs) (\<lambda>hs.
    Inr (case LastCheckpoint s k of
        Some last_checkpoint \<Rightarrow> checkpoint_result (cp_block_number last_checkpoint) (cp_digest last_checkpoint)
      | None \<Rightarrow> height_hash_default, hs)))"

definition get_latest_attestation_height_and_hash ::
  "'h ChainInfoHandle \<Rightarrow> ChainsState \<Rightarrow> ('c, 'z) StoreState_scheme \<Rightarrow> ChainKey \<Rightarrow> ('h, HeightHashResult) view" where
  "get_latest_attestation_height_and_hash ch cs s k hs =
    and_then (ensure_chain_supported ch cs k hs) (\<lambda>hs.
    and_then (db_read ch height_digest_len hs) (\<lambda>hs.
    case LastDigest s k of
      Some (height, hash) \<Rightarrow> Inr (attestation_result height hash, hs)
    | None \<Rightarrow>
        and_then (db_read ch height_digest_len hs) (\<lambda>hs.
        Inr (case LastCheckpoint s k of
            Some last_checkpoint \<Rightarrow> checkpoint_result (cp_block_number last_checkpoint) (cp_digest last_checkpoint)
          | None \<Rightarrow> height_hash_default, hs))))"

section \<open>Searching the buckets\<close>

text \<open>The candidates of a bucket are probed in order until one has a checkpoint that is not being
  pruned.\<close>

fun probe_candidates ::
  "'h ChainInfoHandle \<Rightarrow> ('c, 'z) StoreState_scheme \<Rightarrow> ChainKey \<Rightarrow> u64 list \<Rightarrow> ('h, HeightHashResult option) view" where
  "probe_candidates ch s k [] hs = Inr (None, hs)"
| "probe_candidates ch s k (block_number # candidates) hs =
    and_then (charge ch (saturating_mul GAS_STORAGE_LOOKUP 2) hs) (\<lambda>hs.
    case checkpoint_if_stable s k block_number of
      Some digest \<Rightarrow> Inr (Some (checkpoint_result block_number digest), hs)
    | None \<Rightarrow> probe_candidates ch s k candidates hs)"

text \<open>The loop over the buckets is the same in both directions, but for the heights that are kept,
  the order in which they are probed and the next bucket.\<close>

fun search_buckets ::
  "'h ChainInfoHandle \<Rightarrow> (u64 set \<Rightarrow> u64 list) \<Rightarrow> ('c, 'z) StoreState_scheme \<Rightarrow> ChainKey \<Rightarrow>
   (u64 list \<Rightarrow> u64 list) \<Rightarrow> (u64 \<Rightarrow> u64) \<Rightarrow> nat \<Rightarrow> u64 \<Rightarrow> ('h, HeightHashResult option) view" where
  "search_buckets ch iter s k candidates_of next_bucket_of 0 block_pivot hs = Inr (None, hs)"
| "search_buckets ch iter s k candidates_of next_bucket_of (Suc attempts) block_pivot hs =
    and_then (charge ch GAS_STORAGE_LOOKUP hs) (\<lambda>hs.
    let heights = iter (bucket_heights s k block_pivot) in
    and_then (charge ch (GAS_STORAGE_LOOKUP * len64 heights) hs) (\<lambda>hs.
    and_then (probe_candidates ch s k (candidates_of heights) hs) (\<lambda>(found, hs).
    if found \<noteq> None then Inr (found, hs)
    else search_buckets ch iter s k candidates_of next_bucket_of attempts (next_bucket_of block_pivot) hs)))"

definition below_descending :: "u64 \<Rightarrow> u64 list \<Rightarrow> u64 list" where
  "below_descending target heights = rev (sort (filter (\<lambda>n. n < target) heights))"

definition from_ascending :: "u64 \<Rightarrow> u64 list \<Rightarrow> u64 list" where
  "from_ascending target heights = sort (filter (\<lambda>n. target \<le> n) heights)"

text \<open>\<open>Iterator::max_by_key\<close> returns the last of the greatest elements, \<open>min_by_key\<close> the first of the
  least.\<close>

fun max_by_key :: "('a \<Rightarrow> u64) \<Rightarrow> 'a list \<Rightarrow> 'a option" where
  "max_by_key f [] = None"
| "max_by_key f (x # xs) = Some (fold (\<lambda>y best. if f best \<le> f y then y else best) xs x)"

fun min_by_key :: "('a \<Rightarrow> u64) \<Rightarrow> 'a list \<Rightarrow> 'a option" where
  "min_by_key f [] = None"
| "min_by_key f (x # xs) = Some (fold (\<lambda>y best. if f y < f best then y else best) xs x)"

type_synonym attestation_rows = "(Digest \<rightharpoonup> SignedAttestation) \<Rightarrow> (Digest \<times> SignedAttestation) list"

abbreviation row_height :: "Digest \<times> SignedAttestation \<Rightarrow> u64" where
  "row_height row \<equiv> sa_header_number (snd row)"

text \<open>The rows of a chain, which are only looked at while no cursor is clearing them.\<close>

definition stable_rows :: "attestation_rows \<Rightarrow> ('c, 'z) StoreState_scheme \<Rightarrow> ChainKey \<Rightarrow> (Digest \<times> SignedAttestation) list" where
  "stable_rows rows s k = (if attestations_stable s k then rows (Attestations s k) else [])"

definition find_highest_attested_before ::
  "'h ChainInfoHandle \<Rightarrow> (u64 set \<Rightarrow> u64 list) \<Rightarrow> attestation_rows \<Rightarrow> ChainsState \<Rightarrow> ('c, 'z) StoreState_scheme \<Rightarrow>
   ChainKey \<Rightarrow> u64 \<Rightarrow> ('h, HeightHashResult) view" where
  "find_highest_attested_before ch iter rows cs s k target_height hs =
    and_then (ensure_chain_supported ch cs k hs) (\<lambda>hs.
    and_then (charge ch GAS_STORAGE_LOOKUP hs) (\<lambda>hs.
    let maybe_last_checkpoint_height = map_option cp_block_number (LastCheckpoint s k) in
    if (case maybe_last_checkpoint_height of Some height \<Rightarrow> height \<ge> target_height | None \<Rightarrow> False) then
      and_then (search_buckets ch iter s k (below_descending target_height)
          (\<lambda>pivot. saturating_sub pivot CHECKPOINT_BUCKET_SIZE) BUCKET_SEARCH_ATTEMPTS
          (compute_block_index_for (saturating_sub target_height 1)) hs) (\<lambda>(maybe_highest, hs).
      Inr (case maybe_highest of Some r \<Rightarrow> r | None \<Rightarrow> height_hash_default, hs))
    else
      and_then (charge ch (saturating_mul GAS_STORAGE_LOOKUP 2) hs) (\<lambda>hs.
      let attestation_rows = stable_rows rows s k in
      and_then
        (case max_by_key row_height (filter (\<lambda>row. row_height row < target_height) attestation_rows) of
           Some (hash, row) \<Rightarrow> Inr (attestation_result (sa_header_number row) hash, hs)
         | None \<Rightarrow> (case maybe_last_checkpoint_height of
             Some last_checkpoint_height \<Rightarrow>
               and_then (charge ch (saturating_mul GAS_STORAGE_LOOKUP 2) hs) (\<lambda>hs.
               Inr (case checkpoint_if_stable s k last_checkpoint_height of
                   Some digest \<Rightarrow> checkpoint_result last_checkpoint_height digest
                 | None \<Rightarrow> height_hash_default, hs))
           | None \<Rightarrow> Inr (height_hash_default, hs))) (\<lambda>(highest, hs).
      and_then (charge ch (GAS_STORAGE_LOOKUP * len64 attestation_rows) hs) (\<lambda>hs.
      Inr (highest, hs))))))"

definition find_lowest_attested_after ::
  "'h ChainInfoHandle \<Rightarrow> (u64 set \<Rightarrow> u64 list) \<Rightarrow> attestation_rows \<Rightarrow> ChainsState \<Rightarrow> ('c, 'z) StoreState_scheme \<Rightarrow>
   ChainKey \<Rightarrow> u64 \<Rightarrow> ('h, HeightHashResult) view" where
  "find_lowest_attested_after ch iter rows cs s k target_height hs =
    and_then (ensure_chain_supported ch cs k hs) (\<lambda>hs.
    and_then (charge ch GAS_STORAGE_LOOKUP hs) (\<lambda>hs.
    let maybe_last_checkpoint_height = map_option cp_block_number (LastCheckpoint s k) in
    if (case maybe_last_checkpoint_height of Some height \<Rightarrow> height > target_height | None \<Rightarrow> False) then
      and_then (search_buckets ch iter s k (from_ascending target_height)
          (\<lambda>pivot. saturating_add pivot CHECKPOINT_BUCKET_SIZE) BUCKET_SEARCH_ATTEMPTS
          (compute_block_index_for target_height) hs) (\<lambda>(maybe_lowest, hs).
      Inr (case maybe_lowest of Some r \<Rightarrow> r | None \<Rightarrow> height_hash_default, hs))
    else
      and_then (charge ch (saturating_mul GAS_STORAGE_LOOKUP 2) hs) (\<lambda>hs.
      let attestation_rows = stable_rows rows s k;
          lowest = (case min_by_key row_height (filter (\<lambda>row. row_height row \<ge> target_height) attestation_rows) of
             Some (hash, row) \<Rightarrow> attestation_result (sa_header_number row) hash
           | None \<Rightarrow> height_hash_default) in
      and_then (charge ch (GAS_STORAGE_LOOKUP * len64 attestation_rows) hs) (\<lambda>hs.
      Inr (lowest, hs)))))"

section \<open>Whether a height is attested\<close>

text \<open>\<open>Iterator::any\<close> with the number of elements it pulled.\<close>

fun any_counted :: "('a \<Rightarrow> bool) \<Rightarrow> 'a list \<Rightarrow> bool \<times> u64" where
  "any_counted P [] = (False, 0)"
| "any_counted P (x # xs) = (if P x then (True, 1) else let (found, n) = any_counted P xs in (found, n + 1))"

fun any_bucket_below ::
  "'h ChainInfoHandle \<Rightarrow> (u64 set \<Rightarrow> u64 list) \<Rightarrow> ('c, 'z) StoreState_scheme \<Rightarrow> ChainKey \<Rightarrow> u64 \<Rightarrow> nat \<Rightarrow> u64 \<Rightarrow>
   ('h, bool) view" where
  "any_bucket_below ch iter s k target_height 0 block_pivot hs = Inr (False, hs)"
| "any_bucket_below ch iter s k target_height (Suc attempts) block_pivot hs =
    and_then (charge ch GAS_STORAGE_LOOKUP hs) (\<lambda>hs.
    let (found, items_processed) = any_counted (\<lambda>n. n \<le> target_height) (iter (bucket_heights s k block_pivot)) in
    and_then (charge ch (GAS_STORAGE_LOOKUP * items_processed) hs) (\<lambda>hs.
    if found then Inr (True, hs)
    else any_bucket_below ch iter s k target_height attempts (saturating_sub block_pivot CHECKPOINT_BUCKET_SIZE) hs))"

definition is_height_attested ::
  "'h ChainInfoHandle \<Rightarrow> (u64 set \<Rightarrow> u64 list) \<Rightarrow> attestation_rows \<Rightarrow> ChainsState \<Rightarrow> ('c, 'z) StoreState_scheme \<Rightarrow>
   ChainKey \<Rightarrow> u64 \<Rightarrow> ('h, bool) view" where
  "is_height_attested ch iter rows cs s k target_height hs =
    and_then (ensure_chain_supported ch cs k hs) (\<lambda>hs.
    and_then (charge ch GAS_STORAGE_LOOKUP hs) (\<lambda>hs.
    case map_option cp_block_number (LastCheckpoint s k) of
      Some last_checkpoint_height \<Rightarrow>
        if last_checkpoint_height < target_height then
          and_then (charge ch (saturating_mul GAS_STORAGE_LOOKUP 2) hs) (\<lambda>hs.
          let (found_next_attestation, items_processed) =
            any_counted (\<lambda>row. row_height row \<ge> target_height) (stable_rows rows s k) in
          and_then (charge ch (GAS_STORAGE_LOOKUP * items_processed) hs) (\<lambda>hs.
          Inr (found_next_attestation, hs)))
        else if last_checkpoint_height > target_height then
          any_bucket_below ch iter s k target_height BUCKET_SEARCH_ATTEMPTS
            (compute_block_index_for (saturating_sub target_height 1)) hs
        else Inr (True, hs)
    | None \<Rightarrow>
        and_then (charge ch (saturating_mul GAS_STORAGE_LOOKUP 2) hs) (\<lambda>hs.
        if \<not> attestations_stable s k then Inr (False, hs)
        else
          let attestation_rows = rows (Attestations s k);
              (found_attestation, items) = any_counted (\<lambda>row. row_height row = target_height) attestation_rows in
          and_then (charge ch (GAS_STORAGE_LOOKUP * items) hs) (\<lambda>hs.
          if found_attestation then Inr (True, hs)
          else and_then (charge ch GAS_STORAGE_LOOKUP hs) (\<lambda>hs.
            let (found_next, items) = any_counted (\<lambda>row. row_height row > target_height) attestation_rows in
            and_then (charge ch (GAS_STORAGE_LOOKUP * items) hs) (\<lambda>hs.
            and_then (charge ch GAS_STORAGE_LOOKUP hs) (\<lambda>hs.
            let (found_prev, items) = any_counted (\<lambda>row. row_height row < target_height) attestation_rows in
            and_then (charge ch (GAS_STORAGE_LOOKUP * items) hs) (\<lambda>hs.
            Inr (found_next \<and> found_prev, hs))))))))) "

definition get_attestation_bounds ::
  "'h ChainInfoHandle \<Rightarrow> (u64 set \<Rightarrow> u64 list) \<Rightarrow> attestation_rows \<Rightarrow> ChainsState \<Rightarrow> ('c, 'z) StoreState_scheme \<Rightarrow>
   ChainKey \<Rightarrow> u64 \<Rightarrow> ('h, BoundsCheckResult) view" where
  "get_attestation_bounds ch iter rows cs s k target_height hs =
    and_then (ensure_chain_supported ch cs k hs) (\<lambda>hs.
    and_then (find_highest_attested_before ch iter rows cs s k target_height hs) (\<lambda>(prev_attestation, hs).
    and_then (find_lowest_attested_after ch iter rows cs s k target_height hs) (\<lambda>(next_attestation, hs).
    Inr (\<lparr>parent = r_height prev_attestation, parent_hash = r_hash prev_attestation,
          parent_is_attestation = r_is_attestation prev_attestation,
          child = r_height next_attestation, child_hash = r_hash next_attestation,
          child_is_attestation = r_is_attestation next_attestation,
          is_attested = (r_exists prev_attestation \<and> r_exists next_attestation)\<rparr>, hs))))"

section \<open>Single lookups\<close>

definition get_attestation_height_for_digest ::
  "'h ChainInfoHandle \<Rightarrow> ChainsState \<Rightarrow> ('c, 'z) StoreState_scheme \<Rightarrow> ChainKey \<Rightarrow> H256 \<Rightarrow> ('h, HeightResult) view" where
  "get_attestation_height_for_digest ch cs s k digest hs =
    and_then (ensure_chain_supported ch cs k hs) (\<lambda>hs.
    and_then (charge ch (saturating_mul GAS_STORAGE_LOOKUP 2) hs) (\<lambda>hs.
    Inr (case get_attestation s k digest of
        Some a \<Rightarrow> \<lparr>h_height = sa_header_number a, h_exists = True\<rparr>
      | None \<Rightarrow> \<lparr>h_height = 0, h_exists = False\<rparr>, hs)))"

definition get_checkpoint_for_height ::
  "'h ChainInfoHandle \<Rightarrow> ChainsState \<Rightarrow> ('c, 'z) StoreState_scheme \<Rightarrow> ChainKey \<Rightarrow> u64 \<Rightarrow> ('h, HashResult) view" where
  "get_checkpoint_for_height ch cs s k height hs =
    and_then (ensure_chain_supported ch cs k hs) (\<lambda>hs.
    and_then (charge ch (saturating_mul GAS_STORAGE_LOOKUP 2) hs) (\<lambda>hs.
    Inr (case checkpoint_if_stable s k height of
        Some digest \<Rightarrow> \<lparr>d_hash = digest, d_exists = True\<rparr>
      | None \<Rightarrow> \<lparr>d_hash = 0, d_exists = False\<rparr>, hs)))"

section \<open>What the searches find\<close>

lemma find_sorted_wrt:
  "find P xs = Some x \<Longrightarrow> sorted_wrt R xs \<Longrightarrow> P x \<and> x \<in> set xs \<and> (\<forall>y\<in>set xs. P y \<longrightarrow> y = x \<or> R x y)"
  by (induction xs) (auto split: if_splits)

definition stable_at :: "('c, 'z) StoreState_scheme \<Rightarrow> ChainKey \<Rightarrow> u64 \<Rightarrow> bool" where
  "stable_at s k n \<longleftrightarrow> checkpoint_if_stable s k n \<noteq> None"

lemma probe_candidates_Inr:
  "probe_candidates ch s k ns hs = Inr (found, hs') \<Longrightarrow>
    found = map_option (\<lambda>n. checkpoint_result n (the (checkpoint_if_stable s k n))) (find (stable_at s k) ns)"
  by (induction ns arbitrary: hs) (auto simp: res_simps stable_at_def split: option.splits)

lemma find_below_descending:
  assumes "find P (below_descending t ns) = Some n"
  shows "P n \<and> n \<in> set ns \<and> n < t \<and> (\<forall>m\<in>set ns. m < t \<and> P m \<longrightarrow> m \<le> n)"
  using find_sorted_wrt [OF assms, of "\<lambda>x y. y \<le> x"] by (auto simp: below_descending_def sorted_wrt_rev)

lemma find_from_ascending:
  assumes "find P (from_ascending t ns) = Some n"
  shows "P n \<and> n \<in> set ns \<and> t \<le> n \<and> (\<forall>m\<in>set ns. t \<le> m \<and> P m \<longrightarrow> n \<le> m)"
  using find_sorted_wrt [OF assms, of "(\<le>)"] by (auto simp: from_ascending_def)

lemma bucket_members:
  "buckets_agree s k \<Longrightarrow> n \<in> bucket_heights s k p \<longleftrightarrow> Checkpoints s k n \<noteq> None \<and> compute_block_index_for n = p"
  by (auto simp: bucket_heights_def buckets_agree_def)

lemma stable_in_bucket:
  assumes "chain_iteration iter" and "buckets_agree s k" and "stable_at s k n"
  shows "n \<in> set (iter (bucket_heights s k (compute_block_index_for n)))"
  using assms by (auto simp: chain_iteration.set_chain_iter bucket_members stable_at_def checkpoint_if_stable_def
      split: option.splits if_splits)

lemma in_bucket_index:
  "chain_iteration iter \<Longrightarrow> buckets_agree s k \<Longrightarrow> n \<in> set (iter (bucket_heights s k p)) \<Longrightarrow> compute_block_index_for n = p"
  by (simp add: chain_iteration.set_chain_iter bucket_members)

text \<open>The result is the checkpoint nearest to the target among the buckets on one side of a pivot.\<close>

definition highest_below :: "('c, 'z) StoreState_scheme \<Rightarrow> ChainKey \<Rightarrow> u64 \<Rightarrow> u64 \<Rightarrow> HeightHashResult \<Rightarrow> bool" where
  "highest_below s k t p r \<longleftrightarrow> r_exists r \<and> \<not> r_is_attestation r \<and>
    checkpoint_if_stable s k (r_height r) = Some (r_hash r) \<and>
    r_height r < t \<and> (\<forall>n. r_height r < n \<and> n < t \<and> compute_block_index_for n \<le> p \<longrightarrow> \<not> stable_at s k n)"

definition lowest_from :: "('c, 'z) StoreState_scheme \<Rightarrow> ChainKey \<Rightarrow> u64 \<Rightarrow> u64 \<Rightarrow> HeightHashResult \<Rightarrow> bool" where
  "lowest_from s k t p r \<longleftrightarrow> r_exists r \<and> \<not> r_is_attestation r \<and>
    checkpoint_if_stable s k (r_height r) = Some (r_hash r) \<and>
    t \<le> r_height r \<and> (\<forall>n. t \<le> n \<and> n < r_height r \<and> p \<le> compute_block_index_for n \<longrightarrow> \<not> stable_at s k n)"

lemma previous_bucket:
  assumes "compute_block_index_for n \<le> p" and "compute_block_index_for n \<noteq> p" and "1000 dvd unat p"
  shows "compute_block_index_for n \<le> saturating_sub p CHECKPOINT_BUCKET_SIZE" and "1000 \<le> unat p"
proof -
  have "unat (compute_block_index_for n) < unat p"
    using assms(1,2) by (metis order_le_imp_less_or_eq word_less_nat_alt)
  then show "1000 \<le> unat p" and "compute_block_index_for n \<le> saturating_sub p CHECKPOINT_BUCKET_SIZE"
    using assms(3) by (auto simp: word_le_nat_alt unat_index unat_saturating_sub CHECKPOINT_BUCKET_SIZE_def elim!: dvdE)
qed

lemma following_bucket:
  assumes "pivot_ok p" and "p \<le> compute_block_index_for n" and "compute_block_index_for n \<noteq> p"
  shows "saturating_add p CHECKPOINT_BUCKET_SIZE \<le> compute_block_index_for n"
    and "unat (saturating_add p CHECKPOINT_BUCKET_SIZE) = unat p + 1000"
proof -
  show le: "saturating_add p CHECKPOINT_BUCKET_SIZE \<le> compute_block_index_for n"
    using assms by (rule pivot_ok_step)
  have "unat (compute_block_index_for n) < 2 ^ 64 - 1"
    using index_less_next [of n] unat_less_2p [of "saturating_add (compute_block_index_for n) CHECKPOINT_BUCKET_SIZE"]
    by (simp add: word_less_nat_alt)
  then show "unat (saturating_add p CHECKPOINT_BUCKET_SIZE) = unat p + 1000"
    using le by (simp add: word_le_nat_alt unat_saturating_add CHECKPOINT_BUCKET_SIZE_def min_def split: if_splits)
qed

text \<open>One bucket: either a candidate has a stable checkpoint, or the search goes on in the next bucket.\<close>

lemma search_buckets_Suc:
  assumes "search_buckets ch iter s k cand nxt (Suc m) p hs = Inr (found, hs')"
  shows "case find (stable_at s k) (cand (iter (bucket_heights s k p))) of
      Some n \<Rightarrow> found = Some (checkpoint_result n (the (checkpoint_if_stable s k n)))
    | None \<Rightarrow> \<exists>hs1. search_buckets ch iter s k cand nxt m (nxt p) hs1 = Inr (found, hs')"
  using assms by (auto simp: res_simps Let_def dest!: probe_candidates_Inr split: if_splits option.splits)

lemma find_highest_below:
  assumes "chain_iteration iter" and "buckets_agree s k"
    and "find (stable_at s k) (below_descending t (iter (bucket_heights s k p))) = Some n"
  shows "highest_below s k t p (checkpoint_result n (the (checkpoint_if_stable s k n)))"
proof -
  note n = find_below_descending [OF assms(3)]
  have "\<not> stable_at s k n'" if "n < n'" "n' < t" "compute_block_index_for n' \<le> p" for n'
  proof
    assume st: "stable_at s k n'"
    have "compute_block_index_for n \<le> compute_block_index_for n'" using that(1) by (simp add: index_mono)
    then have "compute_block_index_for n' = p"
      using that(3) in_bucket_index [OF assms(1,2), of n p] n by simp
    then have "n' \<in> set (iter (bucket_heights s k p))" using stable_in_bucket [OF assms(1,2) st] by simp
    then have "n' \<le> n" using n st that(2) by blast
    then show False using that(1) by simp
  qed
  then show ?thesis using n by (auto simp: highest_below_def checkpoint_result_def stable_at_def)
qed

lemma find_lowest_from:
  assumes "chain_iteration iter" and "buckets_agree s k"
    and "find (stable_at s k) (from_ascending t (iter (bucket_heights s k p))) = Some n"
  shows "lowest_from s k t p (checkpoint_result n (the (checkpoint_if_stable s k n)))"
proof -
  note n = find_from_ascending [OF assms(3)]
  have "\<not> stable_at s k n'" if "t \<le> n'" "n' < n" "p \<le> compute_block_index_for n'" for n'
  proof
    assume st: "stable_at s k n'"
    have "compute_block_index_for n' \<le> compute_block_index_for n" using that(2) by (simp add: index_mono)
    then have "compute_block_index_for n' = p"
      using that(3) in_bucket_index [OF assms(1,2), of n p] n by simp
    then have "n' \<in> set (iter (bucket_heights s k p))" using stable_in_bucket [OF assms(1,2) st] by simp
    then have "n \<le> n'" using n st that(1) by blast
    then show False using that(2) by simp
  qed
  then show ?thesis using n by (auto simp: lowest_from_def checkpoint_result_def stable_at_def)
qed

lemma search_down:
  assumes "chain_iteration iter" and "buckets_agree s k"
    and "search_buckets ch iter s k (below_descending t) (\<lambda>pivot. saturating_sub pivot CHECKPOINT_BUCKET_SIZE) m p hs = Inr (found, hs')"
    and "1000 dvd unat p"
  shows "case found of Some r \<Rightarrow> highest_below s k t p r
    | None \<Rightarrow> \<forall>n. n < t \<and> compute_block_index_for n \<le> p \<and> unat p < unat (compute_block_index_for n) + 1000 * m \<longrightarrow>
        \<not> stable_at s k n"
  using assms(3,4)
proof (induction m arbitrary: p hs)
  case 0
  then show ?case by (auto simp: word_le_nat_alt)
next
  case (Suc m)
  let ?p = "saturating_sub p CHECKPOINT_BUCKET_SIZE"
  note step = search_buckets_Suc [OF Suc.prems(1)]
  show ?case
  proof (cases "find (stable_at s k) (below_descending t (iter (bucket_heights s k p)))")
    case (Some n)
    with step find_highest_below [OF assms(1,2) Some] show ?thesis by simp
  next
    case None
    with step obtain hs1 where r: "search_buckets ch iter s k (below_descending t)
      (\<lambda>pivot. saturating_sub pivot CHECKPOINT_BUCKET_SIZE) m ?p hs1 = Inr (found, hs')" by auto
    have d: "1000 dvd unat ?p"
      using Suc.prems(2) by (auto simp: unat_saturating_sub CHECKPOINT_BUCKET_SIZE_def intro: dvd_diff_nat)
    have here: "\<not> stable_at s k n" if "n < t" "compute_block_index_for n = p" for n
      using that stable_in_bucket [OF assms(1,2), of n] None by (auto simp: find_None_iff below_descending_def)
    have prev: "compute_block_index_for n \<le> ?p \<and> unat ?p + 1000 = unat p"
      if "compute_block_index_for n \<le> p" "compute_block_index_for n \<noteq> p" for n
      using previous_bucket [OF that Suc.prems(2)] by (simp add: unat_saturating_sub CHECKPOINT_BUCKET_SIZE_def)
    show ?thesis
    proof (cases found)
      case None
      then have ih: "\<not> stable_at s k n"
        if "n < t" "compute_block_index_for n \<le> ?p" "unat ?p < unat (compute_block_index_for n) + 1000 * m" for n
        using Suc.IH [OF r d] that by auto
      have "\<not> stable_at s k n"
        if "n < t" "compute_block_index_for n \<le> p" "unat p < unat (compute_block_index_for n) + 1000 * Suc m" for n
        using here [OF that(1)] ih [OF that(1)] prev [OF that(2)] that(3) by (cases "compute_block_index_for n = p") auto
      then show ?thesis using None by simp
    next
      case (Some r')
      then have h: "highest_below s k t ?p r'" using Suc.IH [OF r d] by simp
      have "\<not> stable_at s k n" if "r_height r' < n" "n < t" "compute_block_index_for n \<le> p" for n
        using here [OF that(2)] prev [OF that(3)] h that(1,2) unfolding highest_below_def by blast
      then show ?thesis using h Some by (simp add: highest_below_def)
    qed
  qed
qed

lemma search_up:
  assumes "chain_iteration iter" and "buckets_agree s k"
    and "search_buckets ch iter s k (from_ascending t) (\<lambda>pivot. saturating_add pivot CHECKPOINT_BUCKET_SIZE) m p hs = Inr (found, hs')"
    and "pivot_ok p"
  shows "case found of Some r \<Rightarrow> lowest_from s k t p r
    | None \<Rightarrow> \<forall>n. t \<le> n \<and> p \<le> compute_block_index_for n \<and> unat (compute_block_index_for n) < unat p + 1000 * m \<longrightarrow>
        \<not> stable_at s k n"
  using assms(3,4)
proof (induction m arbitrary: p hs)
  case 0
  then show ?case by (auto simp: word_le_nat_alt)
next
  case (Suc m)
  let ?p = "saturating_add p CHECKPOINT_BUCKET_SIZE"
  note step = search_buckets_Suc [OF Suc.prems(1)]
  show ?case
  proof (cases "find (stable_at s k) (from_ascending t (iter (bucket_heights s k p)))")
    case (Some n)
    with step find_lowest_from [OF assms(1,2) Some] show ?thesis by simp
  next
    case None
    with step obtain hs1 where r: "search_buckets ch iter s k (from_ascending t)
      (\<lambda>pivot. saturating_add pivot CHECKPOINT_BUCKET_SIZE) m ?p hs1 = Inr (found, hs')" by auto
    note d = pivot_ok_next [OF Suc.prems(2)] and nxt = following_bucket [OF Suc.prems(2)]
    have here: "\<not> stable_at s k n" if "t \<le> n" "compute_block_index_for n = p" for n
      using that stable_in_bucket [OF assms(1,2), of n] None by (auto simp: find_None_iff from_ascending_def)
    show ?thesis
    proof (cases found)
      case None
      then have ih: "\<not> stable_at s k n"
        if "t \<le> n" "?p \<le> compute_block_index_for n" "unat (compute_block_index_for n) < unat ?p + 1000 * m" for n
        using Suc.IH [OF r d] that by auto
      have "\<not> stable_at s k n"
        if "t \<le> n" "p \<le> compute_block_index_for n" "unat (compute_block_index_for n) < unat p + 1000 * Suc m" for n
        using here [OF that(1)] ih [OF that(1)] nxt [OF that(2)] that(3) by (cases "compute_block_index_for n = p") auto
      then show ?thesis using None by simp
    next
      case (Some r')
      then have h: "lowest_from s k t ?p r'" using Suc.IH [OF r d] by simp
      have "\<not> stable_at s k n" if "t \<le> n" "n < r_height r'" "p \<le> compute_block_index_for n" for n
        using here [OF that(1)] nxt(1) [OF that(3)] h that(1,2) unfolding lowest_from_def by blast
      then show ?thesis using h Some by (simp add: lowest_from_def)
    qed
  qed
qed

section \<open>Rows and gas\<close>

locale row_iteration =
  fixes rows :: attestation_rows
  assumes set_rows: "set (rows m) = {(d, a). m d = Some a}"
begin

lemma stable_row_anchored:
  "(d, a) \<in> set (stable_rows rows s k) \<Longrightarrow> anchored supp s k (sa_header_number a) d"
  by (auto simp: stable_rows_def set_rows anchored_def get_attestation_def split: if_splits)

end

interpretation sorted_rows: row_iteration "\<lambda>m. map (\<lambda>d. (d, the (m d))) (sorted_list_of_set (dom m))"
  by unfold_locales force

lemma fold_select:
  assumes "\<And>x y. g x y = x \<or> g x y = y"
  shows "fold g xs x \<in> set (x # xs)"
proof (induction xs arbitrary: x)
  case (Cons y ys)
  show ?case using Cons.IH [of "g y x"] assms [of y x] by auto
qed simp

lemma max_by_key_mem:
  assumes "max_by_key f xs = Some x"
  shows "x \<in> set xs"
proof (cases xs)
  case (Cons y ys)
  have "fold (\<lambda>y best. if f best \<le> f y then y else best) ys y \<in> set (y # ys)" by (rule fold_select) auto
  then show ?thesis using assms Cons by simp
qed (use assms in simp)

lemma min_by_key_mem:
  assumes "min_by_key f xs = Some x"
  shows "x \<in> set xs"
proof (cases xs)
  case (Cons y ys)
  have "fold (\<lambda>y best. if f y < f best then y else best) ys y \<in> set (y # ys)" by (rule fold_select) auto
  then show ?thesis using assms Cons by simp
qed (use assms in simp)

text \<open>A handle that has gas for everything.\<close>

definition view_affordable :: "'h ChainInfoHandle \<Rightarrow> bool" where
  "view_affordable ch \<longleftrightarrow> affordable (evm ch) \<and> (\<forall>n hs. \<exists>hs'. record_db_read ch n hs = Inr hs')"

lemma affordable_charge: "view_affordable ch \<Longrightarrow> \<exists>f. \<forall>c hs. charge ch c hs = Inr (f c hs)"
  unfolding view_affordable_def using affordable_cost [of "evm ch"] by (auto simp: charge_def)

lemma affordable_supported:
  "view_affordable ch \<Longrightarrow> SupportedChains cs k \<noteq> None \<Longrightarrow> \<exists>f. \<forall>hs. ensure_chain_supported ch cs k hs = Inr (f hs)"
  using affordable_charge [of ch] by (auto simp: ensure_chain_supported_def)

lemma probe_candidates_returns: "view_affordable ch \<Longrightarrow> \<exists>r. probe_candidates ch s k ns hs = Inr r"
  by (induction ns arbitrary: hs) (auto dest: affordable_charge split: option.splits)

lemma search_buckets_returns:
  assumes "view_affordable ch"
  shows "\<exists>r. search_buckets ch iter s k cand nxt m p hs = Inr r"
proof (induction m arbitrary: p hs)
  case (Suc m)
  obtain f where f: "\<And>c hs. charge ch c hs = Inr (f c hs)" using affordable_charge [OF assms] by blast
  obtain found hs1 where "probe_candidates ch s k (cand (iter (bucket_heights s k p)))
      (f (GAS_STORAGE_LOOKUP * len64 (iter (bucket_heights s k p))) (f GAS_STORAGE_LOOKUP hs)) = Inr (found, hs1)"
    using probe_candidates_returns [OF assms] by fastforce
  then show ?case using Suc.IH [of "nxt p" hs1] by (simp add: f Let_def)
qed simp

lemma find_highest_returns:
  assumes "view_affordable ch" and "SupportedChains cs k \<noteq> None"
  shows "\<exists>r hs'. find_highest_attested_before ch iter rows cs s k t hs = Inr (r, hs')"
proof -
  obtain f where f: "\<And>c hs. charge ch c hs = Inr (f c hs)" using affordable_charge [OF assms(1)] by blast
  obtain g where g: "\<And>hs. ensure_chain_supported ch cs k hs = Inr (g hs)" using affordable_supported [OF assms] by blast
  obtain found hs1 where "search_buckets ch iter s k (below_descending t) (\<lambda>pivot. saturating_sub pivot CHECKPOINT_BUCKET_SIZE)
      BUCKET_SEARCH_ATTEMPTS (compute_block_index_for (saturating_sub t 1)) (f GAS_STORAGE_LOOKUP (g hs)) = Inr (found, hs1)"
    using search_buckets_returns [OF assms(1)] by fastforce
  then show ?thesis by (auto simp: find_highest_attested_before_def f g Let_def split: option.split prod.split)
qed

lemma find_lowest_returns:
  assumes "view_affordable ch" and "SupportedChains cs k \<noteq> None"
  shows "\<exists>r hs'. find_lowest_attested_after ch iter rows cs s k t hs = Inr (r, hs')"
proof -
  obtain f where f: "\<And>c hs. charge ch c hs = Inr (f c hs)" using affordable_charge [OF assms(1)] by blast
  obtain g where g: "\<And>hs. ensure_chain_supported ch cs k hs = Inr (g hs)" using affordable_supported [OF assms] by blast
  obtain found hs1 where "search_buckets ch iter s k (from_ascending t) (\<lambda>pivot. saturating_add pivot CHECKPOINT_BUCKET_SIZE)
      BUCKET_SEARCH_ATTEMPTS (compute_block_index_for t) (f GAS_STORAGE_LOOKUP (g hs)) = Inr (found, hs1)"
    using search_buckets_returns [OF assms(1)] by fastforce
  then show ?thesis by (auto simp: find_lowest_attested_after_def f g Let_def split: option.split prod.split)
qed

section \<open>Bounds\<close>

definition registered :: "ChainsState \<Rightarrow> ChainKey \<Rightarrow> bool" where
  "registered cs k \<longleftrightarrow> SupportedChains cs k \<noteq> None"

lemma ensure_supported_Inr: "ensure_chain_supported ch cs k hs = Inr hs' \<Longrightarrow> registered cs k"
  by (auto simp: ensure_chain_supported_def registered_def res_simps split: if_splits)

lemma checkpoint_anchored: "registered cs k \<Longrightarrow> checkpoint_if_stable s k n = Some d \<Longrightarrow> anchored (registered cs) s k n d"
  by (auto simp: anchored_def)

text \<open>What the branch for a target at or below the last checkpoint returns.\<close>

lemma find_highest_checkpoint:
  assumes "chain_iteration iter" and "buckets_agree s k" and "LastCheckpoint s k = Some c" and "t \<le> cp_block_number c"
    and "find_highest_attested_before ch iter rows cs s k t hs = Inr (r, hs')"
  shows "if r_exists r then highest_below s k t (compute_block_index_for (saturating_sub t 1)) r
    else \<forall>n<t. unat (compute_block_index_for (saturating_sub t 1)) < unat (compute_block_index_for n) + 5000 \<longrightarrow> \<not> stable_at s k n"
proof -
  let ?p = "compute_block_index_for (saturating_sub t 1)"
  obtain hs1 found where b: "search_buckets ch iter s k (below_descending t) (\<lambda>pivot. saturating_sub pivot CHECKPOINT_BUCKET_SIZE)
      BUCKET_SEARCH_ATTEMPTS ?p hs1 = Inr (found, hs')" "r = (case found of Some r \<Rightarrow> r | None \<Rightarrow> height_hash_default)"
    using assms(3-5) by (auto simp: find_highest_attested_before_def res_simps Let_def)
  note d = search_down [OF assms(1,2) b(1)]
  have "n \<le> saturating_sub t 1" if "n < t" for n
    using that by (simp add: word_le_nat_alt word_less_nat_alt unat_saturating_sub)
  then have le: "compute_block_index_for n \<le> ?p" if "n < t" for n using that by (intro index_mono)
  show ?thesis
  proof (cases found)
    case None
    then have "r_exists r = False" by (simp add: b(2) height_hash_default_def)
    then show ?thesis using d le None by (simp add: BUCKET_SEARCH_ATTEMPTS_def unat_index)
  next
    case (Some r')
    then have "highest_below s k t ?p r" using d by (simp add: b(2) unat_index)
    then show ?thesis by (simp add: highest_below_def)
  qed
qed

lemma find_lowest_checkpoint:
  assumes "chain_iteration iter" and "buckets_agree s k" and "LastCheckpoint s k = Some c" and "t < cp_block_number c"
    and "find_lowest_attested_after ch iter rows cs s k t hs = Inr (r, hs')"
  shows "if r_exists r then lowest_from s k t (compute_block_index_for t) r
    else \<forall>n\<ge>t. unat (compute_block_index_for n) < unat (compute_block_index_for t) + 5000 \<longrightarrow> \<not> stable_at s k n"
proof -
  let ?p = "compute_block_index_for t"
  obtain hs1 found where b: "search_buckets ch iter s k (from_ascending t) (\<lambda>pivot. saturating_add pivot CHECKPOINT_BUCKET_SIZE)
      BUCKET_SEARCH_ATTEMPTS ?p hs1 = Inr (found, hs')" "r = (case found of Some r \<Rightarrow> r | None \<Rightarrow> height_hash_default)"
    using assms(3-5) by (auto simp: find_lowest_attested_after_def res_simps Let_def)
  note d = search_up [OF assms(1,2) b(1) pivot_ok_index]
  have le: "?p \<le> compute_block_index_for n" if "t \<le> n" for n using that by (intro index_mono)
  show ?thesis
  proof (cases found)
    case None
    then have "r_exists r = False" by (simp add: b(2) height_hash_default_def)
    then show ?thesis using d le None by (simp add: BUCKET_SEARCH_ATTEMPTS_def)
  next
    case (Some r')
    then have "lowest_from s k t ?p r" using d by (simp add: b(2))
    then show ?thesis by (simp add: lowest_from_def)
  qed
qed

lemma find_highest_anchored:
  assumes "chain_iteration iter" and "row_iteration rows" and "buckets_agree s k"
    and "find_highest_attested_before ch iter rows cs s k t hs = Inr (r, hs')" and "r_exists r"
  shows "r_height r < t \<and> anchored (registered cs) s k (r_height r) (r_hash r)"
proof (cases "\<exists>c. LastCheckpoint s k = Some c \<and> t \<le> cp_block_number c")
  case True
  then have "highest_below s k t (compute_block_index_for (saturating_sub t 1)) r"
    using find_highest_checkpoint [OF assms(1,3) _ _ assms(4)] assms(5) by auto
  moreover have "registered cs k"
    using assms(4) ensure_supported_Inr by (auto simp: find_highest_attested_before_def res_simps)
  ultimately show ?thesis
    by (simp add: highest_below_def checkpoint_anchored)
next
  case False
  have reg: "registered cs k" using assms(4) ensure_supported_Inr by (auto simp: find_highest_attested_before_def res_simps)
  show ?thesis
  proof (cases "max_by_key row_height (filter (\<lambda>row. row_height row < t) (stable_rows rows s k))")
    case None
    with False reg assms(4,5) show ?thesis
      by (auto simp: find_highest_attested_before_def res_simps Let_def height_hash_default_def checkpoint_result_def
          intro: checkpoint_anchored split: option.splits)
  next
    case (Some row)
    obtain d a where row: "row = (d, a)" by (cases row)
    have "(d, a) \<in> set (stable_rows rows s k)" "sa_header_number a < t" using max_by_key_mem [OF Some] row by auto
    moreover have "r = attestation_result (sa_header_number a) d"
      using False assms(4) Some row by (auto simp: find_highest_attested_before_def res_simps Let_def split: option.splits)
    ultimately show ?thesis using row_iteration.stable_row_anchored [OF assms(2)] by (simp add: attestation_result_def)
  qed
qed

lemma find_lowest_anchored:
  assumes "chain_iteration iter" and "row_iteration rows" and "buckets_agree s k"
    and "find_lowest_attested_after ch iter rows cs s k t hs = Inr (r, hs')" and "r_exists r"
  shows "t \<le> r_height r \<and> anchored (registered cs) s k (r_height r) (r_hash r)"
proof (cases "\<exists>c. LastCheckpoint s k = Some c \<and> t < cp_block_number c")
  case True
  then have "lowest_from s k t (compute_block_index_for t) r"
    using find_lowest_checkpoint [OF assms(1,3) _ _ assms(4)] assms(5) by auto
  moreover have "registered cs k"
    using assms(4) ensure_supported_Inr by (auto simp: find_lowest_attested_after_def res_simps)
  ultimately show ?thesis
    by (simp add: lowest_from_def checkpoint_anchored)
next
  case False
  then have r: "r = (case min_by_key row_height (filter (\<lambda>row. row_height row \<ge> t) (stable_rows rows s k)) of
      Some (hash, row) \<Rightarrow> attestation_result (sa_header_number row) hash | None \<Rightarrow> height_hash_default)"
    using assms(4) by (auto simp: find_lowest_attested_after_def res_simps Let_def split: option.splits)
  then obtain d a where m: "min_by_key row_height (filter (\<lambda>row. row_height row \<ge> t) (stable_rows rows s k)) = Some (d, a)"
    using assms(5) by (auto simp: height_hash_default_def split: option.splits)
  show ?thesis using r min_by_key_mem [OF m] row_iteration.stable_row_anchored [OF assms(2), of d a s k]
    by (simp add: m attestation_result_def)
qed

text \<open>C17: For a registered chain and a handle with enough gas the bounds of a height are always
  reported, and when they say that the height is attested, the parent is below the height, the
  child is at or above it, and both are digests that the pallet vouches for.\<close>

theorem attestation_bounds_are_anchors:
  assumes "chain_iteration iter" and "row_iteration rows" and "ladder_ok s k"
    and "registered cs k" and "view_affordable ch"
  shows "\<exists>b hs'. get_attestation_bounds ch iter rows cs s k t hs = Inr (b, hs') \<and>
    (is_attested b \<longrightarrow> parent b < t \<and> t \<le> child b \<and>
      anchored (registered cs) s k (parent b) (parent_hash b) \<and> anchored (registered cs) s k (child b) (child_hash b))"
proof -
  note reg = assms(4) [unfolded registered_def]
  have ag: "buckets_agree s k" using assms(3) by (simp add: ladder_ok_def)
  obtain g where g: "\<And>hs. ensure_chain_supported ch cs k hs = Inr (g hs)" using affordable_supported [OF assms(5) reg] by blast
  obtain lo h1 where lo: "find_highest_attested_before ch iter rows cs s k t (g hs) = Inr (lo, h1)"
    using find_highest_returns [OF assms(5) reg] by blast
  obtain hi h2 where hi: "find_lowest_attested_after ch iter rows cs s k t h1 = Inr (hi, h2)"
    using find_lowest_returns [OF assms(5) reg] by blast
  show ?thesis
    using find_highest_anchored [OF assms(1,2) ag lo] find_lowest_anchored [OF assms(1,2) ag hi]
    by (simp add: get_attestation_bounds_def g lo hi)
qed

text \<open>A continuity proof from the height to the child, over the roots of the source chain.\<close>

lemma bounds_Inr:
  assumes "get_attestation_bounds ch iter rows cs s k t hs = Inr (b, hs')"
  obtains lo hi h1 h2 where "find_highest_attested_before ch iter rows cs s k t h1 = Inr (lo, h2)"
    and "find_lowest_attested_after ch iter rows cs s k t h2 = Inr (hi, hs')" and "is_attested b \<longleftrightarrow> r_exists lo \<and> r_exists hi"
    and "child b = r_height hi" and "child_hash b = r_hash hi"
  using assms by (auto simp: get_attestation_bounds_def res_simps)

lemma generated_query_valid:
  assumes "generate_proof (tree_new kc items) i = Inr mp" and "length items \<le> 2 ^ 64" and "items ! i \<noteq> []"
    and "roots p \<noteq> []" and "length (roots p) \<le> MAX_CONTINUITY_ROOTS" and "unat t + length (roots p) \<le> 2 ^ 64"
    and "roots p ! 0 = tree_root (tree_new kc items)"
  shows "query_valid w kc p t t (items ! i) mp"
proof -
  let ?l = "map (hash_leaf kc) items"
  have i: "i < length items" and p: "mp = \<lparr>mp_root = tree_root (tree_new kc items), siblings = level_path kc ?l i\<rparr>"
    using assms(1) by (auto simp: generate_proof_tree_new split: if_splits)
  have ne: "?l \<noteq> []" using i by auto
  have "length (siblings mp) \<le> 64" using length_level_path [OF ne, of 64 kc i] assms(2) p by simp
  then have "checked_mul CONTINUITY_BLOCK_HASH_COST (of_nat (length (siblings mp))) \<noteq> None"
    by (simp add: checked_mul_def CONTINUITY_BLOCK_HASH_COST_def unat_of_nat)
  moreover have "verify kc mp (items ! i)"
    using climb_level_path [OF ne, of i kc] i by (simp add: p verify_def tree_root_tree_new)
  ultimately show ?thesis
    using assms(3,7) find_own_height [OF assms(4-6), of w] by (auto simp: query_valid_def p)
qed

text \<open>C2: The bounds are what a prover needs.  If they say that a height is attested and the child
  is the digest of the source chain at its height, then every transaction of the block at that
  height is accepted by the block prover, with the Merkle proof generated for it and a continuity
  proof over the roots from the height to the child.  The proof has no more roots than the prover
  takes, the transaction is not empty, and the EVM has gas for the verification.\<close>

theorem attested_transactions_verify:
  assumes "chain_iteration iter" and "row_iteration rows" and "ladder_ok s k" and "affordable ev"
    and "get_attestation_bounds ch iter rows cs s k t hs = Inr (b, hs')" and "is_attested b"
    and "m = unat (child b) - unat t + 1" and "m \<le> MAX_CONTINUITY_ROOTS"
    and "child_hash b = digest_chain kc t prev (block_roots kc txs t m)"
    and "generate_proof (tree_new kc (txs t)) i = Inr mp" and "length (txs t) \<le> 2 ^ 64" and "txs t ! i \<noteq> []"
  shows "\<exists>hs''. precompile_verify w kc ev (registered cs) k t (txs t ! i) mp
    \<lparr>lower_endpoint_digest = prev, roots = block_roots kc txs t m\<rparr> s hs0 = Inr (True, hs'')"
proof -
  let ?p = "\<lparr>lower_endpoint_digest = prev, roots = block_roots kc txs t m\<rparr>"
  have ag: "buckets_agree s k" using assms(3) by (simp add: ladder_ok_def)
  have c: "t \<le> child b \<and> anchored (registered cs) s k (child b) (child_hash b)"
    using bounds_Inr [OF assms(5)] find_lowest_anchored [OF assms(1,2) ag] assms(6) by metis
  have len: "length (roots ?p) = m" by (simp add: block_roots_def)
  have fits: "unat t + m \<le> 2 ^ 64" using c assms(7) unat_less_2p [of "child b"] by (simp add: word_le_nat_alt)
  have pos: "0 < m" using assms(7) by simp
  have "proof_end t ?p = child b"
  proof -
    have "m - 1 = unat (child b - t)" using c assms(7) by (simp add: unat_sub)
    then show ?thesis by (simp add: proof_end_def block_roots_def)
  qed
  then have "chain_valid kc (registered cs) s k ?p t t"
    using c fits pos assms(8,9) len by (auto simp: chain_valid_def)
  moreover have "query_valid w kc ?p t t (txs t ! i) mp"
    by (rule generated_query_valid [OF assms(10-12)])
      (use pos fits assms(8) len hd_block_roots [of m kc txs t] in \<open>auto simp: block_roots_def\<close>)
  ultimately show ?thesis unfolding precompile_verify_def verify_impl_iff [OF assms(4)] by blast
qed

text \<open>C26: While the target is not above the last checkpoint, the search for the highest attested height
  below it is exact within five buckets: it returns the highest checkpoint below the target that is
  not being pruned, and reports none only if there is none in the five buckets.\<close>

theorem highest_checkpoint_is_exact:
  assumes "chain_iteration iter" and "ladder_ok s k" and "LastCheckpoint s k = Some c" and "t \<le> cp_block_number c"
    and "find_highest_attested_before ch iter rows cs s k t hs = Inr (r, hs')"
  shows "if r_exists r
    then r_height r < t \<and> checkpoint_if_stable s k (r_height r) = Some (r_hash r) \<and>
      (\<forall>n. r_height r < n \<and> n < t \<longrightarrow> checkpoint_if_stable s k n = None)
    else \<forall>n<t. unat (compute_block_index_for (saturating_sub t 1)) < unat (compute_block_index_for n) + 5000 \<longrightarrow>
      checkpoint_if_stable s k n = None"
proof -
  have ag: "buckets_agree s k" using assms(2) by (simp add: ladder_ok_def)
  have "compute_block_index_for n \<le> compute_block_index_for (saturating_sub t 1)" if "n < t" for n
    using that by (intro index_mono) (simp add: word_le_nat_alt word_less_nat_alt unat_saturating_sub)
  then show ?thesis using find_highest_checkpoint [OF assms(1) ag assms(3-5)]
    by (auto simp: highest_below_def stable_at_def)
qed

text \<open>At the height of the last checkpoint, with no attestation at or above it, one query says that
  the height is attested and the bounds say that it is not.\<close>

theorem last_checkpoint_answers_disagree:
  assumes "LastCheckpoint s k = Some c" and "row_iteration rows"
    and "\<And>d a. Attestations s k d = Some a \<Longrightarrow> sa_header_number a < cp_block_number c"
    and "is_height_attested ch iter rows cs s k (cp_block_number c) hs = Inr (x, hs1)"
    and "get_attestation_bounds ch iter rows cs s k (cp_block_number c) hs = Inr (b, hs2)"
  shows "x \<and> \<not> is_attested b"
proof -
  have "filter (\<lambda>row. row_height row \<ge> cp_block_number c) (stable_rows rows s k) = []"
    using assms(3) row_iteration.set_rows [OF assms(2)] by (fastforce simp: stable_rows_def filter_empty_conv)
  moreover obtain hi h2 where "find_lowest_attested_after ch iter rows cs s k (cp_block_number c) h2 = Inr (hi, hs2)"
      "is_attested b \<longrightarrow> r_exists hi"
    using bounds_Inr [OF assms(5)] by metis
  ultimately have "\<not> is_attested b"
    using assms(1) by (auto simp: find_lowest_attested_after_def res_simps Let_def height_hash_default_def)
  moreover have x using assms(1,4) by (auto simp: is_height_attested_def res_simps)
  ultimately show ?thesis by simp
qed

section \<open>An example\<close>

text \<open>A chain with checkpoints at the heights 9, 10 and 11.\<close>

definition example_chains :: ChainsState where
  "example_chains = chains_default\<lparr>SupportedChains :=
     [7 \<mapsto> \<lparr>chain_id = 1, chain_name = [], chain_encoding = V1, maturity_strategy = []\<rparr>]\<rparr>"

definition example_info_store :: "lock_table StoreState" where
  "example_info_store = (store_default (\<lambda>_. []))\<lparr>
     Checkpoints := (\<lambda>_. Map.empty)(7 := [9 \<mapsto> 7, 10 \<mapsto> 2, 11 \<mapsto> 3]),
     CheckpointBuckets := {(7, 0, 9), (7, 0, 10), (7, 0, 11)},
     LastCheckpoint := [7 \<mapsto> \<lparr>cp_block_number = 11, cp_digest = 3\<rparr>]\<rparr>"

definition example_info_handle :: "unit ChainInfoHandle" where
  "example_info_handle = \<lparr>evm = example_handle, record_db_read = (\<lambda>_ h. Inr h), encoded_size = (\<lambda>_. 0), encode_reason = (\<lambda>_. [])\<rparr>"

abbreviation "example_rows \<equiv> \<lambda>m :: Digest \<rightharpoonup> SignedAttestation. map (\<lambda>d. (d, the (m d))) (sorted_list_of_set (dom m))"

abbreviation "example_bounds \<equiv> \<lparr>parent = 9, parent_hash = 7, parent_is_attestation = False,
  child = 10, child_hash = 2, child_is_attestation = False, is_attested = True\<rparr>"

lemma example_info_fields:
  "Checkpoints example_info_store 7 = [9 \<mapsto> 7, 10 \<mapsto> 2, 11 \<mapsto> 3]"
  "LastCheckpoint example_info_store 7 = Some \<lparr>cp_block_number = 11, cp_digest = 3\<rparr>"
  "CheckpointPruningStates example_info_store 7 = None"
  "CheckpointBuckets example_info_store = {(7, 0, 9), (7, 0, 10), (7, 0, 11)}"
  by (simp_all add: example_info_store_def store_default_def
      registry_default_def RegistryState.defs StoreState.defs LedgerState.defs ParamsState.defs params_default_def)

lemma example_info_ok: "ladder_ok example_info_store 7"
  by (auto simp: ladder_ok_def buckets_agree_def pruned_above_def example_info_fields compute_block_index_for_def
      CHECKPOINT_BUCKET_SIZE_def split: if_splits)

lemma example_info_supported: "registered example_chains 7" "view_affordable example_info_handle"
  by (simp_all add: registered_def example_chains_def view_affordable_def example_info_handle_def example_affordable)

lemma example_bucket: "sorted_list_of_set (bucket_heights example_info_store 7 0) = [9, 10, 11]"
proof -
  have "bucket_heights example_info_store 7 0 = {9, 10, 11}" by (auto simp: bucket_heights_def example_info_fields)
  then show ?thesis by simp
qed

lemma example_gas: "charge example_info_handle c hs = Inr hs" "ensure_chain_supported example_info_handle example_chains 7 hs = Inr hs"
  by (simp_all add: ensure_chain_supported_def charge_def exit_result_def example_info_handle_def example_handle_def example_chains_def)

lemma example_indices: "compute_block_index_for (saturating_sub 10 1) = 0" "compute_block_index_for 10 = 0"
  "BUCKET_SEARCH_ATTEMPTS = Suc (Suc (Suc (Suc (Suc 0))))"
  by (simp_all add: compute_block_index_for_def CHECKPOINT_BUCKET_SIZE_def saturating_sub_def BUCKET_SEARCH_ATTEMPTS_def)

lemma example_highest:
  "find_highest_attested_before example_info_handle sorted_list_of_set rows example_chains example_info_store 7 10 hs =
    Inr (checkpoint_result 9 7, hs)"
  by (simp add: find_highest_attested_before_def Let_def example_gas example_indices example_info_fields(2) example_bucket
      below_descending_def checkpoint_if_stable_def example_info_fields(1,3))

lemma example_lowest:
  "find_lowest_attested_after example_info_handle sorted_list_of_set rows example_chains example_info_store 7 10 hs =
    Inr (checkpoint_result 10 2, hs)"
  by (simp add: find_lowest_attested_after_def Let_def example_gas example_indices example_info_fields(2) example_bucket
      from_ascending_def checkpoint_if_stable_def example_info_fields(1,3))

lemma example_bounds_reported:
  "get_attestation_bounds example_info_handle sorted_list_of_set rows example_chains example_info_store 7 10 hs =
    Inr (example_bounds, hs)"
  by (simp add: get_attestation_bounds_def example_gas example_highest example_lowest checkpoint_result_def)

theorem attestation_bounds_are_anchors_witness:
  "\<exists>b hs'. get_attestation_bounds example_info_handle sorted_list_of_set example_rows example_chains example_info_store 7 10 () =
      Inr (b, hs') \<and> is_attested b \<and> parent b < 10 \<and> 10 \<le> child b \<and>
      anchored (registered example_chains) example_info_store 7 (child b) (child_hash b)"
  using attestation_bounds_are_anchors [OF chain_key_order.chain_iteration_axioms sorted_rows.row_iteration_axioms
      example_info_ok example_info_supported, of 10 "()"] example_bounds_reported by auto

theorem attested_transactions_verify_witness:
  "\<exists>hs''. precompile_verify 32 example_kc example_handle (registered example_chains) 7 10 [1] example_mp
    \<lparr>lower_endpoint_digest = 7, roots = block_roots example_kc (\<lambda>_. [[1]]) 10 1\<rparr> example_info_store () = Inr (True, hs'')"
proof -
  have r: "block_roots example_kc (\<lambda>_. [[1]]) 10 (Suc 0) = [1]"
    by (simp add: block_roots_def tree_root_tree_new hash_leaf_input)
  show ?thesis
    using attested_transactions_verify [OF chain_key_order.chain_iteration_axioms sorted_rows.row_iteration_axioms example_info_ok
        example_affordable example_bounds_reported, of 1 example_kc 7 "\<lambda>_. [[1]]" 0 example_mp 32 "()"]
    by (simp add: r hash_payload_alt payload_neq_leaf generate_proof_tree_new tree_root_tree_new hash_leaf_input MAX_CONTINUITY_ROOTS_def)
qed

theorem highest_checkpoint_is_exact_witness:
  "checkpoint_if_stable example_info_store 7 9 = Some 7 \<and> (9::u64) < 10"
  using highest_checkpoint_is_exact [OF chain_key_order.chain_iteration_axioms example_info_ok example_info_fields(2) _ example_highest]
  by (simp add: checkpoint_result_def)

end
