(* ===== verification/Pool.thy ===== *)
theory Pool
  imports Randomness "HOL-Library.Product_Lexorder"
begin

text \<open>The vote pool of the attestor (\<open>attestor/pool/src\<close>): votes are collected into forks, one per
  height and digest, an index by height and size finds the fork to validate next, and the chain's
  events prune the forks.

  A \<open>BTreeMap\<close> is a partial function and a \<open>BTreeSet\<close> a set, enumerated in the order of its
  elements; the index is enumerated downwards.  The time of the first vote is an argument, the
  metrics are not modelled, and of the notification of the receiver only the fact that it is
  pending is.  The mutex makes every operation atomic, so each is one function of the shared
  state.  The properties are in \<open>PoolInv\<close>.\<close>

section \<open>Votes and forks\<close>

record Vote =
  v_chain_key :: ChainKey
  v_height :: Height
  v_digest :: Digest
  v_attestor :: AccountId
  signature_bls :: BlsSignature

datatype PoolError =
    Unauthorized AccountId Height
  | InvalidHeight AccountId Height Height
  | Equivocation AccountId Height
  | KnownInvalid AccountId Height Digest

record AttestationVote =
  av_height :: Height
  av_digest :: Digest
  av_chain_key :: ChainKey
  av_votes :: "Vote list"
  av_signers :: "AccountId set"

record Forks =
  by_digest :: "Height \<times> Digest \<rightharpoonup> AttestationVote"
  by_height_size :: "(Height \<times> nat \<times> Digest) set"
  seen :: "Height \<times> AccountId \<rightharpoonup> Digest"
  invalid :: "(Height \<times> Digest) set"
  deferred :: "(Height \<times> Digest) set"
  last_finalized_height :: "Height option"
  last_finalized_digest :: "Digest option"

definition forks_new :: "Digest option \<Rightarrow> Height option \<Rightarrow> Forks" where
  "forks_new digest height =
    \<lparr>by_digest = Map.empty, by_height_size = {}, seen = Map.empty, invalid = {}, deferred = {},
     last_finalized_height = height, last_finalized_digest = digest\<rparr>"

text \<open>The fork a vote is added to, and the addition.\<close>

definition fork_entry :: "Vote \<Rightarrow> Forks \<Rightarrow> AttestationVote" where
  "fork_entry v f =
    (case by_digest f (v_height v, v_digest v) of
       Some entry \<Rightarrow> entry
     | None \<Rightarrow> \<lparr>av_height = v_height v, av_digest = v_digest v, av_chain_key = v_chain_key v,
                av_votes = [], av_signers = {}\<rparr>)"

definition add_vote :: "Vote \<Rightarrow> Forks \<Rightarrow> Forks" where
  "add_vote v f =
    (let entry = fork_entry v f; height = v_height v; digest = v_digest v;
         entry' = entry\<lparr>av_signers := insert (v_attestor v) (av_signers entry), av_votes := av_votes entry @ [v]\<rparr>
     in f\<lparr>by_digest := (by_digest f)((height, digest) \<mapsto> entry'),
          by_height_size := insert (height, card (av_signers entry'), digest)
            (by_height_size f - {(height, card (av_signers entry), digest)}),
          deferred := deferred f - {(height, digest)}\<rparr>)"

definition forks_push :: "Vote \<Rightarrow> Forks \<Rightarrow> PoolError + Forks" where
  "forks_push v f =
    (if (v_height v, v_digest v) \<in> invalid f then Inl (KnownInvalid (v_attestor v) (v_height v) (v_digest v))
     else case seen f (v_height v, v_attestor v) of
       Some prev \<Rightarrow> if prev = v_digest v then Inr f else Inl (Equivocation (v_attestor v) (v_height v))
     | None \<Rightarrow> Inr (add_vote v (f\<lparr>seen := (seen f)((v_height v, v_attestor v) \<mapsto> v_digest v)\<rparr>)))"

text \<open>The loop of \<open>best\<close> over the index from the greatest entry down.  An entry that is not the
  answer is skipped with the rest of its height, unless it is deferred.\<close>

function best_loop :: "Forks \<Rightarrow> nat \<Rightarrow> (Height \<times> nat \<times> Digest) list \<Rightarrow> AttestationVote option" where
  "best_loop f target [] = None"
| "best_loop f target ((height, votes, digest) # iter) =
    (if (height, digest) \<in> deferred f then best_loop f target iter
     else
       let qualified = votes \<ge> target;
           tied_qualified = qualified \<and>
             (case find (\<lambda>(h, _, d). (h, d) \<notin> deferred f) (takeWhile (\<lambda>(h, _). h = height) iter) of
                None \<Rightarrow> False
              | Some (_, s, _) \<Rightarrow> s = votes)
       in if qualified \<and> \<not> tied_qualified then by_digest f (height, digest)
          else best_loop f target (dropWhile (\<lambda>(h, _). h = height) iter))"
  by pat_completeness auto
termination
  by (relation "measure (\<lambda>(_, _, xs). length xs)") (auto simp: le_imp_less_Suc length_dropWhile_le)

definition best :: "nat \<Rightarrow> Forks \<Rightarrow> AttestationVote option" where
  "best target f = best_loop f target (rev (sorted_list_of_set (by_height_size f)))"

definition drop_fork :: "Height \<Rightarrow> Digest \<Rightarrow> Forks \<Rightarrow> Forks" where
  "drop_fork height digest f =
    (let f' = f\<lparr>deferred := deferred f - {(height, digest)}\<rparr> in
     case by_digest f (height, digest) of
       None \<Rightarrow> f'
     | Some entry \<Rightarrow>
         f'\<lparr>by_digest := (by_digest f)((height, digest) := None),
            by_height_size := by_height_size f - {(height, card (av_signers entry), digest)}\<rparr>)"

definition invalidate_fork :: "Height \<Rightarrow> Digest \<Rightarrow> Forks \<Rightarrow> Forks" where
  "invalidate_fork height digest f =
    (let f' = drop_fork height digest f in f'\<lparr>invalid := insert (height, digest) (invalid f')\<rparr>)"

text \<open>The body of the loop of \<open>retain_signers\<close>, for one fork.\<close>

definition retain_fork :: "(AccountId \<Rightarrow> bool) \<Rightarrow> Height \<times> Digest \<Rightarrow> Forks \<Rightarrow> Forks" where
  "retain_fork keep key f =
    (case by_digest f key of
       None \<Rightarrow> f
     | Some entry \<Rightarrow>
         let size_before = card (av_signers entry);
             entry' = entry\<lparr>av_votes := filter (\<lambda>v. keep (v_attestor v)) (av_votes entry),
                            av_signers := Set.filter keep (av_signers entry)\<rparr>;
             sizes = by_height_size f - {(fst key, size_before, snd key)}
         in if card (av_signers entry') = size_before then f\<lparr>by_digest := (by_digest f)(key \<mapsto> entry')\<rparr>
            else if av_signers entry' = {}
            then f\<lparr>by_digest := (by_digest f)(key := None), by_height_size := sizes\<rparr>
            else f\<lparr>by_digest := (by_digest f)(key \<mapsto> entry'),
                   by_height_size := insert (fst key, card (av_signers entry'), snd key) sizes\<rparr>)"

definition retain_signers :: "(AccountId \<Rightarrow> bool) \<Rightarrow> Forks \<Rightarrow> Forks" where
  "retain_signers keep f =
    (let f' = fold (retain_fork keep) (sorted_list_of_set (dom (by_digest f))) (f\<lparr>deferred := {}\<rparr>)
     in f'\<lparr>seen := seen f' |` {(_, attestor). keep attestor}\<rparr>)"

definition split_off :: "Height \<Rightarrow> Forks \<Rightarrow> Forks" where
  "split_off finalized_height f =
    (let split = saturating_add finalized_height 1;
         to_keep = by_digest f |` {key. (split, 0) \<le> key};
         to_drop = by_digest f |` {key. \<not> (split, 0) \<le> key};
         signers_of = (\<lambda>key. case to_drop key of None \<Rightarrow> {} | Some v \<Rightarrow> av_signers v);
         sizes = by_height_size f - (\<lambda>(h, d). (h, card (signers_of (h, d)), d)) ` dom to_drop;
         rest = seen f |` (- (\<Union>(h, d) \<in> dom to_drop. Pair h ` signers_of (h, d)))
     in f\<lparr>by_digest := to_keep,
          by_height_size := Set.filter (\<lambda>(h, _). h \<ge> split) sizes,
          deferred := Set.filter (\<lambda>(h, _). h \<ge> split) (deferred f),
          seen := rest |` {key. (split, 0) \<le> key}\<rparr>)"

definition forks_clear :: "Forks \<Rightarrow> Forks" where
  "forks_clear f = f\<lparr>by_digest := Map.empty, by_height_size := {}, seen := Map.empty, invalid := {}, deferred := {}\<rparr>"

definition note_finalized :: "Height \<Rightarrow> Digest \<Rightarrow> Forks \<Rightarrow> Forks" where
  "note_finalized height digest f =
    (let f' = split_off height f in
     f'\<lparr>invalid := Set.filter (\<lambda>key. (saturating_add height 1, 0) \<le> key) (invalid f'),
        last_finalized_height := Some height, last_finalized_digest := Some digest\<rparr>)"

section \<open>Validated quorums, delays and validators\<close>

record 's SignedQuorum =
  sq_height :: Height
  sq_digest :: Digest
  sq_signed :: 's
  sq_votes :: "Vote list"

type_synonym 's ValidBatch = "(Height \<times> 's SignedQuorum) list"

definition valid_push :: "'s SignedQuorum \<Rightarrow> 's ValidBatch \<Rightarrow> 's ValidBatch" where
  "valid_push q m = btree_insert (sq_height q) q m"

definition valid_pop :: "'s ValidBatch \<Rightarrow> 's SignedQuorum option \<times> 's ValidBatch" where
  "valid_pop m = (case m of [] \<Rightarrow> (None, []) | (_, q) # rest \<Rightarrow> (Some q, rest))"

definition valid_drop_up_to :: "Height \<Rightarrow> 's ValidBatch \<Rightarrow> 's ValidBatch" where
  "valid_drop_up_to height m = filter (\<lambda>(h, _). saturating_add height 1 \<le> h) m"

type_synonym Delays = "Height \<rightharpoonup> nat"

definition delays_push :: "nat \<Rightarrow> Height \<Rightarrow> Delays \<Rightarrow> Delays" where
  "delays_push now height m = (case m height of None \<Rightarrow> m(height \<mapsto> now) | Some _ \<Rightarrow> m)"

definition delays_pop :: "nat \<Rightarrow> Height \<Rightarrow> Delays \<Rightarrow> nat option \<times> Delays" where
  "delays_pop now height m = (map_option (\<lambda>t. now - t) (m height), m(height := None))"

definition delays_drop_up_to :: "Height \<Rightarrow> Delays \<Rightarrow> Delays" where
  "delays_drop_up_to height m = m |` {h. saturating_add height 1 \<le> h}"

definition attestor_check :: "AccountId set \<Rightarrow> Vote \<Rightarrow> PoolError + unit" where
  "attestor_check active v = (if v_attestor v \<notin> active then Inl (Unauthorized (v_attestor v) (v_height v)) else Inr ())"

record ValidateQuorum =
  vq_target :: nat
  vq_interval :: Height
  vq_start_height :: Height
  vq_max_catchup :: Height

definition height_admissible :: "ValidateQuorum \<Rightarrow> Height \<Rightarrow> Height option \<Rightarrow> bool" where
  "height_admissible q height last_finalized =
    (let window = max (vq_max_catchup q) (vq_interval q);
         base = (case last_finalized of None \<Rightarrow> vq_start_height q | Some f \<Rightarrow> f);
         upper = saturating_add base window;
         above = (case last_finalized of Some f \<Rightarrow> height > f | None \<Rightarrow> height \<ge> vq_start_height q)
     in above \<and> height \<ge> vq_start_height q \<and> height \<le> upper)"

section \<open>The pool\<close>

record Quorum =
  q_height :: Height
  q_digest :: Digest
  q_chain_key :: ChainKey
  q_votes :: "Vote list"

record Permit =
  p_height :: Height
  p_digest :: Digest
  p_validation_generation :: u64
  p_vote_count :: nat

record 's Pool =
  forks :: Forks
  valid :: "'s ValidBatch"
  validate_attestor :: "AccountId set"
  validate_quorum :: ValidateQuorum
  delays :: Delays
  digest_local :: "Digest option"
  locally_validated_height :: "Height option"
  validation_generation :: u64

definition pool_new ::
  "AccountId list \<Rightarrow> nat \<Rightarrow> Height \<Rightarrow> Height \<Rightarrow> Height \<Rightarrow> Digest option \<Rightarrow> Height option \<Rightarrow> 's Pool" where
  "pool_new committee quorum interval start_height max_catchup digest height =
    \<lparr>forks = forks_new digest height, valid = [], validate_attestor = set committee,
     validate_quorum = \<lparr>vq_target = quorum, vq_interval = interval, vq_start_height = start_height,
       vq_max_catchup = max_catchup\<rparr>,
     delays = Map.empty, digest_local = None, locally_validated_height = None, validation_generation = 0\<rparr>"

text \<open>The greater of two optional heights, where \<open>None\<close> is the least.\<close>

definition option_max :: "Height option \<Rightarrow> Height option \<Rightarrow> Height option" where
  "option_max a b = (case a of None \<Rightarrow> b | Some x \<Rightarrow> (case b of None \<Rightarrow> a | Some y \<Rightarrow> Some (max x y)))"

definition lower_bound :: "('s, 'z) Pool_scheme \<Rightarrow> Height option" where
  "lower_bound p = option_max (last_finalized_height (forks p)) (locally_validated_height p)"

definition pool_push :: "nat \<Rightarrow> Vote \<Rightarrow> 's Pool \<Rightarrow> PoolError + 's Pool" where
  "pool_push now v p =
    and_then (attestor_check (validate_attestor p) v) (\<lambda>_.
    if \<not> height_admissible (validate_quorum p) (v_height v) (lower_bound p)
    then Inl (InvalidHeight (v_attestor v) (v_height v)
      (case lower_bound p of None \<Rightarrow> vq_start_height (validate_quorum p) | Some h \<Rightarrow> h))
    else and_then (forks_push v (forks p)) (\<lambda>f.
      Inr (p\<lparr>forks := f, delays := delays_push now (v_height v) (delays p)\<rparr>)))"

definition peek :: "nat \<Rightarrow> 's Pool \<Rightarrow> (Quorum \<times> Permit) option \<times> 's Pool" where
  "peek now p =
    (case best (vq_target (validate_quorum p)) (forks p) of
       None \<Rightarrow> (None, p)
     | Some fork \<Rightarrow>
         (Some (\<lparr>q_height = av_height fork, q_digest = av_digest fork, q_chain_key = av_chain_key fork,
                 q_votes = av_votes fork\<rparr>,
                \<lparr>p_height = av_height fork, p_digest = av_digest fork,
                 p_validation_generation = validation_generation p, p_vote_count = length (av_votes fork)\<rparr>),
          p\<lparr>delays := snd (delays_pop now (av_height fork) (delays p))\<rparr>))"

definition pool_mark_valid :: "Permit \<Rightarrow> 's Pool \<Rightarrow> 's Pool" where
  "pool_mark_valid permit p =
    p\<lparr>forks := split_off (p_height permit) (forks p),
      digest_local := Some (p_digest permit),
      locally_validated_height :=
        Some (case locally_validated_height p of None \<Rightarrow> p_height permit | Some h \<Rightarrow> max h (p_height permit))\<rparr>"

definition pool_mark_invalid :: "Permit \<Rightarrow> 's Pool \<Rightarrow> 's Pool" where
  "pool_mark_invalid permit p = p\<lparr>forks := invalidate_fork (p_height permit) (p_digest permit) (forks p)\<rparr>"

definition pool_mark_skipped :: "Permit \<Rightarrow> 's Pool \<Rightarrow> 's Pool" where
  "pool_mark_skipped permit p = p\<lparr>forks := drop_fork (p_height permit) (p_digest permit) (forks p)\<rparr>"


section \<open>Senders and the receiver\<close>

datatype 's State = Open "'s Pool" | Closed

record 's Shared =
  pool :: "'s State"
  senders :: nat
  notify :: bool

definition attestation_pool ::
  "AccountId list \<Rightarrow> nat \<Rightarrow> Height \<Rightarrow> Height \<Rightarrow> Height \<Rightarrow> Digest option \<Rightarrow> Height option \<Rightarrow> 's Shared" where
  "attestation_pool committee quorum interval start_height max_catchup start_digest start_height_finalized =
    \<lparr>pool = Open (pool_new committee quorum interval start_height max_catchup start_digest start_height_finalized),
     senders = 1, notify = False\<rparr>"

text \<open>An update of the open pool under the lock, and whether the receiver is notified of it.\<close>

definition with_pool :: "('s Pool \<Rightarrow> 's Pool) \<Rightarrow> bool \<Rightarrow> 's Shared \<Rightarrow> 's Shared" where
  "with_pool g wake sh =
    (case pool sh of
       Open p \<Rightarrow> sh\<lparr>pool := Open (g p), notify := notify sh \<or> wake\<rparr>
     | Closed \<Rightarrow> sh)"

definition send :: "nat \<Rightarrow> Vote \<Rightarrow> 's Shared \<Rightarrow> (PoolError + unit) option \<times> 's Shared" where
  "send now v sh =
    (case pool sh of
       Closed \<Rightarrow> (None, sh)
     | Open p \<Rightarrow>
         (case pool_push now v p of
            Inl err \<Rightarrow> (Some (Inl err), sh)
          | Inr p' \<Rightarrow> (Some (Inr ()), sh\<lparr>pool := Open p', notify := True\<rparr>)))"

definition note_attestation_finalization :: "Height \<Rightarrow> Digest \<Rightarrow> 's Shared \<Rightarrow> 's Shared" where
  "note_attestation_finalization height digest =
    with_pool (\<lambda>p. p\<lparr>valid := valid_drop_up_to height (valid p), delays := delays_drop_up_to height (delays p),
      forks := note_finalized height digest (forks p)\<rparr>) True"

definition note_attestation_interval_change :: "Height \<Rightarrow> 's Shared \<Rightarrow> 's Shared" where
  "note_attestation_interval_change interval_new =
    with_pool (\<lambda>p. p\<lparr>validation_generation := validation_generation p + 1, forks := forks_clear (forks p), valid := [],
      delays := Map.empty, validate_quorum := (validate_quorum p)\<lparr>vq_interval := interval_new\<rparr>,
      digest_local := None, locally_validated_height := None\<rparr>) False"

definition note_attestors_elected :: "AccountId list \<Rightarrow> 's Shared \<Rightarrow> 's Shared" where
  "note_attestors_elected committee =
    with_pool (\<lambda>p. p\<lparr>validation_generation := validation_generation p + 1, validate_attestor := set committee,
      forks := retain_signers (\<lambda>a. a \<in> set committee) (forks p)\<rparr>) True"

definition note_max_catchup_change :: "Height \<Rightarrow> 's Shared \<Rightarrow> 's Shared" where
  "note_max_catchup_change max_catchup =
    with_pool (\<lambda>p. p\<lparr>validate_quorum := (validate_quorum p)\<lparr>vq_max_catchup := max_catchup\<rparr>\<rparr>) True"

definition note_quorum_change :: "u32 \<Rightarrow> 's Shared \<Rightarrow> 's Shared" where
  "note_quorum_change threshold sh =
    (if threshold = 0 then sh
     else with_pool (\<lambda>p. p\<lparr>validate_quorum := (validate_quorum p)\<lparr>vq_target := unat threshold\<rparr>,
       validation_generation := validation_generation p + 1, forks := (forks p)\<lparr>deferred := {}\<rparr>\<rparr>) True sh)"

definition note_majority_not_reached :: "Height \<Rightarrow> 's Shared \<Rightarrow> 's Shared" where
  "note_majority_not_reached height sh =
    (case pool sh of
       Open p \<Rightarrow>
         if locally_validated_height p = Some height
         then sh\<lparr>pool := Open (p\<lparr>locally_validated_height := None, digest_local := None\<rparr>), notify := True\<rparr>
         else sh
     | Closed \<Rightarrow> sh)"

definition note_attestation_chain_reversion :: "Height \<Rightarrow> Digest \<Rightarrow> 's Shared \<Rightarrow> 's Shared" where
  "note_attestation_chain_reversion height digest =
    with_pool (\<lambda>p. p\<lparr>validation_generation := validation_generation p + 1,
      forks := (forks_clear (forks p))\<lparr>last_finalized_height := Some height, last_finalized_digest := Some digest\<rparr>,
      valid := [], delays := Map.empty, digest_local := None, locally_validated_height := None\<rparr>) False"

definition sender_clone :: "'s Shared \<Rightarrow> 's Shared" where
  "sender_clone sh = sh\<lparr>senders := senders sh + 1\<rparr>"

definition sender_drop :: "'s Shared \<Rightarrow> 's Shared" where
  "sender_drop sh =
    (let prev = senders sh; sh' = sh\<lparr>senders := prev - 1\<rparr> in
     if prev = 1 then sh'\<lparr>pool := Closed, notify := True\<rparr> else sh')"

definition mark_valid :: "Permit \<Rightarrow> 's Shared \<Rightarrow> 's Shared" where
  "mark_valid permit = with_pool (pool_mark_valid permit) False"

definition mark_invalid :: "Permit \<Rightarrow> 's Shared \<Rightarrow> 's Shared" where
  "mark_invalid permit = with_pool (pool_mark_invalid permit) False"

definition mark_skipped :: "Permit \<Rightarrow> 's Shared \<Rightarrow> 's Shared" where
  "mark_skipped permit = with_pool (pool_mark_skipped permit) False"

definition defer_fork :: "Permit \<Rightarrow> 's Shared \<Rightarrow> 's Shared" where
  "defer_fork permit =
    with_pool (\<lambda>p.
      if validation_generation p = p_validation_generation permit \<and>
        (case by_digest (forks p) (p_height permit, p_digest permit) of
           None \<Rightarrow> False
         | Some fork \<Rightarrow> length (av_votes fork) = p_vote_count permit)
      then p\<lparr>forks := (forks p)\<lparr>deferred := insert (p_height permit, p_digest permit) (deferred (forks p))\<rparr>\<rparr>
      else p) False"

definition mark_for_later :: "Permit \<Rightarrow> 's SignedQuorum \<Rightarrow> 's Shared \<Rightarrow> 's Shared" where
  "mark_for_later permit quorum =
    with_pool (\<lambda>p. pool_mark_valid permit (p\<lparr>valid := valid_push quorum (valid p)\<rparr>)) False"

definition take_next_validated :: "'s Shared \<Rightarrow> 's SignedQuorum option \<times> 's Shared" where
  "take_next_validated sh =
    (case pool sh of
       Open p \<Rightarrow> (fst (valid_pop (valid p)), sh\<lparr>pool := Open (p\<lparr>valid := snd (valid_pop (valid p))\<rparr>)\<rparr>)
     | Closed \<Rightarrow> (None, sh))"

datatype Peek = PeekOpen "(Quorum \<times> Permit) option" | PeekClosed

text \<open>One pass of the loop of \<open>recv\<close>: it subscribes, which takes a pending notification, and
  looks at the pool.  The loop returns unless the pass gives \<open>PeekOpen None\<close>, when it sleeps until
  the next notification.\<close>

definition recv_pass :: "nat \<Rightarrow> 's Shared \<Rightarrow> Peek \<times> 's Shared" where
  "recv_pass now sh =
    (let sh' = sh\<lparr>notify := False\<rparr> in
     case pool sh of
       Open p \<Rightarrow> (PeekOpen (fst (peek now p)), sh'\<lparr>pool := Open (snd (peek now p))\<rparr>)
     | Closed \<Rightarrow> (PeekClosed, sh'))"

end
