(* ===== verification/PoolInv.thy ===== *)
theory PoolInv
  imports Pool
begin

text \<open>The properties of the vote pool: the forks, their index and the record of who voted agree in
  every reachable state; the operations on the forks implement a plain table of votes; the fork
  offered is the dominant one of the greatest height that has one; no decided height is offered
  again; and no operation makes a quorum available without waking the receiver.\<close>

section \<open>Well-formed forks\<close>

definition sizes_of :: "(Height \<times> Digest \<rightharpoonup> AttestationVote) \<Rightarrow> (Height \<times> nat \<times> Digest) set" where
  "sizes_of m = {(h, n, d). \<exists>e. m (h, d) = Some e \<and> n = card (av_signers e)}"

definition fork_ok :: "(Height \<times> AccountId \<rightharpoonup> Digest) \<Rightarrow> Height \<Rightarrow> Digest \<Rightarrow> AttestationVote \<Rightarrow> bool" where
  "fork_ok sn h d e \<longleftrightarrow> av_height e = h \<and> av_digest e = d \<and> av_votes e \<noteq> [] \<and>
    distinct (map v_attestor (av_votes e)) \<and> av_signers e = v_attestor ` set (av_votes e) \<and>
    (\<forall>v\<in>set (av_votes e). v_height v = h \<and> v_digest v = d \<and> sn (h, v_attestor v) = Some d)"

definition forks_ok :: "Forks \<Rightarrow> bool" where
  "forks_ok f \<longleftrightarrow> finite (dom (by_digest f)) \<and> (\<forall>h d e. by_digest f (h, d) = Some e \<longrightarrow> fork_ok (seen f) h d e) \<and>
    by_height_size f = sizes_of (by_digest f) \<and> deferred f \<subseteq> dom (by_digest f) \<and>
    invalid f \<inter> dom (by_digest f) = {}"

lemma in_sizes_of [simp]: "(h, n, d) \<in> sizes_of m \<longleftrightarrow> (\<exists>e. m (h, d) = Some e \<and> n = card (av_signers e))"
  by (simp add: sizes_of_def)

lemma sizes_of_empty [simp]: "sizes_of Map.empty = {}"
  by (simp add: sizes_of_def)

lemma forks_okD:
  assumes "forks_ok f" and "by_digest f (h, d) = Some e"
  shows "fork_ok (seen f) h d e" and "finite (av_signers e)" and "av_signers e \<noteq> {}"
  using assms by (auto simp: forks_ok_def fork_ok_def)

lemma fork_signer_seen:
  assumes "forks_ok f" and "by_digest f (h, d) = Some e" and "a \<in> av_signers e"
  shows "seen f (h, a) = Some d"
  using forks_okD(1) [OF assms(1,2)] assms(3) by (auto simp: fork_ok_def)

lemma sizes_of_remove:
  "m (h, d) = None \<or> (\<exists>e. m (h, d) = Some e \<and> n = card (av_signers e)) \<Longrightarrow>
   sizes_of (m((h, d) := None)) = sizes_of m - {(h, n, d)}"
  by (auto simp: sizes_of_def split: if_splits)

lemma sizes_of_update:
  "m (h, d) = None \<or> (\<exists>e. m (h, d) = Some e \<and> n = card (av_signers e)) \<Longrightarrow>
   sizes_of (m((h, d) \<mapsto> e')) = insert (h, card (av_signers e'), d) (sizes_of m - {(h, n, d)})"
  by (auto simp: sizes_of_def split: if_splits)

lemma forks_ok_parts:
  assumes "forks_ok f"
  shows "finite (dom (by_digest f))" and "by_height_size f = sizes_of (by_digest f)"
    and "deferred f \<subseteq> dom (by_digest f)" and "invalid f \<inter> dom (by_digest f) = {}"
  using assms by (simp_all add: forks_ok_def)

lemma forks_okI:
  assumes "finite (dom (by_digest f))" and "\<And>h d e. by_digest f (h, d) = Some e \<Longrightarrow> fork_ok (seen f) h d e"
    and "by_height_size f = sizes_of (by_digest f)" and "deferred f \<subseteq> dom (by_digest f)"
    and "invalid f \<inter> dom (by_digest f) = {}"
  shows "forks_ok f"
  using assms by (simp add: forks_ok_def)

lemma by_digest_new [simp]: "by_digest (forks_new digest height) = Map.empty"
  by (simp add: forks_new_def)

lemma forks_ok_new [simp]: "forks_ok (forks_new digest height)"
  by (simp add: forks_ok_def forks_new_def)

lemma forks_ok_clear [simp]: "forks_ok (forks_clear f)"
  by (simp add: forks_ok_def forks_clear_def)

lemma forks_ok_finalized [simp]:
  "forks_ok (f\<lparr>last_finalized_height := a\<rparr>) \<longleftrightarrow> forks_ok f"
  "forks_ok (f\<lparr>last_finalized_digest := b\<rparr>) \<longleftrightarrow> forks_ok f"
  by (simp_all add: forks_ok_def)

lemma fork_ok_snoc:
  assumes "forks_ok f" and "seen f (v_height v, v_attestor v) = None"
    and "f' = f\<lparr>seen := (seen f)((v_height v, v_attestor v) \<mapsto> v_digest v)\<rparr>" and "e = fork_entry v f'"
  shows "fork_ok (seen f') (v_height v) (v_digest v)
    (e\<lparr>av_signers := insert (v_attestor v) (av_signers e), av_votes := av_votes e @ [v]\<rparr>)"
proof (cases "by_digest f (v_height v, v_digest v)")
  case None
  then show ?thesis using assms(3,4) by (simp add: fork_entry_def fork_ok_def)
next
  case (Some e')
  then show ?thesis using assms forks_okD(1) [OF assms(1) Some] by (auto simp: fork_entry_def fork_ok_def)
qed

lemma forks_ok_add_vote:
  assumes "forks_ok f" and "seen f (v_height v, v_attestor v) = None" and "(v_height v, v_digest v) \<notin> invalid f"
    and "f' = f\<lparr>seen := (seen f)((v_height v, v_attestor v) \<mapsto> v_digest v)\<rparr>"
  shows "forks_ok (add_vote v f')"
proof (rule forks_okI)
  let ?k = "(v_height v, v_digest v)"
  have bd: "by_digest f' = by_digest f" "by_height_size f' = sizes_of (by_digest f)" "deferred f' = deferred f" "invalid f' = invalid f"
    using assms(1,4) by (simp_all add: forks_ok_def)
  have same: "seen (add_vote v f') = seen f'" by (simp add: add_vote_def Let_def)
  have old: "fork_ok (seen f') h d e" if "by_digest f (h, d) = Some e" for h d e
    using forks_okD(1) [OF assms(1) that] assms(2,4) by (auto simp: fork_ok_def)
  show "finite (dom (by_digest (add_vote v f')))" using assms(1) by (simp add: add_vote_def Let_def bd forks_ok_def)
  show "fork_ok (seen (add_vote v f')) h d e" if "by_digest (add_vote v f') (h, d) = Some e" for h d e
    using that old fork_ok_snoc [OF assms(1,2,4) refl] unfolding same
    by (auto simp: add_vote_def Let_def bd split: if_splits)
  have "by_digest f ?k = None \<or> (\<exists>e. by_digest f ?k = Some e \<and> card (av_signers (fork_entry v f')) = card (av_signers e))"
    by (auto simp: fork_entry_def bd split: option.splits)
  then show "by_height_size (add_vote v f') = sizes_of (by_digest (add_vote v f'))"
    using sizes_of_update [of "by_digest f" "v_height v" "v_digest v" "card (av_signers (fork_entry v f'))"]
    by (simp add: add_vote_def Let_def bd)
  show "deferred (add_vote v f') \<subseteq> dom (by_digest (add_vote v f'))"
    using forks_ok_parts(3) [OF assms(1)] by (auto simp: add_vote_def Let_def bd)
  show "invalid (add_vote v f') \<inter> dom (by_digest (add_vote v f')) = {}"
    using forks_ok_parts(4) [OF assms(1)] assms(3) by (auto simp: add_vote_def Let_def bd)
qed

lemma forks_ok_push:
  assumes "forks_ok f" and "forks_push v f = Inr f'"
  shows "forks_ok f'"
  using assms forks_ok_add_vote [of f v, OF _ _ _ refl] by (auto simp: forks_push_def split: if_splits option.splits)

lemma drop_fork_fields [simp]:
  "seen (drop_fork h d f) = seen f" "invalid (drop_fork h d f) = invalid f"
  "deferred (drop_fork h d f) = deferred f - {(h, d)}" "by_digest (drop_fork h d f) = (by_digest f)((h, d) := None)"
  "last_finalized_height (drop_fork h d f) = last_finalized_height f"
  by (auto simp: drop_fork_def Let_def split: option.splits)

lemma forks_ok_drop:
  assumes "forks_ok f"
  shows "forks_ok (drop_fork h d f)"
proof (rule forks_okI)
  show "fork_ok (seen (drop_fork h d f)) h' d' e" if "by_digest (drop_fork h d f) (h', d') = Some e" for h' d' e
    using that forks_okD(1) [OF assms] by (auto split: if_splits)
  show "by_height_size (drop_fork h d f) = sizes_of (by_digest (drop_fork h d f))"
    using forks_ok_parts(2) [OF assms] sizes_of_remove [of "by_digest f" h d]
    by (cases "by_digest f (h, d)") (simp_all add: drop_fork_def Let_def fun_upd_idem)
  show "finite (dom (by_digest (drop_fork h d f)))" using forks_ok_parts(1) [OF assms] by simp
  show "deferred (drop_fork h d f) \<subseteq> dom (by_digest (drop_fork h d f))" using forks_ok_parts(3) [OF assms] by auto
  show "invalid (drop_fork h d f) \<inter> dom (by_digest (drop_fork h d f)) = {}" using forks_ok_parts(4) [OF assms] by auto
qed

lemma forks_ok_invalid:
  "forks_ok f \<Longrightarrow> A \<inter> dom (by_digest f) = {} \<Longrightarrow> forks_ok (f\<lparr>invalid := A\<rparr>)"
  by (simp add: forks_ok_def)

lemma forks_ok_deferred:
  "forks_ok f \<Longrightarrow> A \<subseteq> dom (by_digest f) \<Longrightarrow> forks_ok (f\<lparr>deferred := A\<rparr>)"
  by (simp add: forks_ok_def)

lemma forks_ok_invalidate:
  assumes "forks_ok f"
  shows "forks_ok (invalidate_fork h d f)"
  using forks_ok_drop [OF assms, of h d] forks_ok_parts(4) [OF assms]
  by (auto simp: invalidate_fork_def Let_def split: if_splits intro!: forks_ok_invalid)


text \<open>What \<open>retain_signers\<close> leaves of a fork.\<close>

definition retained :: "(AccountId \<Rightarrow> bool) \<Rightarrow> AttestationVote option \<Rightarrow> AttestationVote option" where
  "retained keep e =
    (case e of
       None \<Rightarrow> None
     | Some e \<Rightarrow>
         if Set.filter keep (av_signers e) = {} then None
         else Some (e\<lparr>av_votes := filter (\<lambda>v. keep (v_attestor v)) (av_votes e),
                      av_signers := Set.filter keep (av_signers e)\<rparr>))"

definition sized :: "Forks \<Rightarrow> bool" where
  "sized f \<longleftrightarrow> by_height_size f = sizes_of (by_digest f) \<and>
    (\<forall>key e. by_digest f key = Some e \<longrightarrow> finite (av_signers e) \<and> av_signers e \<noteq> {})"

lemma filter_card_same:
  "finite A \<Longrightarrow> card (Set.filter P A) = card A \<Longrightarrow> Set.filter P A = A"
  by (rule card_subset_eq) auto

lemma retain_fork_fields [simp]:
  "seen (retain_fork keep key f) = seen f" "invalid (retain_fork keep key f) = invalid f"
  "deferred (retain_fork keep key f) = deferred f"
  "last_finalized_height (retain_fork keep key f) = last_finalized_height f"
  by (simp_all add: retain_fork_def Let_def split: option.split)

lemma retain_fork_spec:
  assumes "sized f"
  shows "by_digest (retain_fork keep key f) = (by_digest f)(key := retained keep (by_digest f key)) \<and>
    sized (retain_fork keep key f)"
proof (cases "by_digest f key")
  case None
  then show ?thesis using assms by (simp add: retain_fork_def retained_def fun_upd_idem)
next
  case (Some e)
  obtain h d where key: "key = (h, d)" by (cases key)
  let ?s = "Set.filter keep (av_signers e)"
  have fin: "finite (av_signers e)" "av_signers e \<noteq> {}" using assms Some unfolding sized_def by blast+
  have sz: "by_height_size f = sizes_of (by_digest f)" using assms by (simp add: sized_def)
  have same: "?s = av_signers e" if "card ?s = card (av_signers e)" using fin(1) that by (rule filter_card_same)
  have m: "by_digest (retain_fork keep key f) = (by_digest f)(key := retained keep (by_digest f key))"
    using Some same fin(2) by (auto simp: retain_fork_def retained_def Let_def)
  have e: "by_digest f (h, d) = None \<or> (\<exists>e'. by_digest f (h, d) = Some e' \<and> card (av_signers e) = card (av_signers e'))"
    using Some key by simp
  have "by_height_size (retain_fork keep key f) = sizes_of (by_digest (retain_fork keep key f))"
  proof (cases "card ?s = card (av_signers e)")
    case True
    have "sizes_of (by_digest (retain_fork keep key f)) = insert (h, card (av_signers e), d) (sizes_of (by_digest f) - {(h, card (av_signers e), d)})"
      unfolding m retained_def Some using same [OF True] fin(2) sizes_of_update [of "by_digest f" h d, OF e] key by simp
    moreover have "(h, card (av_signers e), d) \<in> sizes_of (by_digest f)" using Some key by auto
    moreover have "by_height_size (retain_fork keep key f) = by_height_size f"
      using True Some by (simp add: retain_fork_def Let_def)
    ultimately show ?thesis using sz by (simp add: insert_absorb)
  next
    case False
    then show ?thesis unfolding m using Some sz sizes_of_update [of "by_digest f" h d, OF e] sizes_of_remove [of "by_digest f" h d, OF e] key
      by (auto simp: retain_fork_def retained_def Let_def)
  qed
  moreover have "finite (av_signers e') \<and> av_signers e' \<noteq> {}"
    if "by_digest (retain_fork keep key f) k' = Some e'" for k' e'
  proof (cases "k' = key")
    case True
    then show ?thesis using that fin(1) unfolding m Some by (auto simp: retained_def split: if_splits)
  next
    case False
    then have "by_digest f k' = Some e'" using that unfolding m by simp
    then show ?thesis using assms unfolding sized_def by blast
  qed
  ultimately show ?thesis using m by (simp add: sized_def)
qed

lemma fold_retain_fork:
  assumes "sized f" and "distinct keys"
  shows "by_digest (fold (retain_fork keep) keys f) key =
      (if key \<in> set keys then retained keep (by_digest f key) else by_digest f key) \<and>
    sized (fold (retain_fork keep) keys f)"
  using assms
proof (induction keys arbitrary: f)
  case (Cons k keys)
  then show ?case using retain_fork_spec [of f keep k] by auto
qed simp

lemma fold_retain_fork_fields [simp]:
  "seen (fold (retain_fork keep) keys f) = seen f" "invalid (fold (retain_fork keep) keys f) = invalid f"
  "deferred (fold (retain_fork keep) keys f) = deferred f"
  "last_finalized_height (fold (retain_fork keep) keys f) = last_finalized_height f"
  by (induction keys arbitrary: f) simp_all

lemma forks_ok_sized: "forks_ok f \<Longrightarrow> sized f"
  unfolding sized_def using forks_okD(2,3) forks_ok_parts(2) by (metis prod.exhaust)

lemma retain_signers_spec:
  assumes "forks_ok f"
  shows "by_digest (retain_signers keep f) = (\<lambda>key. retained keep (by_digest f key))"
    and "by_height_size (retain_signers keep f) = sizes_of (by_digest (retain_signers keep f))"
    and "seen (retain_signers keep f) = seen f |` {(_, a). keep a}"
    and "invalid (retain_signers keep f) = invalid f" and "deferred (retain_signers keep f) = {}"
    and "last_finalized_height (retain_signers keep f) = last_finalized_height f"
proof -
  let ?f = "f\<lparr>deferred := {}\<rparr>" and ?keys = "sorted_list_of_set (dom (by_digest f))"
  have "sized ?f" using forks_ok_sized [OF assms] by (simp add: sized_def)
  note l = fold_retain_fork [OF this, of ?keys keep]
  have m: "by_digest (fold (retain_fork keep) ?keys ?f) = (\<lambda>key. retained keep (by_digest f key))"
  proof
    fix key show "by_digest (fold (retain_fork keep) ?keys ?f) key = retained keep (by_digest f key)"
      using l [of key] forks_ok_parts(1) [OF assms] by (auto simp: retained_def domIff)
  qed
  show "by_digest (retain_signers keep f) = (\<lambda>key. retained keep (by_digest f key))"
    by (simp add: retain_signers_def Let_def m)
  show "by_height_size (retain_signers keep f) = sizes_of (by_digest (retain_signers keep f))"
    using l by (simp add: retain_signers_def Let_def sized_def)
qed (simp_all add: retain_signers_def Let_def)

lemma forks_ok_retain:
  assumes "forks_ok f"
  shows "forks_ok (retain_signers keep f)"
proof (rule forks_okI)
  note r = retain_signers_spec [OF assms]
  have sub: "dom (by_digest (retain_signers keep f)) \<subseteq> dom (by_digest f)"
    unfolding r by (auto simp: retained_def split: option.splits if_splits)
  show "finite (dom (by_digest (retain_signers keep f)))" using sub forks_ok_parts(1) [OF assms] by (rule finite_subset)
  show "deferred (retain_signers keep f) \<subseteq> dom (by_digest (retain_signers keep f))" by (simp add: r)
  show "invalid (retain_signers keep f) \<inter> dom (by_digest (retain_signers keep f)) = {}"
    using sub forks_ok_parts(4) [OF assms] unfolding r(4) by blast
  show "by_height_size (retain_signers keep f) = sizes_of (by_digest (retain_signers keep f))" by (rule r(2))
  fix h d e
  assume "by_digest (retain_signers keep f) (h, d) = Some e"
  then obtain e' where e': "by_digest f (h, d) = Some e'" "Set.filter keep (av_signers e') \<noteq> {}"
      "e = e'\<lparr>av_votes := filter (\<lambda>v. keep (v_attestor v)) (av_votes e'), av_signers := Set.filter keep (av_signers e')\<rparr>"
    unfolding r by (auto simp: retained_def split: option.splits if_splits)
  have ok: "fork_ok (seen f) h d e'" using forks_okD(1) [OF assms e'(1)] .
  have ne: "filter (\<lambda>v. keep (v_attestor v)) (av_votes e') \<noteq> []"
    using e'(2) ok by (auto simp: fork_ok_def filter_empty_conv)
  have di: "distinct (map v_attestor (filter (\<lambda>v. keep (v_attestor v)) (av_votes e')))"
    using ok by (auto simp: fork_ok_def distinct_map_filter)
  show "fork_ok (seen (retain_signers keep f)) h d e"
    using ok ne di unfolding e'(3) r by (auto simp: fork_ok_def)
qed

section \<open>Splitting off the decided heights\<close>

lemma lex_split: "(split, 0) \<le> ((h, x) :: Height \<times> 'a::len word) \<longleftrightarrow> split \<le> h"
  by (auto simp: less_eq_prod_def)

lemma lex_split_set: "{key. (split, 0) \<le> key} = {(h, _ :: 'a::len word). (split :: Height) \<le> h}"
  by (auto simp: lex_split)

lemma split_off_spec:
  fixes height :: Height
  assumes "forks_ok f"
  defines "split \<equiv> saturating_add height 1"
  shows "by_digest (split_off height f) = by_digest f |` {(h, _). split \<le> h}"
    and "by_height_size (split_off height f) = sizes_of (by_digest (split_off height f))"
    and "seen (split_off height f) = seen f |` {(h, _). split \<le> h}"
    and "deferred (split_off height f) = Set.filter (\<lambda>(h, _). split \<le> h) (deferred f)"
    and "invalid (split_off height f) = invalid f"
    and "last_finalized_height (split_off height f) = last_finalized_height f"
proof -
  show m: "by_digest (split_off height f) = by_digest f |` {(h, _). split \<le> h}"
    by (simp add: split_off_def Let_def split_def lex_split_set)
  show "by_height_size (split_off height f) = sizes_of (by_digest (split_off height f))"
    unfolding m using forks_ok_parts(2) [OF assms(1)]
    by (auto simp: split_off_def Let_def split_def lex_split restrict_map_def sizes_of_def split: if_splits)
  show "seen (split_off height f) = seen f |` {(h, _). split \<le> h}"
    by (auto simp: split_off_def Let_def split_def lex_split restrict_map_def fun_eq_iff split: option.splits if_splits)
qed (simp_all add: split_off_def Let_def split_def)


lemma forks_ok_split_off:
  assumes "forks_ok f"
  shows "forks_ok (split_off height f)"
proof (rule forks_okI)
  note r = split_off_spec [OF assms, of height]
  show "finite (dom (by_digest (split_off height f)))" unfolding r using forks_ok_parts(1) [OF assms] by simp
  show "deferred (split_off height f) \<subseteq> dom (by_digest (split_off height f))"
    unfolding r using forks_ok_parts(3) [OF assms] by auto
  show "invalid (split_off height f) \<inter> dom (by_digest (split_off height f)) = {}"
    unfolding r using forks_ok_parts(4) [OF assms] by auto
  show "by_height_size (split_off height f) = sizes_of (by_digest (split_off height f))" by (rule r(2))
  show "fork_ok (seen (split_off height f)) h d e" if "by_digest (split_off height f) (h, d) = Some e" for h d e
  proof -
    have "saturating_add height 1 \<le> h" "by_digest f (h, d) = Some e"
      using that unfolding r by (auto simp: restrict_map_def split: if_splits)
    then show ?thesis unfolding r using forks_okD(1) [OF assms, of h d e] by (simp add: fork_ok_def)
  qed
qed

lemma forks_ok_note_finalized:
  assumes "forks_ok f"
  shows "forks_ok (note_finalized height digest f)"
  using forks_ok_split_off [OF assms, of height] forks_ok_parts(4) [OF forks_ok_split_off [OF assms, of height]]
  by (auto simp: note_finalized_def Let_def intro!: forks_ok_invalid)

section \<open>The table of votes\<close>

text \<open>What the forks stand for: which digest each attestor has voted for at a height, which of these
  votes count, and the forks that are refused or set aside.\<close>

record VoteTable =
  cast_votes :: "Height \<times> AccountId \<rightharpoonup> Digest"
  counted :: "Height \<times> AccountId \<rightharpoonup> Digest"
  refused :: "(Height \<times> Digest) set"
  waiting :: "(Height \<times> Digest) set"

definition counted_votes :: "Forks \<Rightarrow> Height \<times> AccountId \<rightharpoonup> Digest" where
  "counted_votes f = (\<lambda>(h, a). case seen f (h, a) of
       None \<Rightarrow> None
     | Some d \<Rightarrow> (case by_digest f (h, d) of None \<Rightarrow> None | Some e \<Rightarrow> if a \<in> av_signers e then Some d else None))"

definition table :: "Forks \<Rightarrow> VoteTable" where
  "table f = \<lparr>cast_votes = seen f, counted = counted_votes f, refused = invalid f, waiting = deferred f\<rparr>"

definition table_push :: "Vote \<Rightarrow> VoteTable \<Rightarrow> PoolError + VoteTable" where
  "table_push v t =
    (let h = v_height v; d = v_digest v; a = v_attestor v in
     if (h, d) \<in> refused t then Inl (KnownInvalid a h d)
     else case cast_votes t (h, a) of
       Some d' \<Rightarrow> if d' = d then Inr t else Inl (Equivocation a h)
     | None \<Rightarrow> Inr (t\<lparr>cast_votes := (cast_votes t)((h, a) \<mapsto> d), counted := (counted t)((h, a) \<mapsto> d),
                 waiting := waiting t - {(h, d)}\<rparr>))"

definition table_drop :: "Height \<Rightarrow> Digest \<Rightarrow> VoteTable \<Rightarrow> VoteTable" where
  "table_drop h d t =
    t\<lparr>counted := (\<lambda>(h', a). if h' = h \<and> counted t (h', a) = Some d then None else counted t (h', a)),
      waiting := waiting t - {(h, d)}\<rparr>"

definition table_restrict :: "(Height \<times> AccountId) set \<Rightarrow> VoteTable \<Rightarrow> VoteTable" where
  "table_restrict A t = t\<lparr>cast_votes := cast_votes t |` A, counted := counted t |` A\<rparr>"

lemma counted_votes_cong:
  assumes "seen f' = seen f" and "by_digest f' = by_digest f"
  shows "counted_votes f' = counted_votes f"
  unfolding counted_votes_def assms ..

lemma table_upd:
  "table (f\<lparr>invalid := A\<rparr>) = (table f)\<lparr>refused := A\<rparr>" "table (f\<lparr>deferred := A\<rparr>) = (table f)\<lparr>waiting := A\<rparr>"
  "table (f\<lparr>last_finalized_height := a\<rparr>) = table f" "table (f\<lparr>last_finalized_digest := b\<rparr>) = table f"
  by (simp_all add: table_def) (rule counted_votes_cong; simp)+

lemma counted_votes_Some:
  assumes "forks_ok f"
  shows "counted_votes f (h, a) = Some d \<longleftrightarrow> (\<exists>e. by_digest f (h, d) = Some e \<and> a \<in> av_signers e)"
proof
  show "counted_votes f (h, a) = Some d \<Longrightarrow> \<exists>e. by_digest f (h, d) = Some e \<and> a \<in> av_signers e"
    by (auto simp: counted_votes_def split: option.splits if_splits)
  show "\<exists>e. by_digest f (h, d) = Some e \<and> a \<in> av_signers e \<Longrightarrow> counted_votes f (h, a) = Some d"
    using fork_signer_seen [OF assms] by (auto simp: counted_votes_def)
qed

lemma add_vote_fields:
  "seen (add_vote v f) = seen f" "invalid (add_vote v f) = invalid f"
  "deferred (add_vote v f) = deferred f - {(v_height v, v_digest v)}"
  "last_finalized_height (add_vote v f) = last_finalized_height f"
  "by_digest (add_vote v f) = (by_digest f)((v_height v, v_digest v) \<mapsto>
     (fork_entry v f)\<lparr>av_signers := insert (v_attestor v) (av_signers (fork_entry v f)),
       av_votes := av_votes (fork_entry v f) @ [v]\<rparr>)"
  by (simp_all add: add_vote_def Let_def)

lemma option_eqI: "(\<And>x. a = Some x \<longleftrightarrow> b = Some x) \<Longrightarrow> a = b"
  by (cases b) auto

lemma table_push_refines:
  assumes "forks_ok f"
  shows "map_sum id table (forks_push v f) = table_push v (table f)"
proof (cases "(v_height v, v_digest v) \<in> invalid f \<or> seen f (v_height v, v_attestor v) \<noteq> None")
  case True
  then show ?thesis by (auto simp: forks_push_def table_push_def table_def Let_def split: option.splits)
next
  case False
  define f1 where "f1 = f\<lparr>seen := (seen f)((v_height v, v_attestor v) \<mapsto> v_digest v)\<rparr>"
  have ok: "forks_ok (add_vote v f1)" using forks_ok_add_vote [OF assms _ _ f1_def] False by simp
  have no: "counted_votes f (v_height v, v_attestor v) = None" using False by (simp add: counted_votes_def)
  have en: "a \<in> av_signers (fork_entry v f1) \<longleftrightarrow> counted_votes f (v_height v, a) = Some (v_digest v)" for a
    unfolding counted_votes_Some [OF assms] by (simp add: fork_entry_def f1_def split: option.split)
  have c: "counted_votes (add_vote v f1) (h, a) = ((counted_votes f)((v_height v, v_attestor v) \<mapsto> v_digest v)) (h, a)" for h a
  proof (rule option_eqI)
    fix d
    show "counted_votes (add_vote v f1) (h, a) = Some d \<longleftrightarrow>
        ((counted_votes f)((v_height v, v_attestor v) \<mapsto> v_digest v)) (h, a) = Some d"
    proof (cases "(h, d) = (v_height v, v_digest v)")
      case True
      then show ?thesis unfolding counted_votes_Some [OF ok] using en [of a] by (simp add: add_vote_fields)
    next
      case False
      then have "counted_votes (add_vote v f1) (h, a) = Some d \<longleftrightarrow> counted_votes f (h, a) = Some d"
        unfolding counted_votes_Some [OF ok] counted_votes_Some [OF assms] by (auto simp: add_vote_fields f1_def)
      then show ?thesis using False no by auto
    qed
  qed
  have "counted_votes (add_vote v f1) = (counted_votes f)((v_height v, v_attestor v) \<mapsto> v_digest v)"
    using c by (intro ext) (metis prod.exhaust)
  then have "table (add_vote v f1) = \<lparr>cast_votes = (seen f)((v_height v, v_attestor v) \<mapsto> v_digest v),
      counted = (counted_votes f)((v_height v, v_attestor v) \<mapsto> v_digest v), refused = invalid f,
      waiting = deferred f - {(v_height v, v_digest v)}\<rparr>"
    by (simp add: table_def add_vote_fields) (simp add: f1_def)
  moreover have "forks_push v f = Inr (add_vote v f1)" using False by (simp add: forks_push_def f1_def)
  ultimately show ?thesis using False by (simp add: table_push_def Let_def) (simp add: table_def)
qed

lemma table_drop_refines:
  assumes "forks_ok f"
  shows "table (drop_fork h d f) = table_drop h d (table f)"
  by (auto simp: table_def table_drop_def counted_votes_def fun_eq_iff split: option.splits)

lemma table_invalidate_refines:
  assumes "forks_ok f"
  shows "table (invalidate_fork h d f) = (table_drop h d (table f))\<lparr>refused := insert (h, d) (refused (table f))\<rparr>"
proof -
  have "invalid f = refused (table f)" by (simp add: table_def)
  then show ?thesis using table_drop_refines [OF assms, of h d] by (simp add: invalidate_fork_def Let_def table_upd)
qed

lemma table_retain_refines:
  assumes "forks_ok f"
  shows "table (retain_signers keep f) = (table_restrict {(_, a). keep a} (table f))\<lparr>waiting := {}\<rparr>"
  by (auto simp: table_def table_restrict_def counted_votes_def retain_signers_spec [OF assms] retained_def restrict_map_def
      fun_eq_iff split: option.splits)

lemma table_split_refines:
  assumes "forks_ok f"
  shows "table (split_off height f) = (table_restrict {(h, _). saturating_add height 1 \<le> h} (table f))\<lparr>waiting :=
    Set.filter (\<lambda>(h, _). saturating_add height 1 \<le> h) (waiting (table f))\<rparr>"
  by (auto simp: table_def table_restrict_def counted_votes_def split_off_spec [OF assms] restrict_map_def
      fun_eq_iff split: option.splits)


lemma table_finalized_refines:
  assumes "forks_ok f"
  shows "table (note_finalized height digest f) =
    (table_restrict {(h, _). saturating_add height 1 \<le> h} (table f))\<lparr>
      waiting := Set.filter (\<lambda>(h, _). saturating_add height 1 \<le> h) (waiting (table f)),
      refused := Set.filter (\<lambda>(h, _). saturating_add height 1 \<le> h) (refused (table f))\<rparr>"
proof -
  have "Set.filter (\<lambda>key. (saturating_add height 1, 0) \<le> key) B =
      Set.filter (\<lambda>(h, _). saturating_add height 1 \<le> h) B" for B :: "(Height \<times> Digest) set"
    by (auto simp: lex_split)
  moreover have "invalid (split_off height f) = refused (table f)"
    using split_off_spec(5) [OF assms] by (simp add: table_def)
  ultimately show ?thesis using table_split_refines [OF assms, of height] by (simp add: note_finalized_def Let_def table_upd)
qed

section \<open>The dominant fork\<close>

definition tally :: "VoteTable \<Rightarrow> Height \<Rightarrow> Digest \<Rightarrow> nat" where
  "tally t h d = card {a. counted t (h, a) = Some d}"

text \<open>A digest dominates its height if it reaches the target and every other digest that is not set
  aside has fewer votes.\<close>

definition dominant :: "VoteTable \<Rightarrow> nat \<Rightarrow> Height \<Rightarrow> Digest \<Rightarrow> bool" where
  "dominant t target h d \<longleftrightarrow> (h, d) \<notin> waiting t \<and> 0 < tally t h d \<and> target \<le> tally t h d \<and>
    (\<forall>d'. d' \<noteq> d \<and> (h, d') \<notin> waiting t \<longrightarrow> tally t h d' < tally t h d)"

text \<open>The same for the entries of the index.\<close>

definition dominant_entry :: "Forks \<Rightarrow> nat \<Rightarrow> (Height \<times> nat \<times> Digest) set \<Rightarrow> Height \<Rightarrow> Digest \<Rightarrow> bool" where
  "dominant_entry f target xs h d \<longleftrightarrow> (\<exists>n. (h, n, d) \<in> xs \<and> (h, d) \<notin> deferred f \<and> target \<le> n \<and>
    (\<forall>n' d'. (h, n', d') \<in> xs \<and> (h, d') \<notin> deferred f \<and> (n', d') \<noteq> (n, d) \<longrightarrow> n' < n))"

definition best_entry :: "Forks \<Rightarrow> nat \<Rightarrow> (Height \<times> nat \<times> Digest) set \<Rightarrow> AttestationVote option \<Rightarrow> bool" where
  "best_entry f target xs r \<longleftrightarrow>
    (\<exists>h d. dominant_entry f target xs h d \<and> (\<forall>h' d'. dominant_entry f target xs h' d' \<longrightarrow> h' \<le> h) \<and> r = by_digest f (h, d)) \<or>
    (\<forall>h d. \<not> dominant_entry f target xs h d) \<and> r = None"

lemma dominant_entry_cong:
  assumes "\<And>n d. (h, d) \<notin> deferred f \<Longrightarrow> (h, n, d) \<in> xs \<longleftrightarrow> (h, n, d) \<in> ys"
  shows "dominant_entry f target xs h d \<longleftrightarrow> dominant_entry f target ys h d"
  unfolding dominant_entry_def using assms by blast

lemma best_entry_cong:
  assumes "\<And>h d. dominant_entry f target xs h d \<longleftrightarrow> dominant_entry f target ys h d"
  shows "best_entry f target xs r \<longleftrightarrow> best_entry f target ys r"
  unfolding best_entry_def assms ..

lemma less_entry:
  "((h', n', d') :: Height \<times> nat \<times> Digest) < (h, n, d) \<longleftrightarrow> h' < h \<or> h' = h \<and> (n' < n \<or> n' = n \<and> d' < d)"
  using order.order_iff_strict [of h' h] order.order_iff_strict [of n' n] by (auto simp: less_prod_def)

text \<open>The head of the index against the rest of its height.\<close>

lemma descending_height:
  fixes xs :: "(Height \<times> nat \<times> Digest) list"
  assumes "sorted_wrt (\<lambda>x y. y < x) ((h, n, d) # xs)"
  shows "set (dropWhile (\<lambda>(h', _). h' = h) xs) = {(h', n', d') \<in> set xs. h' < h}"
    and "set (takeWhile (\<lambda>(h', _). h' = h) xs) = {(h', n', d') \<in> set xs. h' = h}"
    and "(h', n', d') \<in> set xs \<Longrightarrow> h' \<le> h" and "(h, n', d') \<in> set xs \<Longrightarrow> n' \<le> n"
proof -
  have le: "h' < h \<or> h' = h \<and> (n' < n \<or> n' = n \<and> d' < d)" if "(h', n', d') \<in> set xs" for h' n' d'
  proof -
    have "(h', n', d') < (h, n, d)" using assms that by auto
    then show ?thesis by (simp only: less_entry)
  qed
  then show "(h', n', d') \<in> set xs \<Longrightarrow> h' \<le> h" "(h, n', d') \<in> set xs \<Longrightarrow> n' \<le> n" by fastforce+
  have "set (dropWhile (\<lambda>(h', _). h' = h) xs) = {(h', n', d') \<in> set xs. h' < h} \<and>
      set (takeWhile (\<lambda>(h', _). h' = h) xs) = {(h', n', d') \<in> set xs. h' = h}"
    using assms le
  proof (induction xs)
    case (Cons x xs)
    obtain h1 n1 d1 where x: "x = (h1, n1, d1)" by (metis prod.exhaust)
    show ?case
    proof (cases "h1 = h")
      case True
      with Cons x show ?thesis by auto
    next
      case False
      then have "h1 < h" using Cons.prems(2) [of h1 n1 d1] x by auto
      moreover have "h2 < h" if "(h2, n2, d2) \<in> set xs" for h2 n2 d2
        using Cons.prems(1) that x \<open>h1 < h\<close> less_entry [of h2 n2 d2 h1 n1 d1] by auto
      ultimately show ?thesis using False x by auto
    qed
  qed simp
  then show "set (dropWhile (\<lambda>(h', _). h' = h) xs) = {(h', n', d') \<in> set xs. h' < h}"
    and "set (takeWhile (\<lambda>(h', _). h' = h) xs) = {(h', n', d') \<in> set xs. h' = h}" by simp_all
qed


lemma tied_next:
  fixes xs :: "(Height \<times> nat \<times> Digest) list"
  assumes "sorted_wrt (\<lambda>x y. y < x) ((h, n, d) # xs)"
  shows "(case find (\<lambda>(h, _, d). (h, d) \<notin> D) (takeWhile (\<lambda>(h', _). h' = h) xs) of None \<Rightarrow> False | Some (_, s, _) \<Rightarrow> s = n) \<longleftrightarrow>
    (\<exists>d'. (h, n, d') \<in> set xs \<and> (h, d') \<notin> D)"
  using assms
proof (induction xs)
  case (Cons x xs)
  obtain h1 n1 d1 where x: "x = (h1, n1, d1)" by (metis prod.exhaust)
  have IH: "(case find (\<lambda>(h, _, d). (h, d) \<notin> D) (takeWhile (\<lambda>(h', _). h' = h) xs) of None \<Rightarrow> False | Some (_, s, _) \<Rightarrow> s = n) \<longleftrightarrow>
      (\<exists>d'. (h, n, d') \<in> set xs \<and> (h, d') \<notin> D)" using Cons by simp
  have "(h1, n1, d1) < (h, n, d)" "\<And>n' d'. (h, n', d') \<in> set xs \<Longrightarrow> (h, n', d') < (h1, n1, d1)"
    using Cons.prems x by auto
  then have le: "h1 < h \<or> h1 = h \<and> n1 \<le> n" "\<And>n' d'. (h, n', d') \<in> set xs \<Longrightarrow> h < h1 \<or> h = h1 \<and> n' \<le> n1"
    unfolding less_entry by (auto simp: order.order_iff_strict)
  consider "h1 \<noteq> h" | "h1 = h" "(h, d1) \<in> D" | "h1 = h" "(h, d1) \<notin> D" by blast
  then show ?case
  proof cases
    case 1
    then have "(h, n', d') \<notin> set xs" for n' d' using le(1) le(2) [of n' d'] by auto
    then show ?thesis using 1 x by simp
  next
    case 2
    then show ?thesis using IH x by simp blast
  next
    case 3
    have "n1 = n" if "(h, n, d') \<in> set xs" for d' using le(1) le(2) [OF that] by auto
    then have "(\<exists>d'. (h, n, d') \<in> set (x # xs) \<and> (h, d') \<notin> D) \<longleftrightarrow> n1 = n" using 3 x by auto
    then show ?thesis using 3 x by simp
  qed
qed simp

text \<open>A head that misses the target, or that ties, leaves its height without a dominant entry.\<close>

lemma no_dominant_head:
  assumes "sorted_wrt (\<lambda>x y. y < x) ((h, n, d) # xs)" and live: "(h, d) \<notin> deferred f"
    and "n < target \<or> (\<exists>d'. (h, n, d') \<in> set xs \<and> (h, d') \<notin> deferred f)"
  shows "\<not> dominant_entry f target (set ((h, n, d) # xs)) h d'"
proof
  assume "dominant_entry f target (set ((h, n, d) # xs)) h d'"
  then obtain m where m: "(h, m, d') \<in> set ((h, n, d) # xs)" "target \<le> m"
      and others: "\<And>n' d''. (h, n', d'') \<in> set ((h, n, d) # xs) \<Longrightarrow> (h, d'') \<notin> deferred f \<Longrightarrow> (n', d'') \<noteq> (m, d') \<Longrightarrow> n' < m"
    unfolding dominant_entry_def by blast
  have "m \<le> n" using m(1) descending_height(4) [OF assms(1)] by auto
  then have eq: "m = n" "d' = d" using others [of n d] live by auto
  then obtain d'' where "(h, n, d'') \<in> set xs" "(h, d'') \<notin> deferred f"
    using assms(3) m(2) by auto
  moreover have "(h, n, d) \<notin> set xs" using assms(1) by auto
  ultimately show False using others [of n d''] eq by auto
qed

lemma best_loop_spec:
  assumes "sorted_wrt (\<lambda>x y. y < x) xs"
  shows "best_entry f target (set xs) (best_loop f target xs)"
  using assms
proof (induction f target xs rule: best_loop.induct)
  case (1 f target)
  then show ?case by (simp add: best_entry_def dominant_entry_def)
next
  case (2 f target h n d iter)
  let ?tw = "takeWhile (\<lambda>(h', _). h' = h) iter" and ?dw = "dropWhile (\<lambda>(h', _). h' = h) iter"
  let ?live = "\<lambda>(h, _, d). (h, d) \<notin> deferred f"
  note s = descending_height [OF "2.prems"]
  show ?case
  proof (cases "(h, d) \<in> deferred f")
    case True
    have "dominant_entry f target (set ((h, n, d) # iter)) h' d' \<longleftrightarrow> dominant_entry f target (set iter) h' d'" for h' d'
      using True by (intro dominant_entry_cong) auto
    then show ?thesis using 2(1) [OF True] "2.prems" True best_entry_cong [of f target "set ((h, n, d) # iter)" "set iter"] by simp
  next
    case live: False
    define tied where "tied \<longleftrightarrow> (\<exists>d'. (h, n, d') \<in> set iter \<and> (h, d') \<notin> deferred f)"
    have tied: "(case find ?live ?tw of None \<Rightarrow> False | Some (_, s, _) \<Rightarrow> s = n) \<longleftrightarrow> tied"
      unfolding tied_def by (rule tied_next [OF "2.prems"])
    show ?thesis
    proof (cases "target \<le> n \<and> \<not> tied")
      case True
      have "n' < n" if "(h, n', d') \<in> set iter" "(h, d') \<notin> deferred f" for n' d'
        using s(4) [OF that(1)] that True unfolding tied_def by (cases "n' = n") auto
      then have "dominant_entry f target (set ((h, n, d) # iter)) h d"
        unfolding dominant_entry_def using live True by (intro exI [of _ n]) auto
      moreover have "h' \<le> h" if "dominant_entry f target (set ((h, n, d) # iter)) h' d'" for h' d'
        using that s(3) unfolding dominant_entry_def by auto
      moreover have "best_loop f target ((h, n, d) # iter) = by_digest f (h, d)"
        using live True tied by (simp add: Let_def)
      ultimately show ?thesis unfolding best_entry_def by blast
    next
      case False
      have none: "\<not> dominant_entry f target (set ((h, n, d) # iter)) h d'" for d'
        using no_dominant_head [OF "2.prems" live] False unfolding tied_def not_le [symmetric] by blast
      have "dominant_entry f target (set ((h, n, d) # iter)) h' d' \<longleftrightarrow> dominant_entry f target (set ?dw) h' d'" for h' d'
      proof (cases "h' = h")
        case True
        then show ?thesis using none s(1) by (auto simp: dominant_entry_def)
      next
        case False
        then show ?thesis using s(1,3) by (intro dominant_entry_cong) (auto simp: order_le_less)
      qed
      moreover have "sorted_wrt (\<lambda>x y. y < x) ?dw" using "2.prems" by (simp add: sorted_wrt_dropWhile)
      ultimately show ?thesis
        using 2(2) [OF live refl refl] False tied live best_entry_cong [of f target "set ((h, n, d) # iter)" "set ?dw"]
        by (auto simp: Let_def)
    qed
  qed
qed


lemma tally_table:
  assumes "forks_ok f"
  shows "tally (table f) h d = (case by_digest f (h, d) of None \<Rightarrow> 0 | Some e \<Rightarrow> card (av_signers e))"
proof -
  have "{a. counted (table f) (h, a) = Some d} = (case by_digest f (h, d) of None \<Rightarrow> {} | Some e \<Rightarrow> av_signers e)"
    using counted_votes_Some [OF assms, of h _ d] by (auto simp: table_def split: option.splits)
  then show ?thesis by (simp add: tally_def split: option.splits)
qed

lemma dominant_table:
  assumes "forks_ok f"
  shows "dominant (table f) target h d \<longleftrightarrow> dominant_entry f target (by_height_size f) h d"
proof -
  have pos: "0 < tally (table f) h d \<longleftrightarrow> by_digest f (h, d) \<noteq> None" for d
    using forks_okD(2,3) [OF assms] by (auto simp: tally_table [OF assms] card_gt_0_iff split: option.splits)
  have mem: "(h, n, d) \<in> by_height_size f \<longleftrightarrow> 0 < n \<and> n = tally (table f) h d" for n d
    using pos [of d] by (auto simp: forks_ok_parts(2) [OF assms] tally_table [OF assms] split: option.splits)
  have w: "waiting (table f) = deferred f" by (simp add: table_def)
  show ?thesis unfolding dominant_def dominant_entry_def mem w by auto (metis gr0I)
qed

lemma best_spec:
  assumes "forks_ok f"
  shows "best_entry f target (by_height_size f) (best target f)"
proof -
  have "sizes_of m = (\<lambda>(h, d). (h, card (av_signers (the (m (h, d)))), d)) ` dom m" for m
    by (force simp: sizes_of_def image_iff)
  then have fin: "finite (by_height_size f)"
    using forks_ok_parts(1,2) [OF assms] by simp
  have "sorted_wrt (\<lambda>x y. y < x) (rev (sorted_list_of_set (by_height_size f)))"
    by (simp add: sorted_wrt_rev)
  from best_loop_spec [OF this, of f target] fin show ?thesis by (simp add: best_def)
qed

section \<open>Reachable pools\<close>

text \<open>Beyond a decided height; the last height of all cannot be passed.\<close>

definition beyond :: "Height option \<Rightarrow> Height \<Rightarrow> bool" where
  "beyond b h \<longleftrightarrow> (case b of None \<Rightarrow> True | Some x \<Rightarrow> x < h \<or> unat h = 2 ^ 64 - 1)"

definition pool_ok :: "'s Pool \<Rightarrow> bool" where
  "pool_ok p \<longleftrightarrow> forks_ok (forks p) \<and>
    (\<forall>h d e. by_digest (forks p) (h, d) = Some e \<longrightarrow> av_signers e \<subseteq> validate_attestor p \<and>
      beyond (last_finalized_height (forks p)) h \<and> beyond (locally_validated_height p) h)"

definition shared_ok :: "'s Shared \<Rightarrow> bool" where
  "shared_ok sh \<longleftrightarrow> (case pool sh of Open p \<Rightarrow> pool_ok p | Closed \<Rightarrow> True)"

inductive sender_step :: "'s Shared \<Rightarrow> 's Shared \<Rightarrow> bool" where
  "sender_step sh (snd (send now v sh))"
| "sender_step sh (note_attestation_finalization h d sh)"
| "sender_step sh (note_attestation_interval_change i sh)"
| "sender_step sh (note_attestors_elected committee sh)"
| "sender_step sh (note_max_catchup_change m sh)"
| "sender_step sh (note_quorum_change threshold sh)"
| "sender_step sh (note_majority_not_reached h sh)"
| "sender_step sh (note_attestation_chain_reversion h d sh)"
| "sender_step sh (sender_clone sh)"
| "sender_step sh (sender_drop sh)"

inductive receiver_step :: "'s Shared \<Rightarrow> 's Shared \<Rightarrow> bool" where
  "receiver_step sh (mark_valid permit sh)"
| "receiver_step sh (mark_invalid permit sh)"
| "receiver_step sh (mark_skipped permit sh)"
| "receiver_step sh (defer_fork permit sh)"
| "receiver_step sh (mark_for_later permit q sh)"
| "receiver_step sh (snd (take_next_validated sh))"
| "receiver_step sh (snd (recv_pass now sh))"

definition pool_step :: "'s Shared \<Rightarrow> 's Shared \<Rightarrow> bool" where
  "pool_step sh sh' \<longleftrightarrow> sender_step sh sh' \<or> receiver_step sh sh'"

definition pool_init :: "'s Shared \<Rightarrow> bool" where
  "pool_init sh \<longleftrightarrow> (\<exists>committee quorum interval start catchup digest height.
    sh = attestation_pool committee quorum interval start catchup digest height)"

lemma shared_ok_with_pool:
  "shared_ok sh \<Longrightarrow> (\<And>p. pool_ok p \<Longrightarrow> pool_ok (g p)) \<Longrightarrow> shared_ok (with_pool g wake sh)"
  by (simp add: shared_ok_def with_pool_def split: State.splits)

definition shrinks :: "Forks \<Rightarrow> Forks \<Rightarrow> bool" where
  "shrinks f f' \<longleftrightarrow> (\<forall>h d e'. by_digest f' (h, d) = Some e' \<longrightarrow> (\<exists>e. by_digest f (h, d) = Some e \<and> av_signers e' \<subseteq> av_signers e))"

lemma shrinks_ops:
  assumes "forks_ok f"
  shows "shrinks f (drop_fork h d f)" "shrinks f (invalidate_fork h d f)" "shrinks f (retain_signers keep f)"
    "shrinks f (split_off h f)" "shrinks f (note_finalized h d f)"
  unfolding shrinks_def
  by (auto simp: invalidate_fork_def note_finalized_def Let_def retain_signers_spec [OF assms] split_off_spec [OF assms] retained_def
      restrict_map_def split: if_splits option.splits)

lemma split_off_beyond:
  assumes "forks_ok f" and "by_digest (split_off height f) (h, d) = Some e"
  shows "beyond (Some height) h"
proof -
  have "saturating_add height 1 \<le> h" using assms(2) unfolding split_off_spec [OF assms(1)] by (auto simp: restrict_map_def split: if_splits)
  then have "unat height + 1 \<le> unat h \<or> unat h = 2 ^ 64 - 1"
    using unat_less_2p [of h] by (auto simp: word_le_nat_alt unat_saturating_add min_def split: if_splits)
  then show ?thesis by (auto simp: beyond_def word_less_nat_alt)
qed


lemma pool_ok_shrink:
  assumes "pool_ok p" and "forks_ok f'" and "shrinks (forks p) f'" and "forks q = f'"
    and "validate_attestor q = validate_attestor p"
    and "\<And>h d e. by_digest f' (h, d) = Some e \<Longrightarrow> beyond (last_finalized_height (forks p)) h \<Longrightarrow>
      beyond (locally_validated_height p) h \<Longrightarrow> beyond (last_finalized_height f') h \<and> beyond (locally_validated_height q) h"
  shows "pool_ok q"
  unfolding pool_ok_def assms(4,5)
proof (intro conjI allI impI)
  show "forks_ok f'" by (rule assms(2))
  fix h d e'
  assume e': "by_digest f' (h, d) = Some e'"
  then obtain e where e: "by_digest (forks p) (h, d) = Some e" "av_signers e' \<subseteq> av_signers e"
    using assms(3) unfolding shrinks_def by blast
  then show "av_signers e' \<subseteq> validate_attestor p" "beyond (last_finalized_height f') h" "beyond (locally_validated_height q) h"
    using assms(1,6) e' unfolding pool_ok_def by blast+
qed

lemma pool_ok_forks: "pool_ok p \<Longrightarrow> forks_ok (forks p)"
  by (simp add: pool_ok_def)

lemma beyond_option_max: "beyond (option_max a b) h \<Longrightarrow> beyond a h \<and> beyond b h"
  by (auto simp: beyond_def option_max_def split: option.splits)

lemma pushed_fork:
  assumes "forks_push v f = Inr f'" and "by_digest f' (h, d) = Some e"
  shows "by_digest f (h, d) = Some e \<or>
    h = v_height v \<and> (av_signers e = {v_attestor v} \<or>
      (\<exists>e0. by_digest f (h, d) = Some e0 \<and> av_signers e = insert (v_attestor v) (av_signers e0)))"
    and "last_finalized_height f' = last_finalized_height f"
proof -
  let ?f = "f\<lparr>seen := (seen f)((v_height v, v_attestor v) \<mapsto> v_digest v)\<rparr>"
  have fp: "f' = f \<or> f' = add_vote v ?f"
    using assms(1) by (auto simp: forks_push_def split: if_splits option.splits)
  then show "last_finalized_height f' = last_finalized_height f" by (auto simp: add_vote_fields)
  show "by_digest f (h, d) = Some e \<or> h = v_height v \<and> (av_signers e = {v_attestor v} \<or>
      (\<exists>e0. by_digest f (h, d) = Some e0 \<and> av_signers e = insert (v_attestor v) (av_signers e0)))"
  proof (cases "(h, d) = (v_height v, v_digest v) \<and> f' = add_vote v ?f")
    case True
    then have "av_signers e = insert (v_attestor v) (av_signers (fork_entry v ?f))"
      using assms(2) by (auto simp: add_vote_fields)
    then show ?thesis using True by (cases "by_digest f (h, d)") (simp_all add: fork_entry_def)
  next
    case False
    then show ?thesis using fp assms(2) by (auto simp: add_vote_fields split: if_splits)
  qed
qed

lemma pool_ok_push:
  assumes "pool_ok p" and "pool_push now v p = Inr p'"
  shows "pool_ok p'"
proof -
  have act: "v_attestor v \<in> validate_attestor p" and adm: "height_admissible (validate_quorum p) (v_height v) (lower_bound p)"
    and f': "forks_push v (forks p) = Inr (forks p')" and q: "validate_attestor p' = validate_attestor p"
      "locally_validated_height p' = locally_validated_height p"
    using assms(2) by (auto simp: pool_push_def attestor_check_def res_simps split: if_splits)
  have "beyond (lower_bound p) (v_height v)"
    using adm by (auto simp: height_admissible_def beyond_def Let_def split: option.splits)
  then have b: "beyond (last_finalized_height (forks p)) (v_height v)" "beyond (locally_validated_height p) (v_height v)"
    using beyond_option_max [of "last_finalized_height (forks p)" "locally_validated_height p" "v_height v"]
    by (simp_all add: lower_bound_def)
  have old: "av_signers e \<subseteq> validate_attestor p \<and> beyond (last_finalized_height (forks p)) h \<and> beyond (locally_validated_height p) h"
    if "by_digest (forks p) (h, d) = Some e" for h d e
    using assms(1) that unfolding pool_ok_def by blast
  have "av_signers e \<subseteq> validate_attestor p' \<and> beyond (last_finalized_height (forks p')) h \<and> beyond (locally_validated_height p') h"
    if e: "by_digest (forks p') (h, d) = Some e" for h d e
    unfolding q pushed_fork(2) [OF f' e] using pushed_fork(1) [OF f' e]
  proof (elim disjE conjE exE)
    fix e0 assume "by_digest (forks p) (h, d) = Some e0" "av_signers e = insert (v_attestor v) (av_signers e0)"
    then show "av_signers e \<subseteq> validate_attestor p \<and> beyond (last_finalized_height (forks p)) h \<and> beyond (locally_validated_height p) h"
      using old act by simp
  qed (use old act b in simp_all)
  then show ?thesis using forks_ok_push [OF pool_ok_forks [OF assms(1)] f'] by (simp add: pool_ok_def)
qed

lemma pool_ok_mark_valid:
  assumes "pool_ok p"
  shows "pool_ok (pool_mark_valid permit p)"
proof (rule pool_ok_shrink [OF assms])
  note ok = pool_ok_forks [OF assms]
  show "forks_ok (split_off (p_height permit) (forks p))" by (rule forks_ok_split_off [OF ok])
  show "shrinks (forks p) (split_off (p_height permit) (forks p))" by (rule shrinks_ops(4) [OF ok])
  show "beyond (last_finalized_height (split_off (p_height permit) (forks p))) h \<and>
      beyond (locally_validated_height (pool_mark_valid permit p)) h"
    if "by_digest (split_off (p_height permit) (forks p)) (h, d) = Some e" "beyond (last_finalized_height (forks p)) h"
      "beyond (locally_validated_height p) h" for h d e
    using that split_off_beyond [OF ok that(1)] split_off_spec(6) [OF ok]
    by (auto simp: pool_mark_valid_def beyond_def max_def split: option.splits)
qed (simp_all add: pool_mark_valid_def)

lemma pool_ok_mark_invalid:
  assumes "pool_ok p"
  shows "pool_ok (pool_mark_invalid permit p)"
  by (rule pool_ok_shrink [OF assms forks_ok_invalidate [OF pool_ok_forks [OF assms]] shrinks_ops(2) [OF pool_ok_forks [OF assms]],
        where h1 = "p_height permit" and d1 = "p_digest permit"])
    (simp_all add: pool_mark_invalid_def invalidate_fork_def Let_def)

lemma pool_ok_mark_skipped:
  assumes "pool_ok p"
  shows "pool_ok (pool_mark_skipped permit p)"
  by (rule pool_ok_shrink [OF assms forks_ok_drop [OF pool_ok_forks [OF assms]] shrinks_ops(1) [OF pool_ok_forks [OF assms]],
        where h1 = "p_height permit" and d1 = "p_digest permit"])
    (simp_all add: pool_mark_skipped_def)

lemma pool_ok_defer:
  assumes "pool_ok p"
  shows "pool_ok (if validation_generation p = g \<and>
      (case by_digest (forks p) (h, d) of None \<Rightarrow> False | Some fork \<Rightarrow> length (av_votes fork) = n)
    then p\<lparr>forks := (forks p)\<lparr>deferred := insert (h, d) (deferred (forks p))\<rparr>\<rparr> else p)"
proof (cases "by_digest (forks p) (h, d)")
  case (Some e)
  then have "forks_ok ((forks p)\<lparr>deferred := insert (h, d) (deferred (forks p))\<rparr>)"
    using forks_ok_parts(3) [OF pool_ok_forks [OF assms]]
    by (intro forks_ok_deferred [OF pool_ok_forks [OF assms]]) (simp add: domIff)
  then show ?thesis using assms by (simp add: pool_ok_def)
qed (use assms in simp)

lemma pool_ok_valid [simp]: "pool_ok (p\<lparr>valid := m\<rparr>) \<longleftrightarrow> pool_ok p" "pool_ok (p\<lparr>delays := n\<rparr>) \<longleftrightarrow> pool_ok p"
  by (simp_all add: pool_ok_def)

lemma pool_ok_finalized:
  assumes "pool_ok p"
  shows "pool_ok (p\<lparr>valid := m, delays := n, forks := note_finalized h d (forks p)\<rparr>)"
proof (rule pool_ok_shrink [OF assms])
  note ok = pool_ok_forks [OF assms]
  show "forks_ok (note_finalized h d (forks p))" by (rule forks_ok_note_finalized [OF ok])
  show "shrinks (forks p) (note_finalized h d (forks p))" by (rule shrinks_ops(5) [OF ok])
  show "beyond (last_finalized_height (note_finalized h d (forks p))) h' \<and>
      beyond (locally_validated_height (p\<lparr>valid := m, delays := n, forks := note_finalized h d (forks p)\<rparr>)) h'"
    if "by_digest (note_finalized h d (forks p)) (h', d') = Some e" "beyond (locally_validated_height p) h'" for h' d' e
    using that split_off_beyond [OF ok, of h h' d' e] by (simp add: note_finalized_def Let_def)
qed simp_all

lemma pool_ok_elected:
  assumes "pool_ok p"
  shows "pool_ok (p\<lparr>validation_generation := g, validate_attestor := set committee,
    forks := retain_signers (\<lambda>a. a \<in> set committee) (forks p)\<rparr>)"
proof -
  note r = retain_signers_spec [OF pool_ok_forks [OF assms], of "\<lambda>a. a \<in> set committee"]
  have "av_signers e \<subseteq> set committee \<and> beyond (last_finalized_height (forks p)) h \<and> beyond (locally_validated_height p) h"
    if "by_digest (retain_signers (\<lambda>a. a \<in> set committee) (forks p)) (h, d) = Some e" for h d e
    using that assms unfolding r pool_ok_def by (auto simp: retained_def split: option.splits if_splits)
  then show ?thesis using forks_ok_retain [OF pool_ok_forks [OF assms]] r(6) by (simp add: pool_ok_def)
qed

lemma sender_step_ok:
  assumes "shared_ok sh" and "sender_step sh sh'"
  shows "shared_ok sh'"
  using assms(2)
proof cases
  case (1 now v)
  then show ?thesis using assms(1) pool_ok_push by (auto simp: send_def shared_ok_def split: State.splits sum.splits)
next
  case (2 h d)
  show ?thesis unfolding 2 note_attestation_finalization_def using assms(1)
    by (rule shared_ok_with_pool) (rule pool_ok_finalized)
next
  case (3 i)
  show ?thesis unfolding 3 note_attestation_interval_change_def using assms(1)
    by (rule shared_ok_with_pool) (simp add: pool_ok_def, simp add: forks_clear_def)
next
  case (4 committee)
  show ?thesis unfolding 4 note_attestors_elected_def using assms(1)
    by (rule shared_ok_with_pool) (rule pool_ok_elected)
next
  case (5 m)
  show ?thesis unfolding 5 note_max_catchup_change_def using assms(1)
    by (rule shared_ok_with_pool) (simp add: pool_ok_def)
next
  case (6 threshold)
  show ?thesis unfolding 6 note_quorum_change_def using assms(1)
    by (auto intro!: shared_ok_with_pool simp: pool_ok_def forks_ok_deferred)
next
  case (7 h)
  then show ?thesis using assms(1)
    by (auto simp: note_majority_not_reached_def shared_ok_def pool_ok_def beyond_def split: State.splits)
next
  case (8 h d)
  show ?thesis unfolding 8 note_attestation_chain_reversion_def using assms(1)
    by (rule shared_ok_with_pool) (simp add: pool_ok_def, simp add: forks_clear_def)
next
  case 9
  then show ?thesis using assms(1) by (simp add: shared_ok_def sender_clone_def)
next
  case 10
  then show ?thesis using assms(1) by (simp add: shared_ok_def sender_drop_def Let_def)
qed

lemma receiver_step_ok:
  assumes "shared_ok sh" and "receiver_step sh sh'"
  shows "shared_ok sh'"
  using assms(2)
proof cases
  case (1 permit)
  show ?thesis unfolding 1 mark_valid_def using assms(1) by (rule shared_ok_with_pool) (rule pool_ok_mark_valid)
next
  case (2 permit)
  show ?thesis unfolding 2 mark_invalid_def using assms(1)
    by (rule shared_ok_with_pool) (rule pool_ok_mark_invalid)
next
  case (3 permit)
  show ?thesis unfolding 3 mark_skipped_def using assms(1)
    by (rule shared_ok_with_pool) (rule pool_ok_mark_skipped)
next
  case (4 permit)
  show ?thesis unfolding 4 defer_fork_def using assms(1)
    by (rule shared_ok_with_pool) (rule pool_ok_defer)
next
  case (5 permit q)
  show ?thesis unfolding 5 mark_for_later_def using assms(1)
    by (rule shared_ok_with_pool) (simp add: pool_ok_mark_valid)
next
  case 6
  then show ?thesis using assms(1) by (simp add: shared_ok_def take_next_validated_def split: State.splits)
next
  case (7 now)
  then show ?thesis using assms(1) by (simp add: shared_ok_def recv_pass_def peek_def Let_def split: State.splits option.splits)
qed

interpretation pool_sys: invariant_system pool_init pool_step shared_ok
proof
  show "pool_init sh \<Longrightarrow> shared_ok sh" for sh :: "'a Shared"
    by (auto simp: pool_init_def attestation_pool_def pool_new_def shared_ok_def pool_ok_def)
  show "shared_ok sh \<Longrightarrow> pool_step sh sh' \<Longrightarrow> shared_ok sh'" for sh sh' :: "'a Shared"
    unfolding pool_step_def using sender_step_ok receiver_step_ok by blast
qed


lemma reachable_pool_ok:
  assumes "pool_init sh0" and "pool_step\<^sup>*\<^sup>* sh0 sh" and "pool sh = Open p"
  shows "pool_ok p"
  using pool_sys.reachable_inv [OF assms(1,2)] assms(3) by (simp add: shared_ok_def)

section \<open>Properties\<close>

text \<open>C35: In every reachable state of the pool the index lists exactly the forks with their sizes, and a
  fork holds one vote each of its signers, all of them active and recorded as having voted for the
  fork's digest at its height.\<close>

theorem pool_forks_well_formed:
  assumes "pool_init sh0" and "pool_step\<^sup>*\<^sup>* sh0 sh" and "pool sh = Open p"
  shows "(\<forall>h n d. (h, n, d) \<in> by_height_size (forks p) \<longleftrightarrow>
      (\<exists>e. by_digest (forks p) (h, d) = Some e \<and> n = card (av_signers e))) \<and>
    (\<forall>h d e. by_digest (forks p) (h, d) = Some e \<longrightarrow>
      av_votes e \<noteq> [] \<and> distinct (map v_attestor (av_votes e)) \<and> av_signers e = v_attestor ` set (av_votes e) \<and>
      av_signers e \<subseteq> validate_attestor p \<and>
      (\<forall>v\<in>set (av_votes e). v_height v = h \<and> v_digest v = d \<and> seen (forks p) (h, v_attestor v) = Some d))"
proof -
  have ok: "pool_ok p" by (rule reachable_pool_ok [OF assms])
  have "by_height_size (forks p) = sizes_of (by_digest (forks p))" by (rule forks_ok_parts(2) [OF pool_ok_forks [OF ok]])
  moreover have "av_signers e \<subseteq> validate_attestor p \<and> fork_ok (seen (forks p)) h d e"
    if "by_digest (forks p) (h, d) = Some e" for h d e
    using ok that forks_okD(1) [OF pool_ok_forks [OF ok] that] unfolding pool_ok_def by blast
  ultimately show ?thesis unfolding fork_ok_def by (simp only: in_sizes_of) blast
qed

text \<open>C21: The forks implement the table of votes.  In every reachable state each operation on the
  forks has the same outcome on the table, errors included: a vote is recorded once and counted,
  dropping a fork stops counting its votes but keeps them recorded, invalidating it refuses it for
  good, a new committee keeps the votes of its members, and a decided height removes the votes up
  to it.\<close>

theorem forks_implement_vote_table:
  assumes "pool_init sh0" and "pool_step\<^sup>*\<^sup>* sh0 sh" and "pool sh = Open p" and "f = forks p"
  shows "map_sum id table (forks_push v f) = table_push v (table f) \<and>
    table (drop_fork h d f) = table_drop h d (table f) \<and>
    table (invalidate_fork h d f) = (table_drop h d (table f))\<lparr>refused := insert (h, d) (refused (table f))\<rparr> \<and>
    table (retain_signers keep f) = (table_restrict {(_, a). keep a} (table f))\<lparr>waiting := {}\<rparr> \<and>
    table (split_off h f) = (table_restrict {(h', _). saturating_add h 1 \<le> h'} (table f))\<lparr>waiting :=
      Set.filter (\<lambda>(h', _). saturating_add h 1 \<le> h') (waiting (table f))\<rparr> \<and>
    table (note_finalized h d f) = (table_restrict {(h', _). saturating_add h 1 \<le> h'} (table f))\<lparr>
      waiting := Set.filter (\<lambda>(h', _). saturating_add h 1 \<le> h') (waiting (table f)),
      refused := Set.filter (\<lambda>(h', _). saturating_add h 1 \<le> h') (refused (table f))\<rparr>"
proof -
  have "forks_ok f" unfolding assms(4) by (rule pool_ok_forks [OF reachable_pool_ok [OF assms(1-3)]])
  then show ?thesis
    by (intro conjI table_push_refines table_drop_refines table_invalidate_refines table_retain_refines table_split_refines
        table_finalized_refines)
qed

lemma best_dominant:
  assumes "forks_ok f" and "best target f = Some e"
  shows "dominant (table f) target (av_height e) (av_digest e)" and "by_digest f (av_height e, av_digest e) = Some e"
    and "dominant (table f) target h d \<Longrightarrow> h \<le> av_height e"
proof -
  obtain h' d' where e: "dominant_entry f target (by_height_size f) h' d'" "by_digest f (h', d') = Some e"
      and top: "\<And>h d. dominant_entry f target (by_height_size f) h d \<Longrightarrow> h \<le> h'"
    using best_spec [OF assms(1), of target] assms(2) unfolding best_entry_def by (metis option.distinct(1))
  have eq: "av_height e = h'" "av_digest e = d'" using forks_okD(1) [OF assms(1) e(2)] by (simp_all add: fork_ok_def)
  show "dominant (table f) target (av_height e) (av_digest e)" "by_digest f (av_height e, av_digest e) = Some e"
    "dominant (table f) target h d \<Longrightarrow> h \<le> av_height e"
    using e top eq by (simp_all add: dominant_table [OF assms(1)])
qed

lemma best_None:
  assumes "forks_ok f" and "best target f = None"
  shows "\<not> dominant (table f) target h d"
proof -
  have "(\<exists>e. by_digest f (h, d) = Some e)" if "dominant_entry f target (by_height_size f) h d" for h d
    using that forks_ok_parts(2) [OF assms(1)] by (auto simp: dominant_entry_def)
  then show ?thesis using best_spec [OF assms(1), of target] assms(2) unfolding best_entry_def dominant_table [OF assms(1)]
    by (metis option.distinct(1))
qed

text \<open>C22: The receiver is offered a quorum exactly when some height has a dominant digest, and then
  the one of the greatest such height, with at least the target number of votes for it from
  different active attestors.\<close>

theorem peek_offers_dominant_quorum:
  assumes "pool_init sh0" and "pool_step\<^sup>*\<^sup>* sh0 sh" and "pool sh = Open p"
  shows "case fst (peek now p) of
      None \<Rightarrow> \<forall>h d. \<not> dominant (table (forks p)) (vq_target (validate_quorum p)) h d
    | Some (q, permit) \<Rightarrow>
        dominant (table (forks p)) (vq_target (validate_quorum p)) (q_height q) (q_digest q) \<and>
        (\<forall>h d. dominant (table (forks p)) (vq_target (validate_quorum p)) h d \<longrightarrow> h \<le> q_height q) \<and>
        vq_target (validate_quorum p) \<le> length (q_votes q) \<and> distinct (map v_attestor (q_votes q)) \<and>
        v_attestor ` set (q_votes q) \<subseteq> validate_attestor p \<and>
        (\<forall>v\<in>set (q_votes q). v_height v = q_height q \<and> v_digest v = q_digest q)"
proof -
  have ok: "pool_ok p" by (rule reachable_pool_ok [OF assms])
  note fk = pool_ok_forks [OF ok]
  show ?thesis
  proof (cases "best (vq_target (validate_quorum p)) (forks p)")
    case None
    then show ?thesis using best_None [OF fk None] by (simp add: peek_def)
  next
    case (Some e)
    note b = best_dominant [OF fk Some]
    have o: "fork_ok (seen (forks p)) (av_height e) (av_digest e) e" by (rule forks_okD(1) [OF fk b(2)])
    have s: "av_signers e \<subseteq> validate_attestor p" using ok b(2) unfolding pool_ok_def by blast
    have "card (av_signers e) = length (av_votes e)"
      using o distinct_card [of "map v_attestor (av_votes e)"] by (simp add: fork_ok_def)
    moreover have "vq_target (validate_quorum p) \<le> card (av_signers e)"
      using b(1,2) by (simp add: dominant_def tally_table [OF fk])
    ultimately show ?thesis using b(1,3) o s Some by (auto simp: peek_def fork_ok_def)
  qed
qed

text \<open>The operations that reopen no height, and those that may run after a height was validated
  locally and after it was finalised on chain.  A validated height is reopened by a refused
  submission of it, by a change of the interval and by a reversion of the attestation chain; a
  finalised one by a reversion and by the finalisation of a lower height.\<close>

inductive plain_step :: "'s Shared \<Rightarrow> 's Shared \<Rightarrow> bool" where
  "receiver_step sh sh' \<Longrightarrow> plain_step sh sh'"
| "plain_step sh (snd (send now v sh))"
| "plain_step sh (note_attestors_elected committee sh)"
| "plain_step sh (note_max_catchup_change m sh)"
| "plain_step sh (note_quorum_change threshold sh)"
| "plain_step sh (sender_clone sh)"
| "plain_step sh (sender_drop sh)"

inductive after_validation :: "'s Shared \<Rightarrow> 's Shared \<Rightarrow> bool" where
  "plain_step sh sh' \<Longrightarrow> after_validation sh sh'"
| "after_validation sh (note_attestation_finalization h d sh)"
| "(\<And>p. pool sh = Open p \<Longrightarrow> locally_validated_height p \<noteq> Some h) \<Longrightarrow> after_validation sh (note_majority_not_reached h sh)"

inductive after_finalization :: "Height \<Rightarrow> 's Shared \<Rightarrow> 's Shared \<Rightarrow> bool" for h0 where
  "plain_step sh sh' \<Longrightarrow> after_finalization h0 sh sh'"
| "h0 \<le> h \<Longrightarrow> after_finalization h0 sh (note_attestation_finalization h d sh)"
| "after_finalization h0 sh (note_attestation_interval_change i sh)"
| "after_finalization h0 sh (note_majority_not_reached h sh)"

lemma plain_step_pool: "plain_step sh sh' \<Longrightarrow> pool_step sh sh'"
  by (auto simp: pool_step_def elim!: plain_step.cases intro: sender_step.intros)

lemma after_validation_pool: "after_validation sh sh' \<Longrightarrow> pool_step sh sh'"
  by (erule after_validation.cases) (auto simp: pool_step_def intro: sender_step.intros dest: plain_step_pool)

lemma after_finalization_pool: "after_finalization h sh sh' \<Longrightarrow> pool_step sh sh'"
  by (erule after_finalization.cases) (auto simp: pool_step_def intro: sender_step.intros dest: plain_step_pool)

text \<open>A mark of the pool is at least a height.\<close>

definition marked :: "('s Pool \<Rightarrow> Height option) \<Rightarrow> Height \<Rightarrow> 's Shared \<Rightarrow> bool" where
  "marked m h sh \<longleftrightarrow> (case pool sh of Open p \<Rightarrow> \<exists>x. m p = Some x \<and> h \<le> x | Closed \<Rightarrow> True)"

abbreviation finalized_mark :: "'s Pool \<Rightarrow> Height option" where
  "finalized_mark p \<equiv> last_finalized_height (forks p)"

lemma marked_with_pool:
  "marked m h sh \<Longrightarrow> (\<And>p x. pool sh = Open p \<Longrightarrow> m p = Some x \<Longrightarrow> h \<le> x \<Longrightarrow> \<exists>y. m (g p) = Some y \<and> h \<le> y) \<Longrightarrow>
    marked m h (with_pool g wake sh)"
  by (auto simp: marked_def with_pool_def split: State.splits)

lemma pushed_marks:
  assumes "pool_push now v p = Inr p'"
  shows "locally_validated_height p' = locally_validated_height p" "finalized_mark p' = finalized_mark p"
  using assms by (auto simp: pool_push_def attestor_check_def forks_push_def add_vote_fields res_simps split: if_splits option.splits)

lemma marked_send:
  assumes "marked m h sh" and "m = locally_validated_height \<or> m = finalized_mark"
  shows "marked m h (snd (send now v sh))"
  using assms by (auto simp: marked_def send_def split: State.splits sum.splits dest: pushed_marks)

lemma marked_shared [simp]:
  "marked m h (sender_clone sh) \<longleftrightarrow> marked m h sh" "marked m h sh \<Longrightarrow> marked m h (sender_drop sh)"
  by (simp_all add: marked_def sender_clone_def sender_drop_def Let_def)

lemma marked_receiver:
  assumes "receiver_step sh sh'" and "shared_ok sh" and "marked m h sh" and "m = locally_validated_height \<or> m = finalized_mark"
  shows "marked m h sh'"
  using assms(1)
proof cases
  case (1 permit)
  then show ?thesis using assms(2-4) split_off_spec(6)
    by (auto simp: mark_valid_def pool_mark_valid_def shared_ok_def pool_ok_def max_def intro!: marked_with_pool)
next
  case (2 permit)
  then show ?thesis using assms(3,4)
    by (auto simp: mark_invalid_def pool_mark_invalid_def invalidate_fork_def Let_def intro!: marked_with_pool)
next
  case (3 permit)
  then show ?thesis using assms(3,4) by (auto simp: mark_skipped_def pool_mark_skipped_def intro!: marked_with_pool)
next
  case (4 permit)
  then show ?thesis using assms(3,4) by (auto simp: defer_fork_def intro!: marked_with_pool)
next
  case (5 permit q)
  then show ?thesis using assms(2-4) split_off_spec(6)
    by (auto simp: mark_for_later_def pool_mark_valid_def shared_ok_def pool_ok_def max_def intro!: marked_with_pool)
next
  case 6
  then show ?thesis using assms(3,4) by (auto simp: take_next_validated_def marked_def split: State.splits)
next
  case (7 now)
  then show ?thesis using assms(3,4)
    by (auto simp: recv_pass_def peek_def marked_def Let_def split: State.splits option.splits)
qed

lemma marked_plain:
  assumes "plain_step sh sh'" and "shared_ok sh" and "marked m h sh" and "m = locally_validated_height \<or> m = finalized_mark"
  shows "marked m h sh'"
  using assms(1)
proof cases
  case 1
  then show ?thesis using assms(2-4) by (rule marked_receiver)
next
  case (3 committee)
  then show ?thesis using assms(2-4) retain_signers_spec
    by (auto simp: note_attestors_elected_def shared_ok_def pool_ok_def intro!: marked_with_pool)
qed (use assms(3,4) in \<open>auto simp: note_max_catchup_change_def note_quorum_change_def intro!: marked_send marked_with_pool\<close>)

lemma marked_after_validation:
  assumes "after_validation sh sh'" and "shared_ok sh" and "marked locally_validated_height h sh"
  shows "marked locally_validated_height h sh'"
  using assms(1)
proof cases
  case 1
  then show ?thesis using assms(2,3) by (rule marked_plain) simp
next
  case (2 h' d)
  then show ?thesis using assms(3) by (auto simp: note_attestation_finalization_def intro!: marked_with_pool)
next
  case (3 h')
  then show ?thesis using assms(3) by (auto simp: note_majority_not_reached_def marked_def split: State.splits)
qed

lemma marked_after_finalization:
  assumes "after_finalization h sh sh'" and "shared_ok sh" and "marked finalized_mark h sh"
  shows "marked finalized_mark h sh'"
  using assms(1)
proof cases
  case 1
  then show ?thesis using assms(2,3) by (rule marked_plain) simp
next
  case (2 h' d)
  then show ?thesis using assms(3)
    by (auto simp: note_attestation_finalization_def note_finalized_def Let_def intro!: marked_with_pool)
next
  case (3 i)
  then show ?thesis using assms(3)
    by (auto simp: note_attestation_interval_change_def forks_clear_def intro!: marked_with_pool)
next
  case (4 h')
  then show ?thesis using assms(3) by (auto simp: note_majority_not_reached_def marked_def split: State.splits)
qed

lemma marks_set:
  "marked locally_validated_height (p_height permit) (mark_valid permit sh)"
  "marked locally_validated_height (p_height permit) (mark_for_later permit quorum sh)"
  "marked finalized_mark h (note_attestation_finalization h d sh)"
  by (auto simp: marked_def mark_valid_def mark_for_later_def pool_mark_valid_def note_attestation_finalization_def
      note_finalized_def with_pool_def Let_def max_def split: State.splits option.splits)

text \<open>Along a run whose steps keep a mark, the mark and the invariant of the pool hold.\<close>

lemma marked_run:
  assumes "R\<^sup>*\<^sup>* sh sh'" and "\<And>a b. R a b \<Longrightarrow> pool_step a b"
    and "\<And>a b. R a b \<Longrightarrow> shared_ok a \<Longrightarrow> marked m h a \<Longrightarrow> marked m h b"
    and "shared_ok sh" and "marked m h sh"
  shows "shared_ok sh' \<and> marked m h sh'"
  using assms(1)
proof (induction rule: rtranclp_induct)
  case base
  then show ?case using assms(4,5) by simp
next
  case (step a b)
  then show ?case using assms(2,3) pool_sys.step_inv by blast
qed

lemma offered_beyond:
  assumes "shared_ok sh" and "pool sh = Open p" and "fst (peek now p) = Some (q, permit)" and "unat (q_height q) < 2 ^ 64 - 1"
    and "marked m h sh" and "m = locally_validated_height \<or> m = finalized_mark"
  shows "h < q_height q"
proof -
  have ok: "pool_ok p" using assms(1,2) by (simp add: shared_ok_def)
  obtain e where e: "best (vq_target (validate_quorum p)) (forks p) = Some e" "q_height q = av_height e"
    using assms(3) by (auto simp: peek_def split: option.splits)
  have "beyond (last_finalized_height (forks p)) (q_height q) \<and> beyond (locally_validated_height p) (q_height q)"
    using ok best_dominant(2) [OF pool_ok_forks [OF ok] e(1)] unfolding e(2) pool_ok_def by blast
  then have "beyond (m p) (q_height q)" using assms(6) by auto
  then show ?thesis using assms(2,4,5) by (auto simp: beyond_def marked_def)
qed

text \<open>C36: A decided height is not offered again until it is reopened.  After a height was marked valid,
  or marked valid for later, no quorum at or below it is offered, whatever votes, elections,
  finalisations and decisions follow, as long as no submission at the validated height is refused,
  the interval does not change and the attestation chain is not reverted; and after a height was
  finalised on chain none at or below it is offered as long as the chain is not reverted and no
  lower height is finalised.  Only a quorum at the largest height of all is excepted, where the
  split saturates.\<close>

theorem decided_heights_not_offered:
  assumes "pool_init sh0" and "pool_step\<^sup>*\<^sup>* sh0 sh" and "pool sh' = Open p"
    and "fst (peek now p) = Some (q, permit')" and "unat (q_height q) < 2 ^ 64 - 1"
  shows "(after_validation\<^sup>*\<^sup>* (mark_valid permit sh) sh' \<longrightarrow> p_height permit < q_height q) \<and>
    (after_validation\<^sup>*\<^sup>* (mark_for_later permit quorum sh) sh' \<longrightarrow> p_height permit < q_height q) \<and>
    ((after_finalization h)\<^sup>*\<^sup>* (note_attestation_finalization h d sh) sh' \<longrightarrow> h < q_height q)"
proof (intro conjI impI)
  have ok: "shared_ok sh" by (rule pool_sys.reachable_inv [OF assms(1,2)])
  have step: "shared_ok (mark_valid permit sh)" "shared_ok (mark_for_later permit quorum sh)"
      "shared_ok (note_attestation_finalization h d sh)"
    using pool_sys.step_inv [OF ok] by (auto simp: pool_step_def intro: sender_step.intros receiver_step.intros)
  note offered = offered_beyond [OF _ assms(3-5)]
  show "p_height permit < q_height q" if v: "after_validation\<^sup>*\<^sup>* (mark_valid permit sh) sh'"
  proof -
    have "shared_ok sh' \<and> marked locally_validated_height (p_height permit) sh'"
      using v after_validation_pool marked_after_validation step(1) marks_set(1) by (rule marked_run)
    then show ?thesis using offered [of locally_validated_height] by simp
  qed
  show "p_height permit < q_height q" if l: "after_validation\<^sup>*\<^sup>* (mark_for_later permit quorum sh) sh'"
  proof -
    have "shared_ok sh' \<and> marked locally_validated_height (p_height permit) sh'"
      using l after_validation_pool marked_after_validation step(2) marks_set(2) by (rule marked_run)
    then show ?thesis using offered [of locally_validated_height] by simp
  qed
  show "h < q_height q" if f: "(after_finalization h)\<^sup>*\<^sup>* (note_attestation_finalization h d sh) sh'"
  proof -
    have "shared_ok sh' \<and> marked finalized_mark h sh'"
      using f after_finalization_pool marked_after_finalization step(3) marks_set(3) by (rule marked_run)
    then show ?thesis using offered [of finalized_mark] by simp
  qed
qed

lemma recv_pass_idle:
  "fst (recv_pass now sh) = PeekOpen None \<longleftrightarrow>
    (case pool sh of Open p \<Rightarrow> best (vq_target (validate_quorum p)) (forks p) = None | Closed \<Rightarrow> False)"
  by (simp add: recv_pass_def peek_def Let_def split: State.split option.split)

lemma best_clear [simp]: "best target (forks_clear f) = None" "best target ((forks_clear f)\<lparr>last_finalized_height := a, last_finalized_digest := b\<rparr>) = None"
  by (simp_all add: best_def forks_clear_def)

text \<open>C37: No wake-up is missed.  An operation of a sender after which the receiver would return,
  with a quorum or because the pool is closed, while it would have gone to sleep before, leaves a
  notification pending; and no operation of a sender takes a pending notification away.\<close>

theorem no_missed_wakeup:
  assumes "sender_step sh sh'"
  shows "(notify sh \<longrightarrow> notify sh') \<and>
    (fst (recv_pass now sh) = PeekOpen None \<and> fst (recv_pass now' sh') \<noteq> PeekOpen None \<longrightarrow> notify sh')"
  using assms unfolding recv_pass_idle
  by cases (auto simp: send_def note_attestation_finalization_def note_attestation_interval_change_def note_attestors_elected_def
      note_max_catchup_change_def note_quorum_change_def note_majority_not_reached_def note_attestation_chain_reversion_def
      sender_clone_def sender_drop_def with_pool_def Let_def split: State.splits sum.splits if_splits)


text \<open>A committee of one attestor that votes once.\<close>

definition example_vote :: Vote where
  "example_vote = \<lparr>v_chain_key = 7, v_height = 5, v_digest = 9, v_attestor = 1, signature_bls = 0\<rparr>"

definition example_shared :: "unit Shared" where
  "example_shared = attestation_pool [1] 1 1 0 10 None (Some 3)"

definition example_fork :: AttestationVote where
  "example_fork = \<lparr>av_height = 5, av_digest = 9, av_chain_key = 7, av_votes = [example_vote], av_signers = {1}\<rparr>"

definition example_pool :: "unit Pool" where
  "example_pool = \<lparr>forks = \<lparr>by_digest = [(5, 9) \<mapsto> example_fork], by_height_size = {(5, 1, 9)}, seen = [(5, 1) \<mapsto> 9],
       invalid = {}, deferred = {}, last_finalized_height = Some 3, last_finalized_digest = None\<rparr>,
     valid = [], validate_attestor = {1},
     validate_quorum = \<lparr>vq_target = 1, vq_interval = 1, vq_start_height = 0, vq_max_catchup = 10\<rparr>,
     delays = [5 \<mapsto> 0], digest_local = None, locally_validated_height = None, validation_generation = 0\<rparr>"

lemma example_send: "snd (send 0 example_vote example_shared) = \<lparr>pool = Open example_pool, senders = 1, notify = True\<rparr>"
proof -
  have a: "height_admissible \<lparr>vq_target = 1, vq_interval = 1, vq_start_height = 0, vq_max_catchup = 10\<rparr> 5 (Some 3)"
    by (simp add: height_admissible_def saturating_add_def max_def word_le_nat_alt word_less_nat_alt)
  show ?thesis using a
    by (simp add: send_def example_shared_def attestation_pool_def pool_new_def pool_push_def attestor_check_def example_vote_def
        lower_bound_def option_max_def forks_new_def forks_push_def add_vote_def fork_entry_def delays_push_def
        example_pool_def example_fork_def Let_def)
qed

lemma example_reached:
  "pool_init example_shared" "pool_step\<^sup>*\<^sup>* example_shared \<lparr>pool = Open example_pool, senders = 1, notify = True\<rparr>"
proof -
  show "pool_init example_shared" unfolding pool_init_def example_shared_def by blast
  have "pool_step example_shared (snd (send 0 example_vote example_shared))"
    unfolding pool_step_def by (blast intro: sender_step.intros)
  then show "pool_step\<^sup>*\<^sup>* example_shared \<lparr>pool = Open example_pool, senders = 1, notify = True\<rparr>"
    unfolding example_send by (rule r_into_rtranclp)
qed

lemma example_peek:
  "fst (peek 0 example_pool) = Some (\<lparr>q_height = 5, q_digest = 9, q_chain_key = 7, q_votes = [example_vote]\<rparr>,
     \<lparr>p_height = 5, p_digest = 9, p_validation_generation = 0, p_vote_count = 1\<rparr>)"
  by (simp add: peek_def best_def example_pool_def example_fork_def)

theorem pool_forks_well_formed_witness: "example_vote \<in> set (av_votes example_fork) \<and> v_height example_vote = 5"
proof -
  have "by_digest (forks example_pool) (5, 9) = Some example_fork" by (simp add: example_pool_def)
  with pool_forks_well_formed [OF example_reached, of example_pool] show ?thesis
    by (simp add: example_fork_def)
qed

theorem forks_implement_vote_table_witness:
  "table (drop_fork 5 9 (forks example_pool)) = table_drop 5 9 (table (forks example_pool))"
  using forks_implement_vote_table [OF example_reached, of example_pool "forks example_pool"] by simp

theorem peek_offers_dominant_quorum_witness: "dominant (table (forks example_pool)) 1 5 9"
proof -
  have "vq_target (validate_quorum example_pool) = 1" by (simp add: example_pool_def)
  then show ?thesis
    using peek_offers_dominant_quorum [OF example_reached, of example_pool 0] by (simp add: example_peek)
qed

text \<open>Height 4 is decided before the vote arrives.\<close>

definition example_permit :: Permit where
  "example_permit = \<lparr>p_height = 4, p_digest = 8, p_validation_generation = 0, p_vote_count = 1\<rparr>"

lemma example_admissible:
  "height_admissible \<lparr>vq_target = 1, vq_interval = 1, vq_start_height = 0, vq_max_catchup = 10\<rparr> 5 (Some 4)"
  by (simp add: height_admissible_def saturating_add_def max_def word_le_nat_alt word_less_nat_alt)

lemma split_off_new [simp]: "split_off h (forks_new d f) = forks_new d f"
  by (simp add: split_off_def forks_new_def Let_def)

lemmas example_send_defs = send_def example_shared_def attestation_pool_def pool_new_def pool_push_def attestor_check_def
  example_vote_def lower_bound_def option_max_def forks_push_def add_vote_def fork_entry_def delays_push_def
  example_pool_def example_fork_def with_pool_def example_permit_def max_def

lemma example_send_validated:
  "snd (send 0 example_vote (mark_valid example_permit example_shared)) =
    \<lparr>pool = Open (example_pool\<lparr>digest_local := Some 8, locally_validated_height := Some 4\<rparr>), senders = 1, notify = True\<rparr>"
  using example_admissible
  by (simp add: example_send_defs mark_valid_def pool_mark_valid_def) (simp add: forks_new_def add_vote_def fork_entry_def Let_def)

lemma example_send_finalized:
  "snd (send 0 example_vote (note_attestation_finalization 4 8 example_shared)) =
    \<lparr>pool = Open (example_pool\<lparr>forks := (forks example_pool)\<lparr>last_finalized_height := Some 4, last_finalized_digest := Some 8\<rparr>\<rparr>),
     senders = 1, notify = True\<rparr>"
  using example_admissible
  by (simp add: example_send_defs note_attestation_finalization_def note_finalized_def valid_drop_up_to_def delays_drop_up_to_def)
    (simp add: forks_new_def add_vote_def fork_entry_def Let_def)

theorem decided_heights_not_offered_witness:
  "(\<exists>sh p q permit. after_validation\<^sup>*\<^sup>* (mark_valid example_permit example_shared) sh \<and> pool sh = Open p \<and>
     fst (peek 0 p) = Some (q, permit) \<and> p_height example_permit < q_height q) \<and>
   (\<exists>sh p q permit. (after_finalization 4)\<^sup>*\<^sup>* (note_attestation_finalization 4 8 example_shared) sh \<and> pool sh = Open p \<and>
     fst (peek 0 p) = Some (q, permit) \<and> 4 < q_height q)"
proof -
  let ?v = "example_pool\<lparr>digest_local := Some 8, locally_validated_height := Some 4\<rparr>"
  let ?f = "example_pool\<lparr>forks := (forks example_pool)\<lparr>last_finalized_height := Some 4, last_finalized_digest := Some 8\<rparr>\<rparr>"
  let ?q = "\<lparr>q_height = 5, q_digest = 9, q_chain_key = 7, q_votes = [example_vote]\<rparr>"
  let ?p = "\<lparr>p_height = 5, p_digest = 9, p_validation_generation = 0, p_vote_count = 1\<rparr>"
  have v: "after_validation\<^sup>*\<^sup>* (mark_valid example_permit example_shared) \<lparr>pool = Open ?v, senders = 1, notify = True\<rparr>"
    unfolding example_send_validated [symmetric] by (intro r_into_rtranclp after_validation.intros(1) plain_step.intros(2))
  have f: "(after_finalization 4)\<^sup>*\<^sup>* (note_attestation_finalization 4 8 example_shared) \<lparr>pool = Open ?f, senders = 1, notify = True\<rparr>"
    unfolding example_send_finalized [symmetric] by (intro r_into_rtranclp after_finalization.intros(1) plain_step.intros(2))
  have o: "fst (peek 0 ?v) = Some (?q, ?p)" "fst (peek 0 ?f) = Some (?q, ?p)"
    by (simp_all add: peek_def best_def example_pool_def example_fork_def)
  note offered = decided_heights_not_offered [OF example_reached(1) rtranclp.rtrancl_refl]
  have "p_height example_permit < q_height ?q" by (rule mp [OF conjunct1 [OF offered [OF _ o(1)]] v]) simp_all
  moreover have "4 < q_height ?q" by (rule mp [OF conjunct2 [OF conjunct2 [OF offered [OF _ o(2)]]] f]) simp_all
  ultimately show ?thesis using v f o by fastforce
qed

theorem no_missed_wakeup_witness:
  "fst (recv_pass 0 example_shared) = PeekOpen None \<and>
   fst (recv_pass 0 (snd (send 0 example_vote example_shared))) \<noteq> PeekOpen None \<and>
   notify (snd (send 0 example_vote example_shared))"
proof -
  have "fst (recv_pass 0 example_shared) = PeekOpen None"
    by (simp add: recv_pass_idle example_shared_def attestation_pool_def pool_new_def forks_new_def best_def)
  moreover have "fst (recv_pass 0 (snd (send 0 example_vote example_shared))) \<noteq> PeekOpen None"
    unfolding example_send by (simp add: recv_pass_def example_peek)
  moreover have "sender_step example_shared (snd (send 0 example_vote example_shared))" by (rule sender_step.intros)
  ultimately show ?thesis using no_missed_wakeup by blast
qed

end
