(* ===== verification/AttestorStash.thy ===== *)
theory AttestorStash
  imports BlockProver RegistryInv
begin

text \<open>The attestor-stash precompile (\<open>precompiles/attestor-stash/src/lib.rs\<close>), by which a stash that
  lives in the EVM calls the attestation pallet and reads its attestors and its ledger.

  The handle of the EVM is a parameter, with the mapping of EVM addresses to accounts, the
  SCALE-encoded sizes that are charged for, and \<open>try_dispatch\<close> of the precompile library: it is told
  the outcome of the call, charges for it and decides whether the precompile goes on.  What a
  property needs of it is the documented behaviour that a call that fails reverts
  (\<open>dispatch_reverts\<close>) or that a call that succeeds is paid for (\<open>stash_affordable\<close>).

  The properties are that only the stash of an attestor can unregister or chill it, and that the
  amount reported as withdrawable is the amount that a withdrawal unlocks.\<close>

section \<open>Handle and results\<close>

type_synonym H160 = "160 word"

datatype StashCall =
  CallRegisterAttestor ChainKey AccountId
  | CallUnregisterAttestor ChainKey AccountId
  | CallChill ChainKey AccountId
  | CallWithdrawUnbonded

record 'h StashHandle =
  stash_evm :: "'h EvmHandle"
  caller :: H160
  into_account_id :: "H160 \<Rightarrow> AccountId"
  record_log_costs_manual :: "nat \<Rightarrow> nat \<Rightarrow> 'h \<Rightarrow> ExitError + 'h"
  record_read :: "nat \<Rightarrow> 'h \<Rightarrow> ExitError + 'h"
  try_dispatch :: "Origin \<Rightarrow> StashCall \<Rightarrow> PalletError DispatchError option \<Rightarrow> 'h \<Rightarrow> PrecompileFailure + 'h"
  attestor_size :: "Attestor \<Rightarrow> nat"
  accounts_size :: "AccountId list \<Rightarrow> nat"
  ledger_size :: "AttestorLedger \<Rightarrow> nat"

record AttestorInfo =
  ai_exists :: bool
  ai_status :: u8
  ai_stash :: H256
  ai_has_bls_key :: bool

record LedgerInfo =
  li_exists :: bool
  li_stash :: H256
  li_total_staked :: u128
  li_active :: u128
  li_unlocking_chunks :: u32
  li_withdrawable :: u128

definition attestor_info_default :: AttestorInfo where
  "attestor_info_default = \<lparr>ai_exists = False, ai_status = 0, ai_stash = 0, ai_has_bls_key = False\<rparr>"

definition ledger_info_default :: LedgerInfo where
  "ledger_info_default = \<lparr>li_exists = False, li_stash = 0, li_total_staked = 0, li_active = 0,
     li_unlocking_chunks = 0, li_withdrawable = 0\<rparr>"

definition SELECTOR_LOG_ATTESTOR_REGISTERED :: "keccak \<Rightarrow> H256" where
  "SELECTOR_LOG_ATTESTOR_REGISTERED kc = kc (map of_char ''AttestorRegistered(uint64,bytes32,address)'')"

definition SELECTOR_LOG_ATTESTOR_UNREGISTERED :: "keccak \<Rightarrow> H256" where
  "SELECTOR_LOG_ATTESTOR_UNREGISTERED kc = kc (map of_char ''AttestorUnregistered(uint64,bytes32,address)'')"

definition SELECTOR_LOG_ATTESTOR_CHILLED :: "keccak \<Rightarrow> H256" where
  "SELECTOR_LOG_ATTESTOR_CHILLED kc = kc (map of_char ''AttestorChilled(uint64,bytes32,address)'')"

definition SELECTOR_LOG_UNBONDED_WITHDRAWN :: "keccak \<Rightarrow> H256" where
  "SELECTOR_LOG_UNBONDED_WITHDRAWN kc = kc (map of_char ''UnbondedWithdrawn(address)'')"

section \<open>Calls\<close>

text \<open>The common shape of the four calls: the log is paid for, the call is dispatched with the
  account of the caller as its origin, and the log is written.  A failed dispatch leaves the state
  as it was.\<close>

definition dispatch_and_log ::
  "'h StashHandle \<Rightarrow> H256 list \<Rightarrow> StashCall \<Rightarrow> (Origin \<Rightarrow> 's \<Rightarrow> (PalletError, 's) dispatch) \<Rightarrow> 's \<Rightarrow> 'h \<Rightarrow>
   PrecompileFailure + bool \<times> 's \<times> 'h" where
  "dispatch_and_log sh topics call run s hs =
    and_then (exit_result (record_log_costs_manual sh (length topics) 0 hs)) (\<lambda>hs.
      let origin = Signed (into_account_id sh (caller sh)); r = run origin s in
      and_then (try_dispatch sh origin call (case r of Inl e \<Rightarrow> Some e | Inr _ \<Rightarrow> None) hs) (\<lambda>hs.
        and_then (exit_result (record_log (stash_evm sh) topics [] hs)) (\<lambda>hs.
          Inr (True, commit s r, hs))))"

definition evm_register_attestor ::
  "keccak \<Rightarrow> PalletConfig \<Rightarrow> 'c Currency \<Rightarrow> (ChainKey \<Rightarrow> bool) \<Rightarrow> 'h StashHandle \<Rightarrow> u64 \<Rightarrow> H256 \<Rightarrow>
   ('c, 'z) RegistryState_scheme \<Rightarrow> 'h \<Rightarrow> PrecompileFailure + bool \<times> ('c, 'z) RegistryState_scheme \<times> 'h" where
  "evm_register_attestor kc cfg cur supp sh k attestor_id =
    dispatch_and_log sh [SELECTOR_LOG_ATTESTOR_REGISTERED kc, ucast k, attestor_id, ucast (caller sh)]
      (CallRegisterAttestor k attestor_id) (\<lambda>origin. register_attestor cfg cur supp origin k attestor_id)"

definition evm_unregister_attestor ::
  "keccak \<Rightarrow> PalletConfig \<Rightarrow> 'c Currency \<Rightarrow> EraIndex \<Rightarrow> 'h StashHandle \<Rightarrow> u64 \<Rightarrow> H256 \<Rightarrow>
   ('c, 'z) RegistryState_scheme \<Rightarrow> 'h \<Rightarrow> PrecompileFailure + bool \<times> ('c, 'z) RegistryState_scheme \<times> 'h" where
  "evm_unregister_attestor kc cfg cur era sh k attestor_id =
    dispatch_and_log sh [SELECTOR_LOG_ATTESTOR_UNREGISTERED kc, ucast k, attestor_id, ucast (caller sh)]
      (CallUnregisterAttestor k attestor_id) (\<lambda>origin. unregister_attestor cfg cur era origin k attestor_id)"

definition evm_chill ::
  "keccak \<Rightarrow> 'h StashHandle \<Rightarrow> u64 \<Rightarrow> H256 \<Rightarrow> ('c, 'z) RegistryState_scheme \<Rightarrow> 'h \<Rightarrow>
   PrecompileFailure + bool \<times> ('c, 'z) RegistryState_scheme \<times> 'h" where
  "evm_chill kc sh k attestor_id =
    dispatch_and_log sh [SELECTOR_LOG_ATTESTOR_CHILLED kc, ucast k, attestor_id, ucast (caller sh)]
      (CallChill k attestor_id) (\<lambda>origin. chill origin k attestor_id)"

definition evm_withdraw_unbonded ::
  "keccak \<Rightarrow> 'c Currency \<Rightarrow> EraIndex \<Rightarrow> 'h StashHandle \<Rightarrow> ('c, 'z) RegistryState_scheme \<Rightarrow> 'h \<Rightarrow>
   PrecompileFailure + bool \<times> ('c, 'z) RegistryState_scheme \<times> 'h" where
  "evm_withdraw_unbonded kc cur era sh =
    dispatch_and_log sh [SELECTOR_LOG_UNBONDED_WITHDRAWN kc, ucast (caller sh)]
      CallWithdrawUnbonded (withdraw_unbonded cur era)"

section \<open>Queries\<close>

definition read_charge :: "'h StashHandle \<Rightarrow> nat \<Rightarrow> 'h \<Rightarrow> PrecompileFailure + 'h" where
  "read_charge sh n hs = exit_result (record_read sh n hs)"

definition status_u8 :: "AttestorStatus \<Rightarrow> u8" where
  "status_u8 st = (case st of Active \<Rightarrow> 0 | Idle \<Rightarrow> 1 | Waiting \<Rightarrow> 2 | Leaving \<Rightarrow> 3)"

definition evm_get_attestor ::
  "'h StashHandle \<Rightarrow> ('c, 'z) RegistryState_scheme \<Rightarrow> u64 \<Rightarrow> H256 \<Rightarrow> 'h \<Rightarrow> PrecompileFailure + AttestorInfo \<times> 'h" where
  "evm_get_attestor sh s k attestor_id hs =
    (case Attestors s k attestor_id of
       None \<Rightarrow> and_then (read_charge sh 0 hs) (\<lambda>hs. Inr (attestor_info_default, hs))
     | Some attestor \<Rightarrow> and_then (read_charge sh (attestor_size sh attestor) hs) (\<lambda>hs.
         Inr (\<lparr>ai_exists = True, ai_status = status_u8 (status attestor), ai_stash = stash attestor,
           ai_has_bls_key = (bls_public_key attestor \<noteq> None)\<rparr>, hs)))"

definition is_active_attestor ::
  "'h StashHandle \<Rightarrow> ('c, 'z) RegistryState_scheme \<Rightarrow> u64 \<Rightarrow> H256 \<Rightarrow> 'h \<Rightarrow> PrecompileFailure + bool \<times> 'h" where
  "is_active_attestor sh s k attestor_id hs =
    (let act = active_attestor_set s k in
     and_then (read_charge sh (accounts_size sh act) hs) (\<lambda>hs. Inr (attestor_id \<in> set act, hs)))"

text \<open>The encoded size of a \<open>u32\<close> and of a balance.\<close>

definition get_attestors_count ::
  "'h StashHandle \<Rightarrow> ('c, 'z) RegistryState_scheme \<Rightarrow> u64 \<Rightarrow> 'h \<Rightarrow> PrecompileFailure + u32 \<times> 'h" where
  "get_attestors_count sh s k hs = and_then (read_charge sh 4 hs) (\<lambda>hs. Inr (attestors_count s k, hs))"

definition get_min_bond_requirement ::
  "PalletConfig \<Rightarrow> 'h StashHandle \<Rightarrow> ('c, 'z) RegistryState_scheme \<Rightarrow> u64 \<Rightarrow> 'h \<Rightarrow> PrecompileFailure + u128 \<times> 'h" where
  "get_min_bond_requirement cfg sh s k hs =
    and_then (read_charge sh 16 hs) (\<lambda>hs. Inr (min_bond_requirement cfg s k, hs))"

text \<open>\<open>max_encoded_len\<close> of an optional era is a tag and a \<open>u32\<close>.\<close>

definition get_ledger_for_account ::
  "'h StashHandle \<Rightarrow> EraIndex \<Rightarrow> ('c, 'z) RegistryState_scheme \<Rightarrow> AccountId \<Rightarrow> 'h \<Rightarrow> PrecompileFailure + LedgerInfo \<times> 'h" where
  "get_ledger_for_account sh current_era s account hs =
    (case Ledger s account of
       None \<Rightarrow> and_then (read_charge sh 0 hs) (\<lambda>hs. Inr (ledger_info_default, hs))
     | Some l \<Rightarrow> and_then (read_charge sh (ledger_size sh l) hs) (\<lambda>hs.
         and_then (read_charge sh (1 + 4) hs) (\<lambda>hs.
         let withdrawable = fold (\<lambda>chunk acc. saturating_add acc (uc_value chunk))
               (filter (\<lambda>chunk. uc_era chunk \<le> current_era) (unlocking l)) 0 in
         Inr (\<lparr>li_exists = True, li_stash = account, li_total_staked = total_staked l, li_active = active l,
           li_unlocking_chunks = len32 (unlocking l), li_withdrawable = withdrawable\<rparr>, hs))))"

definition get_ledger ::
  "'h StashHandle \<Rightarrow> EraIndex \<Rightarrow> ('c, 'z) RegistryState_scheme \<Rightarrow> H256 \<Rightarrow> 'h \<Rightarrow> PrecompileFailure + LedgerInfo \<times> 'h" where
  "get_ledger sh era s account = get_ledger_for_account sh era s account"

definition get_ledger_by_address ::
  "'h StashHandle \<Rightarrow> EraIndex \<Rightarrow> ('c, 'z) RegistryState_scheme \<Rightarrow> H160 \<Rightarrow> 'h \<Rightarrow> PrecompileFailure + LedgerInfo \<times> 'h" where
  "get_ledger_by_address sh era s addr = get_ledger_for_account sh era s (into_account_id sh addr)"

definition get_caller_ledger ::
  "'h StashHandle \<Rightarrow> EraIndex \<Rightarrow> ('c, 'z) RegistryState_scheme \<Rightarrow> 'h \<Rightarrow> PrecompileFailure + LedgerInfo \<times> 'h" where
  "get_caller_ledger sh era s = get_ledger_by_address sh era s (caller sh)"

section \<open>Only the stash acts on its attestors\<close>

text \<open>A dispatch that fails reverts the call of the precompile.\<close>

definition dispatch_reverts :: "'h StashHandle \<Rightarrow> bool" where
  "dispatch_reverts sh \<longleftrightarrow> (\<forall>origin call e hs. \<exists>f. try_dispatch sh origin call (Some e) hs = Inl f)"

lemma dispatch_and_log_Inr:
  assumes "dispatch_reverts sh" and "dispatch_and_log sh topics call run s hs = Inr (b, s', hs')"
  shows "b \<and> run (Signed (into_account_id sh (caller sh))) s = Inr s'"
proof (cases "run (Signed (into_account_id sh (caller sh))) s")
  case (Inl e)
  obtain f where "\<And>h. try_dispatch sh (Signed (into_account_id sh (caller sh))) call (Some e) h = Inl (f h)"
    using assms(1) unfolding dispatch_reverts_def by metis
  then show ?thesis using assms(2) Inl by (auto simp: dispatch_and_log_def Let_def and_then_def split: sum.splits)
next
  case (Inr t)
  then show ?thesis using assms(2) by (auto simp: dispatch_and_log_def Let_def and_then_def split: sum.splits)
qed

text \<open>C34: A call of the precompile that does not revert is the pallet's call of the same name by the
  account of the caller.  An unregistration is \<open>unregister_attestor\<close> on an idle attestor whose stash is
  that account, a chilling is \<open>chill\<close> on a waiting or active attestor whose stash is that account, and
  a registration and a withdrawal are \<open>register_attestor\<close> and \<open>withdraw_unbonded\<close> by that account.\<close>

theorem only_stash_acts:
  assumes "dispatch_reverts sh" and "acc = into_account_id sh (caller sh)"
  shows "(evm_unregister_attestor kc cfg cur era sh k a s hs = Inr (b, s', hs') \<longrightarrow>
      b \<and> unregister_attestor cfg cur era (Signed acc) k a s = Inr s' \<and>
      (\<exists>x. Attestors s k a = Some x \<and> stash x = acc \<and> status x = Idle)) \<and>
    (evm_chill kc sh k a s hs = Inr (b, s', hs') \<longrightarrow>
      b \<and> chill (Signed acc) k a s = Inr s' \<and>
      (\<exists>x. Attestors s k a = Some x \<and> stash x = acc \<and> status x \<in> {Waiting, Active})) \<and>
    (evm_register_attestor kc cfg cur supp sh k a s hs = Inr (b, s', hs') \<longrightarrow>
      b \<and> register_attestor cfg cur supp (Signed acc) k a s = Inr s') \<and>
    (evm_withdraw_unbonded kc cur era sh s hs = Inr (b, s', hs') \<longrightarrow>
      b \<and> withdraw_unbonded cur era (Signed acc) s = Inr s')"
proof (intro conjI impI)
  note dispatched = dispatch_and_log_Inr [OF assms(1), folded assms(2)]
  assume "evm_unregister_attestor kc cfg cur era sh k a s hs = Inr (b, s', hs')"
  from dispatched [OF this [unfolded evm_unregister_attestor_def]]
  show b "unregister_attestor cfg cur era (Signed acc) k a s = Inr s'"
    "\<exists>x. Attestors s k a = Some x \<and> stash x = acc \<and> status x = Idle"
    by (auto simp: unregister_attestor_def remove_attestor_and_emit_event_def split: option.splits if_splits)
next
  note dispatched = dispatch_and_log_Inr [OF assms(1), folded assms(2)]
  assume "evm_chill kc sh k a s hs = Inr (b, s', hs')"
  from dispatched [OF this [unfolded evm_chill_def]]
  show b "chill (Signed acc) k a s = Inr s'"
    "\<exists>x. Attestors s k a = Some x \<and> stash x = acc \<and> status x \<in> {Waiting, Active}"
    by (auto simp: chill_def split: option.splits if_splits AttestorStatus.splits)
next
  assume "evm_register_attestor kc cfg cur supp sh k a s hs = Inr (b, s', hs')"
  from dispatch_and_log_Inr [OF assms(1) this [unfolded evm_register_attestor_def], folded assms(2)]
  show b "register_attestor cfg cur supp (Signed acc) k a s = Inr s'" by simp_all
next
  assume "evm_withdraw_unbonded kc cur era sh s hs = Inr (b, s', hs')"
  from dispatch_and_log_Inr [OF assms(1) this [unfolded evm_withdraw_unbonded_def], folded assms(2)]
  show b "withdraw_unbonded cur era (Signed acc) s = Inr s'" by simp_all
qed

section \<open>The reported amount is what a withdrawal unlocks\<close>

definition stash_affordable :: "'h StashHandle \<Rightarrow> bool" where
  "stash_affordable sh \<longleftrightarrow> (\<forall>n hs. \<exists>hs'. record_read sh n hs = Inr hs') \<and>
    (\<forall>n m hs. \<exists>hs'. record_log_costs_manual sh n m hs = Inr hs') \<and>
    (\<forall>origin call hs. \<exists>hs'. try_dispatch sh origin call None hs = Inr hs') \<and>
    (\<forall>topics d hs. \<exists>hs'. record_log (stash_evm sh) topics d hs = Inr hs')"

lemma dispatch_and_log_succeeds:
  assumes "stash_affordable sh" and "run (Signed (into_account_id sh (caller sh))) s = Inr s'"
  shows "\<exists>hs'. dispatch_and_log sh topics call run s hs = Inr (True, s', hs')"
proof -
  obtain h1 where h1: "record_log_costs_manual sh (length topics) 0 hs = Inr h1"
    using assms(1) unfolding stash_affordable_def by blast
  obtain h2 where h2: "try_dispatch sh (Signed (into_account_id sh (caller sh))) call None h1 = Inr h2"
    using assms(1) unfolding stash_affordable_def by blast
  obtain h3 where h3: "record_log (stash_evm sh) topics [] h2 = Inr h3"
    using assms(1) unfolding stash_affordable_def by blast
  show ?thesis by (simp add: dispatch_and_log_def exit_result_def and_then_def h1 h2 h3 assms(2))
qed

lemma unat_saturating_sum:
  "unat (fold (\<lambda>c acc. saturating_add acc (uc_value c)) cs t) =
     min (unat t + sum_list (map (unat \<circ> uc_value) cs)) (2 ^ 128 - 1)" for t :: u128
proof (induction cs arbitrary: t)
  case Nil
  show ?case using unat_less_2p [of t] by simp
next
  case (Cons c cs)
  show ?case by (simp add: Cons.IH unat_saturating_add min_def)
qed

lemma get_caller_ledger_reports:
  assumes "stash_affordable sh" and "Ledger s (into_account_id sh (caller sh)) = Some l" and "ledger_ok l"
  shows "\<exists>info hs'. get_caller_ledger sh era s hs = Inr (info, hs') \<and> li_exists info \<and>
    li_stash info = into_account_id sh (caller sh) \<and> li_total_staked info = total_staked l \<and> li_active info = active l \<and>
    unat (li_withdrawable info) = sum_list (map (unat \<circ> uc_value) (filter (\<lambda>c. \<not> uc_era c > era) (unlocking l)))"
proof -
  let ?m = "sum_list (map (unat \<circ> uc_value) (filter (\<lambda>c. \<not> uc_era c > era) (unlocking l)))"
  have "?m < 2 ^ 128"
    using consolidate_unlocked_fields(4) [OF assms(3), of era] unat_less_2p [of "total_staked l"] by simp
  then have m: "unat (fold (\<lambda>c acc. saturating_add acc (uc_value c)) (filter (\<lambda>c. uc_era c \<le> era) (unlocking l)) 0) = ?m"
    unfolding unat_saturating_sum by (simp add: not_less)
  obtain h1 where h1: "record_read sh (ledger_size sh l) hs = Inr h1"
    using assms(1) unfolding stash_affordable_def by blast
  obtain h2 where h2: "record_read sh (1 + 4) h1 = Inr h2"
    using assms(1) unfolding stash_affordable_def by blast
  show ?thesis using m h2
    by (simp add: get_caller_ledger_def get_ledger_by_address_def get_ledger_for_account_def read_charge_def
        exit_result_def and_then_def assms(2) h1 Let_def)
qed

text \<open>C33: What the precompile reports to a stash about its ledger is what a withdrawal does.  The
  total is the locked balance of the stash; a withdrawal through the precompile then succeeds, and
  either the locked balance falls by exactly the amount reported as withdrawable and the active
  part stays, or nothing else is unlocking and the active part is below the existential deposit,
  and the ledger and the lock are removed.\<close>

theorem withdrawable_is_released:
  assumes "lockable_currency cur" and "backed cur s" and "Ledger s (into_account_id sh (caller sh)) = Some l"
    and "0 < era" and "stash_affordable sh"
  shows "\<exists>info hs1 s' hs2. get_caller_ledger sh era s hs = Inr (info, hs1) \<and>
    li_total_staked info = get_locked_balance cur (balances s) (into_account_id sh (caller sh)) \<and>
    evm_withdraw_unbonded kc cur era sh s hs1 = Inr (True, s', hs2) \<and>
    (if filter (\<lambda>c. uc_era c > era) (unlocking l) = [] \<and> (li_active info < minimum_balance cur \<or> li_active info = 0)
     then Ledger s' (into_account_id sh (caller sh)) = None \<and>
       get_locked_balance cur (balances s') (into_account_id sh (caller sh)) = 0
     else (\<exists>l'. Ledger s' (into_account_id sh (caller sh)) = Some l' \<and> active l' = li_active info) \<and>
       unat (get_locked_balance cur (balances s') (into_account_id sh (caller sh))) + unat (li_withdrawable info) =
       unat (get_locked_balance cur (balances s) (into_account_id sh (caller sh))))"
proof -
  let ?a = "into_account_id sh (caller sh)"
  have good: "ledger_good ?a l" "get_locked_balance cur (balances s) ?a = total_staked l"
    using backedD(1) [OF assms(2,3)] by simp_all
  obtain info hs1 where i: "get_caller_ledger sh era s hs = Inr (info, hs1)" "li_total_staked info = total_staked l"
      "li_active info = active l" and w: "unat (li_withdrawable info) =
        sum_list (map (unat \<circ> uc_value) (filter (\<lambda>c. \<not> uc_era c > era) (unlocking l)))"
    using get_caller_ledger_reports [OF assms(5,3), of era hs] good(1) by (auto simp: ledger_good_def)
  from withdraw_releases_matured [OF assms(1-4)] obtain s' where s': "withdraw_unbonded cur era (Signed ?a) s = Inr s'"
    and r: "if filter (\<lambda>c. uc_era c > era) (unlocking l) = [] \<and> (active l < minimum_balance cur \<or> active l = 0)
       then Ledger s' ?a = None \<and> get_locked_balance cur (balances s') ?a = 0
       else (\<exists>l'. Ledger s' ?a = Some l' \<and> active l' = active l \<and>
         unlocking l' = filter (\<lambda>c. uc_era c > era) (unlocking l)) \<and>
         unat (get_locked_balance cur (balances s') ?a) + unat (li_withdrawable info) =
         unat (get_locked_balance cur (balances s) ?a)"
    unfolding w by blast
  obtain hs2 where h2: "evm_withdraw_unbonded kc cur era sh s hs1 = Inr (True, s', hs2)"
    unfolding evm_withdraw_unbonded_def using dispatch_and_log_succeeds [of sh "withdraw_unbonded cur era", OF assms(5) s'] by blast
  have r': "if filter (\<lambda>c. uc_era c > era) (unlocking l) = [] \<and> (li_active info < minimum_balance cur \<or> li_active info = 0)
       then Ledger s' ?a = None \<and> get_locked_balance cur (balances s') ?a = 0
       else (\<exists>l'. Ledger s' ?a = Some l' \<and> active l' = li_active info) \<and>
         unat (get_locked_balance cur (balances s') ?a) + unat (li_withdrawable info) =
         unat (get_locked_balance cur (balances s) ?a)"
    using r unfolding i(3) by (auto split: if_splits)
  show ?thesis using i(1) i(2) [folded good(2)] h2 r' by blast
qed

section \<open>An example\<close>

definition example_stash_handle :: "unit StashHandle" where
  "example_stash_handle = \<lparr>stash_evm = example_handle, caller = 1, into_account_id = ucast,
     record_log_costs_manual = (\<lambda>_ _ h. Inr h), record_read = (\<lambda>_ h. Inr h),
     try_dispatch = (\<lambda>_ _ r h. case r of None \<Rightarrow> Inr h | Some _ \<Rightarrow> Inl (Revert [])),
     attestor_size = (\<lambda>_. 0), accounts_size = length, ledger_size = (\<lambda>_. 0)\<rparr>"

lemma example_stash_handle_account: "into_account_id example_stash_handle (caller example_stash_handle) = 1"
  by (simp add: example_stash_handle_def)

lemma example_stash_handle_laws:
  "dispatch_reverts example_stash_handle" "stash_affordable example_stash_handle"
  by (simp_all add: example_stash_handle_def dispatch_reverts_def stash_affordable_def example_handle_def)

text \<open>A stash with seven units active and three that mature at the fourth era.\<close>

definition example_unbonding :: AttestorLedger where
  "example_unbonding = \<lparr>ledger_stash = 1, total_staked = 10, active = 7, unlocking = [\<lparr>uc_value = 3, uc_era = 4\<rparr>]\<rparr>"

definition example_stash_store :: "lock_table RegistryState" where
  "example_stash_store = (registry_default (\<lambda>a. if a = 1 then [(BOND_LOCK_ID, 10)] else []))\<lparr>Ledger := [1 \<mapsto> example_unbonding]\<rparr>"

lemma example_stash_store_locked: "get_locked_balance table_currency (balances example_stash_store) 1 = 10"
  by (simp add: example_stash_store_def get_locked_balance_def table_currency_def)

lemma example_stash_store_backed: "backed table_currency example_stash_store"
  by (auto simp: backed_def ledger_good_def ledger_ok_def example_unbonding_def example_stash_store_def
      get_locked_balance_def table_currency_def)

theorem withdrawable_is_released_witness:
  "\<exists>info hs1 s' hs2. get_caller_ledger example_stash_handle 5 example_stash_store () = Inr (info, hs1) \<and>
    evm_withdraw_unbonded (\<lambda>_. 0) table_currency 5 example_stash_handle example_stash_store hs1 = Inr (True, s', hs2) \<and>
    li_total_staked info = 10"
proof -
  have l: "Ledger example_stash_store (into_account_id example_stash_handle (caller example_stash_handle)) =
      Some example_unbonding"
    by (simp add: example_stash_handle_account example_stash_store_def)
  have "0 < (5 :: EraIndex)" by simp
  from withdrawable_is_released [OF table.lockable_currency_axioms example_stash_store_backed l this
      example_stash_handle_laws(2), of "()" "\<lambda>_. 0"]
  show ?thesis unfolding example_stash_handle_account example_stash_store_locked by blast
qed

text \<open>A stash with an attestor that waits and one that is idle.\<close>

definition example_chill_store :: "lock_table RegistryState" where
  "example_chill_store = (registry_default (\<lambda>_. []))
     \<lparr>Attestors := (\<lambda>_. [7 \<mapsto> \<lparr>bls_public_key = None, status = Waiting, stash = 1\<rparr>,
        8 \<mapsto> \<lparr>bls_public_key = None, status = Idle, stash = 1\<rparr>]), Ledger := [1 \<mapsto> ledger_new 1 0]\<rparr>"

lemma example_chill: "\<exists>s'. chill (Signed 1) 2 7 example_chill_store = Inr s'"
  by (simp add: chill_def example_chill_store_def)

lemma example_unregister: "\<exists>s'. unregister_attestor example_pallet_config table_currency 5 (Signed 1) 2 8 example_chill_store = Inr s'"
  by (simp add: unregister_attestor_def remove_attestor_and_emit_event_def settle_bond_def retire_key_def Let_def example_chill_store_def ledger_new_def)

theorem only_stash_acts_witness:
  "(\<exists>s'. evm_chill (\<lambda>_. 0) example_stash_handle 2 7 example_chill_store () = Inr (True, s', ()) \<and>
     chill (Signed 1) 2 7 example_chill_store = Inr s') \<and>
   (\<exists>s'. evm_unregister_attestor (\<lambda>_. 0) example_pallet_config table_currency 5 example_stash_handle 2 8 example_chill_store () =
       Inr (True, s', ()) \<and>
     unregister_attestor example_pallet_config table_currency 5 (Signed 1) 2 8 example_chill_store = Inr s')"
proof -
  note laws = example_stash_handle_laws example_stash_handle_account
  note succeeds = dispatch_and_log_succeeds [OF laws(2), unfolded laws(3)]
  obtain s1 where "chill (Signed 1) 2 7 example_chill_store = Inr s1" using example_chill by blast
  then have c: "evm_chill (\<lambda>_. 0) example_stash_handle 2 7 example_chill_store () = Inr (True, s1, ())"
    unfolding evm_chill_def using succeeds [of "\<lambda>origin. chill origin 2 7"] by simp
  obtain s2 where "unregister_attestor example_pallet_config table_currency 5 (Signed 1) 2 8 example_chill_store = Inr s2"
    using example_unregister by blast
  then have u: "evm_unregister_attestor (\<lambda>_. 0) example_pallet_config table_currency 5 example_stash_handle 2 8
      example_chill_store () = Inr (True, s2, ())"
    unfolding evm_unregister_attestor_def
    using succeeds [of "\<lambda>origin. unregister_attestor example_pallet_config table_currency 5 origin 2 8"] by simp
  show ?thesis
    using only_stash_acts [OF laws(1) laws(3) [symmetric], of "\<lambda>_. 0" example_pallet_config table_currency 5 2 7 example_chill_store "()" True s1 "()"]
      only_stash_acts [OF laws(1) laws(3) [symmetric], of "\<lambda>_. 0" example_pallet_config table_currency 5 2 8 example_chill_store "()" True s2 "()"]
      c u by blast
qed

end
