(* ===== verification/AttestationStream.thy ===== *)
theory AttestationStream
  imports Attestations
begin

text \<open>The attestation stream of an attestor (\<open>common/streams/attestation/src/lib.rs\<close>): it caches the
  roots of the blocks above the last finalized attestation and produces attestations for them,
  newest first, each with a continuity proof over the cached roots.

  The two streams it reads, of roots and of tips, are the lists of the answers they give when they
  are polled; a stream that has nothing to say answers \<open>Pending\<close>.  Signing is a parameter.  A failed
  assertion and an index out of range are panics, \<open>Inl\<close> with a message.  The node runs with 64-bit
  \<open>usize\<close>.  The main loop of \<open>poll_next\<close> runs on fuel.

  This theory holds the model, the invariant of the stream and the proofs that every operation keeps
  it, that polling returns and what it produces; \<open>StreamAcceptance\<close> has the properties.\<close>

section \<open>Data\<close>

record RootInfo =
  ri_height :: u64
  ri_root :: H256
  ri_hash :: H256

record AttestationInfo =
  ai_height :: u64
  ai_digest :: Digest

datatype 'a Poll = Pending | Ready "'a option"

record ('id, 'sr, 'bs) Signer =
  attestor_id :: 'id
  sign_sr :: "bytes \<Rightarrow> 'sr"
  sign_bls :: "bytes \<Rightarrow> 'bs"

record ('id, 'sr, 'bs) Attestation =
  ua_data :: AttestationData
  ua_attestor :: 'id
  ua_signature :: 'sr
  ua_signature_bls :: 'bs
  ua_continuity_proof :: ContinuityProof

record StreamConfig =
  cf_chain_key :: ChainKey
  cf_stream_roots :: "RootInfo Poll list"
  cf_stream_tip :: "u64 Poll list"
  cf_attestation_interval :: u64
  cf_attestation_prev :: AttestationInfo
  cf_max_catchup :: u64

record StreamAttestation =
  st_chain_key :: ChainKey
  st_roots :: "RootInfo Poll list"
  st_tips :: "u64 Poll list"
  st_fetching :: bool
  st_cache :: "RootInfo list"
  st_max_catchup :: u64
  st_interval :: u64
  st_prev :: AttestationInfo
  computed_start :: u64
  computed_end :: u64
  st_tip :: u64
  st_cursor :: u64
  st_waker :: bool

definition poll_stream :: "'a Poll list \<Rightarrow> 'a Poll \<times> 'a Poll list" where
  "poll_stream xs = (case xs of [] \<Rightarrow> (Pending, []) | x # xs \<Rightarrow> (x, xs))"

section \<open>Construction\<close>

text \<open>\<open>saturating_mul\<close> of the interval with the number of intervals, which is at least one.\<close>

definition align_catchup :: "u64 \<Rightarrow> u64 \<Rightarrow> u64" where
  "align_catchup catchup interval =
    (let n = catchup div interval in saturating_mul interval (if n = 0 then 1 else n))"

definition stream_new :: "StreamConfig \<Rightarrow> StreamAttestation" where
  "stream_new config =
    \<lparr>st_chain_key = cf_chain_key config, st_roots = cf_stream_roots config, st_tips = cf_stream_tip config,
     st_fetching = False, st_cache = [],
     st_max_catchup = align_catchup (cf_max_catchup config) (cf_attestation_interval config),
     st_interval = cf_attestation_interval config, st_prev = cf_attestation_prev config,
     computed_start = ai_height (cf_attestation_prev config), computed_end = ai_height (cf_attestation_prev config),
     st_tip = 0, st_cursor = 0, st_waker = False\<rparr>"

text \<open>The configuration of a running stream, with the streams it is rebuilt from.\<close>

definition stream_config :: "RootInfo Poll list \<Rightarrow> u64 Poll list \<Rightarrow> StreamAttestation \<Rightarrow> StreamConfig" where
  "stream_config stream_roots stream_tip st =
    \<lparr>cf_chain_key = st_chain_key st, cf_stream_roots = stream_roots, cf_stream_tip = stream_tip,
     cf_attestation_interval = st_interval st, cf_attestation_prev = st_prev st, cf_max_catchup = st_max_catchup st\<rparr>"

section \<open>Notifications\<close>

definition stream_note_attestation_finalization :: "AttestationInfo \<Rightarrow> StreamAttestation \<Rightarrow> StreamAttestation \<times> bool" where
  "stream_note_attestation_finalization info st =
    (if ai_height (st_prev st) \<le> ai_height info then
       let stop = max (ai_height info) (computed_end st);
           cache = (case st_cache st of [] \<Rightarrow> []
             | first # _ \<Rightarrow>
                 if ai_height info \<ge> ri_height first
                 then drop (Suc (min (unat (ai_height info) - unat (ri_height first)) (length (st_cache st) - 1))) (st_cache st)
                 else st_cache st) in
       (st\<lparr>computed_start := ai_height info, computed_end := stop, st_cursor := stop, st_prev := info,
           st_cache := cache, st_waker := False\<rparr>, st_waker st)
     else (st, False))"

text \<open>The streams after a reset are parameters: \<open>reset_roots\<close> and \<open>reset_tip\<close> answer for the
  attestation they are reset to.\<close>

definition next_info :: "AttestationInfo \<Rightarrow> AttestationInfo" where
  "next_info info = info\<lparr>ai_height := ai_height info + 1\<rparr>"

definition stream_note_attestation_interval_change ::
  "(AttestationInfo \<Rightarrow> RootInfo Poll list) \<Rightarrow> (AttestationInfo \<Rightarrow> u64 Poll list) \<Rightarrow> u64 \<Rightarrow> StreamAttestation \<Rightarrow> StreamAttestation" where
  "stream_note_attestation_interval_change reset_roots reset_tip interval_new st =
    (let nxt = next_info (st_prev st) in
     stream_new ((stream_config (reset_roots nxt) (reset_tip nxt) st)\<lparr>cf_attestation_interval := interval_new\<rparr>))"

definition stream_note_max_catchup_change ::
  "(AttestationInfo \<Rightarrow> RootInfo Poll list) \<Rightarrow> (AttestationInfo \<Rightarrow> u64 Poll list) \<Rightarrow> u64 \<Rightarrow> StreamAttestation \<Rightarrow> StreamAttestation" where
  "stream_note_max_catchup_change reset_roots reset_tip max_catchup_new st =
    (let nxt = next_info (st_prev st) in
     stream_new ((stream_config (reset_roots nxt) (reset_tip nxt) st)\<lparr>cf_max_catchup := max_catchup_new\<rparr>))"

definition stream_reset ::
  "(AttestationInfo \<Rightarrow> RootInfo Poll list) \<Rightarrow> (AttestationInfo \<Rightarrow> u64 Poll list) \<Rightarrow> AttestationInfo \<Rightarrow> StreamAttestation \<Rightarrow> StreamAttestation" where
  "stream_reset reset_roots reset_tip info st =
    stream_new ((stream_config (reset_roots info) (reset_tip info) st)\<lparr>cf_attestation_prev := info\<rparr>)"

definition stream_note_attestation_chain_reversion ::
  "(AttestationInfo \<Rightarrow> RootInfo Poll list) \<Rightarrow> (AttestationInfo \<Rightarrow> u64 Poll list) \<Rightarrow> AttestationInfo \<Rightarrow> StreamAttestation \<Rightarrow> StreamAttestation" where
  "stream_note_attestation_chain_reversion reset_roots reset_tip info st = stream_reset reset_roots reset_tip info st"

section \<open>Producing an attestation\<close>

definition sign_attestation ::
  "('id, 'sr, 'bs) Signer \<Rightarrow> AttestationData \<Rightarrow> ContinuityProof \<Rightarrow> ('id, 'sr, 'bs) Attestation" where
  "sign_attestation sg attestation_data proof =
    (let msg = att_serialize attestation_data in
     \<lparr>ua_data = attestation_data, ua_attestor = attestor_id sg, ua_signature = sign_sr sg msg,
      ua_signature_bls = sign_bls sg msg, ua_continuity_proof = proof\<rparr>)"

definition generate_attestation_genesis ::
  "('id, 'sr, 'bs) Signer \<Rightarrow> RootInfo \<Rightarrow> StreamAttestation \<Rightarrow> ('id, 'sr, 'bs) Attestation" where
  "generate_attestation_genesis sg info st =
    sign_attestation sg
      \<lparr>att_chain_key = st_chain_key st, att_header_number = ri_height info, att_header_hash = ri_hash info,
       att_root = ri_root info, att_prev_digest = None\<rparr>
      \<lparr>lower_endpoint_digest = 0, roots = []\<rparr>"

definition push_block :: "keccak \<Rightarrow> Digest \<Rightarrow> RootInfo \<Rightarrow> Block list \<Rightarrow> Block list" where
  "push_block kc prev info blocks =
    (let digest_prev = (if blocks = [] then prev else blk_digest (last blocks)) in
     blocks @ [Block_new_from_prev_digest kc (ri_height info) (ri_root info) digest_prev])"

definition generate_attestation ::
  "keccak \<Rightarrow> ('id, 'sr, 'bs) Signer \<Rightarrow> u64 \<Rightarrow> StreamAttestation \<Rightarrow> string + ('id, 'sr, 'bs) Attestation" where
  "generate_attestation kc sg target st =
    (if st_cache st = [] then Inl ''Empty root cache''
     else if \<not> target > computed_start st then Inl ''target > start''
     else if \<not> target \<le> computed_end st then Inl ''target <= end''
     else
       let block_first = ri_height (hd (st_cache st)); block_last = ri_height (last (st_cache st)) in
       if \<not> target \<ge> block_first then Inl ''Invalid root cache start''
       else if \<not> target \<le> block_last then Inl ''Invalid root cache stop''
       else
         let index = unat target - unat block_first in
         if \<not> index < length (st_cache st) then Inl ''index out of bounds''
         else if ri_height (st_cache st ! index) \<noteq> target then Inl ''Attestation height mismatch''
         else
           let info = st_cache st ! index;
               blocks = fold (push_block kc (ai_digest (st_prev st))) (take index (st_cache st)) [];
               proof = from_blocks blocks;
               prev_digest = (if roots proof = [] then Some (ai_digest (st_prev st))
                 else Some (compute_continuity_digest kc proof block_first)) in
           Inr (sign_attestation sg
             \<lparr>att_chain_key = st_chain_key st, att_header_number = target, att_header_hash = ri_hash info,
              att_root = ri_root info, att_prev_digest = prev_digest\<rparr> proof))"

section \<open>Polling\<close>

definition catchup_stop :: "StreamAttestation \<Rightarrow> u64" where
  "catchup_stop st = min (saturating_add (computed_start st) (st_max_catchup st)) (st_tip st)"

definition missing_roots :: "StreamAttestation \<Rightarrow> bool" where
  "missing_roots st \<longleftrightarrow> (if st_cache st = [] then 0 else ri_height (last (st_cache st))) < catchup_stop st"

definition has_space_left :: "StreamAttestation \<Rightarrow> bool" where
  "has_space_left st \<longleftrightarrow> length (st_cache st) \<le> unat (st_max_catchup st)"

text \<open>The answer of the roots and of the tips in one round of the inner loop: \<open>None\<close> if the stream has
  ended, and otherwise whether there was progress.\<close>

definition poll_roots :: "StreamAttestation \<Rightarrow> bool option \<times> StreamAttestation" where
  "poll_roots st =
    (if has_space_left st then
       case poll_stream (st_roots st) of
         (Ready (Some info), rest) \<Rightarrow>
           (Some True, st\<lparr>st_roots := rest,
             st_cache := (if ri_height info > computed_start st then st_cache st @ [info] else st_cache st)\<rparr>)
       | (Ready None, rest) \<Rightarrow> (None, st\<lparr>st_roots := rest\<rparr>)
       | (Pending, rest) \<Rightarrow> (Some False, st\<lparr>st_roots := rest\<rparr>)
     else (Some False, st))"

definition poll_tip :: "StreamAttestation \<Rightarrow> bool option \<times> StreamAttestation" where
  "poll_tip st =
    (case poll_stream (st_tips st) of
       (Ready (Some new_tip), rest) \<Rightarrow> (Some True, st\<lparr>st_tips := rest, st_tip := new_tip - new_tip mod st_interval st\<rparr>)
     | (Ready None, rest) \<Rightarrow> (None, st\<lparr>st_tips := rest\<rparr>)
     | (Pending, rest) \<Rightarrow> (Some False, st\<lparr>st_tips := rest\<rparr>))"

text \<open>The inner loop: \<open>Inl\<close> returns from the poll, \<open>Inr\<close> has all the roots.\<close>

abbreviation pending_input :: "StreamAttestation \<Rightarrow> nat" where
  "pending_input st \<equiv> length (st_roots st) + length (st_tips st)"

function fetch_loop :: "u64 \<Rightarrow> StreamAttestation \<Rightarrow> ('a Poll \<times> StreamAttestation) + StreamAttestation" where
  "fetch_loop next st =
    (if st_tip st < next \<or> missing_roots st then
       case poll_roots st of
         (None, st1) \<Rightarrow> Inl (Ready None, st1)
       | (Some progress1, st1) \<Rightarrow>
           (case poll_tip st1 of
              (None, st2) \<Rightarrow> Inl (Ready None, st2)
            | (Some progress2, st2) \<Rightarrow>
                if \<not> (progress1 \<or> progress2) then Inl (Pending, st2) else fetch_loop next st2)
     else Inr st)"
  by pat_completeness auto

lemma poll_stream_length:
  "poll_stream xs = (x, ys) \<Longrightarrow> length ys \<le> length xs" "poll_stream xs = (Ready y, ys) \<Longrightarrow> length ys < length xs"
  by (auto simp: poll_stream_def split: list.splits)

lemma poll_roots_input:
  assumes "poll_roots st = (p, st')"
  shows "pending_input st' \<le> pending_input st \<and> (p = Some True \<longrightarrow> pending_input st' < pending_input st)"
  using assms by (auto simp: poll_roots_def dest: poll_stream_length split: if_splits prod.splits Poll.splits option.splits)

lemma poll_tip_input:
  assumes "poll_tip st = (p, st')"
  shows "pending_input st' \<le> pending_input st \<and> (p = Some True \<longrightarrow> pending_input st' < pending_input st)"
  using assms by (auto simp: poll_tip_def dest: poll_stream_length split: prod.splits Poll.splits option.splits)

termination fetch_loop
proof (relation "measure (\<lambda>(next, st). pending_input st)", goal_cases)
  case (2 n st x st1 progress1 y st2 progress2)
  then show ?case using poll_roots_input [of st x st1] poll_tip_input [of st1 y st2] by auto
qed simp

section \<open>The main loop\<close>

definition next_target :: "StreamAttestation \<Rightarrow> u64" where
  "next_target st = (let next = saturating_add (computed_end st) (st_interval st) in next - next mod st_interval st)"

definition advance :: "StreamAttestation \<Rightarrow> StreamAttestation" where
  "advance st = st\<lparr>computed_start := computed_end st, computed_end := catchup_stop st, st_cursor := catchup_stop st\<rparr>"

definition clamp_cursor :: "StreamAttestation \<Rightarrow> StreamAttestation" where
  "clamp_cursor st =
    (if st_cursor st < saturating_add (ai_height (st_prev st)) (st_interval st)
     then st\<lparr>st_cursor := computed_start st\<rparr> else st)"

text \<open>One round: \<open>Inl\<close> returns from the poll, \<open>Inr\<close> goes round again.\<close>

definition poll_round ::
  "keccak \<Rightarrow> ('id, 'sr, 'bs) Signer \<Rightarrow> StreamAttestation \<Rightarrow>
   (string + ('id, 'sr, 'bs) Attestation Poll \<times> StreamAttestation) + StreamAttestation" where
  "poll_round kc sg st0 =
    (let st = clamp_cursor st0 in
     if st_cursor st > computed_start st then
       (if \<not> (st_cache st \<noteq> [] \<and> ri_height (last (st_cache st)) \<ge> st_cursor st) then Inl (Inl ''Missing block root'')
        else case generate_attestation kc sg (st_cursor st) st of
          Inl e \<Rightarrow> Inl (Inl e)
        | Inr a \<Rightarrow> Inl (Inr (Ready (Some a), st\<lparr>st_cursor := saturating_sub (st_cursor st) (st_interval st)\<rparr>)))
     else if \<not> st_fetching st \<and> length (st_cache st) > unat (st_max_catchup st) then
       Inl (Inr (Pending, st\<lparr>st_waker := True\<rparr>))
     else case fetch_loop (next_target st) (st\<lparr>st_fetching := True\<rparr>) of
       Inl (r, st) \<Rightarrow> Inl (Inr (r, st))
     | Inr st \<Rightarrow>
         let st = st\<lparr>st_fetching := False\<rparr> in
         if \<not> length (st_cache st) \<le> unat (st_max_catchup st + 1) then Inl (Inl ''Cache length exceeds max_catchup'')
         else Inr (advance st))"

fun poll_next ::
  "nat \<Rightarrow> keccak \<Rightarrow> ('id, 'sr, 'bs) Signer \<Rightarrow> StreamAttestation \<Rightarrow>
   (string + ('id, 'sr, 'bs) Attestation Poll \<times> StreamAttestation) option" where
  "poll_next 0 kc sg st = None"
| "poll_next (Suc fuel) kc sg st =
    (case poll_round kc sg st of Inl r \<Rightarrow> Some r | Inr st' \<Rightarrow> poll_next fuel kc sg st')"

section \<open>The invariant\<close>

text \<open>The roots that are still to come are consecutive from a height on.\<close>

fun upcoming :: "nat \<Rightarrow> RootInfo Poll list \<Rightarrow> bool" where
  "upcoming p [] \<longleftrightarrow> True"
| "upcoming p (x # xs) \<longleftrightarrow>
    (case x of Ready (Some info) \<Rightarrow> unat (ri_height info) = p \<and> upcoming (Suc p) xs | _ \<Rightarrow> upcoming p xs)"

definition cache_from :: "nat \<Rightarrow> RootInfo list \<Rightarrow> bool" where
  "cache_from h cache \<longleftrightarrow> (\<forall>i<length cache. unat (ri_height (cache ! i)) = Suc (h + i))"

definition roots_follow :: "StreamAttestation \<Rightarrow> bool" where
  "roots_follow st \<longleftrightarrow> (\<exists>p. upcoming p (st_roots st) \<and>
    (if st_cache st = [] then p \<le> Suc (unat (ai_height (st_prev st)))
     else p = Suc (unat (ai_height (st_prev st)) + length (st_cache st))))"

definition heights_fit :: "u64 \<Rightarrow> u64 \<Rightarrow> u64 \<Rightarrow> bool" where
  "heights_fit h catchup interval \<longleftrightarrow> unat h + unat catchup + unat interval + 2 \<le> 2 ^ 64"

definition range_ok :: "StreamAttestation \<Rightarrow> bool" where
  "range_ok st \<longleftrightarrow>
    ai_height (st_prev st) \<le> computed_start st \<and> unat (computed_start st) \<le> unat (ai_height (st_prev st)) + length (st_cache st) \<and>
    ai_height (st_prev st) \<le> computed_end st \<and> unat (computed_end st) \<le> unat (ai_height (st_prev st)) + length (st_cache st) \<and>
    st_cursor st \<le> max (computed_start st) (computed_end st)"

definition stream_ok :: "StreamAttestation \<Rightarrow> bool" where
  "stream_ok st \<longleftrightarrow> 0 < st_interval st \<and> st_interval st \<le> st_max_catchup st \<and>
    heights_fit (ai_height (st_prev st)) (st_max_catchup st) (st_interval st) \<and>
    cache_from (unat (ai_height (st_prev st))) (st_cache st) \<and> length (st_cache st) \<le> Suc (unat (st_max_catchup st)) \<and>
    range_ok st \<and> roots_follow st"

lemmas stream_defs = stream_ok_def range_ok_def roots_follow_def

text \<open>What a fetch does not change.\<close>

definition fetch_frame :: "StreamAttestation \<Rightarrow> ChainKey \<times> u64 \<times> u64 \<times> AttestationInfo \<times> u64 \<times> u64 \<times> u64" where
  "fetch_frame st = (st_chain_key st, st_max_catchup st, st_interval st, st_prev st, computed_start st, computed_end st, st_cursor st)"

lemma poll_roots_ok:
  assumes "stream_ok st" and "poll_roots st = (p, st')"
  shows "stream_ok st' \<and> fetch_frame st' = fetch_frame st"
proof (cases "has_space_left st \<and> (\<exists>info rest. st_roots st = Ready (Some info) # rest)")
  case True
  then obtain info rest where r: "st_roots st = Ready (Some info) # rest" by blast
  let ?h = "unat (ai_height (st_prev st))" and ?n = "length (st_cache st)"
  obtain q where q: "unat (ri_height info) = q" "upcoming (Suc q) rest"
      "if st_cache st = [] then q \<le> Suc ?h else q = Suc (?h + ?n)"
    using assms(1) r by (auto simp: stream_defs split: if_splits)
  have st': "st' = st\<lparr>st_roots := rest,
      st_cache := (if ri_height info > computed_start st then st_cache st @ [info] else st_cache st)\<rparr>"
    using assms(2) True r by (simp add: poll_roots_def poll_stream_def)
  have push: "ri_height info > computed_start st \<longleftrightarrow> q = Suc (?h + ?n)"
    using assms(1) q(1,3) by (auto simp: stream_defs word_less_nat_alt word_le_nat_alt split: if_splits)
  have "cache_from ?h (st_cache st @ [info])" if "q = Suc (?h + ?n)"
    using assms(1) q(1) that by (auto simp: stream_ok_def cache_from_def nth_append less_Suc_eq)
  moreover have "?n \<le> unat (st_max_catchup st)" using True by (simp add: has_space_left_def)
  ultimately show ?thesis
    using assms(1) q push unfolding st' by (auto simp: stream_defs fetch_frame_def split: if_splits)
next
  case False
  then show ?thesis using assms
    by (auto simp: poll_roots_def poll_stream_def stream_defs fetch_frame_def split: list.splits Poll.splits option.splits if_splits)
qed

lemma poll_tip_ok:
  assumes "stream_ok st" and "poll_tip st = (p, st')"
  shows "stream_ok st' \<and> fetch_frame st' = fetch_frame st"
  using assms
  by (auto simp: poll_tip_def poll_stream_def stream_defs fetch_frame_def split: list.splits Poll.splits option.splits)

declare fetch_loop.simps [simp del]

lemma fetch_loop_ok:
  assumes "stream_ok st"
  shows "case fetch_loop n st of
      Inl (r, st') \<Rightarrow> stream_ok st' \<and> r \<in> {Pending, Ready None}
    | Inr st' \<Rightarrow> stream_ok st' \<and> fetch_frame st' = fetch_frame st \<and> n \<le> st_tip st' \<and> \<not> missing_roots st' \<and>
        (st' = st \<or> pending_input st' < pending_input st)"
  using assms
proof (induction n st rule: fetch_loop.induct)
  case (1 n st)
  obtain p1 st1 where r: "poll_roots st = (p1, st1)" by (cases "poll_roots st")
  obtain p2 st2 where t: "poll_tip st1 = (p2, st2)" by (cases "poll_tip st1")
  have ok1: "stream_ok st1" "fetch_frame st1 = fetch_frame st" using poll_roots_ok [OF "1.prems" r] by auto
  have ok2: "stream_ok st2" "fetch_frame st2 = fetch_frame st" using poll_tip_ok [OF ok1(1) t] ok1(2) by auto
  show ?case
  proof (cases "(st_tip st < n \<or> missing_roots st) \<and> p1 \<noteq> None \<and> p2 \<noteq> None \<and> (p1 = Some True \<or> p2 = Some True)")
    case True
    then obtain a b where p: "p1 = Some a" "p2 = Some b" "a \<or> b" by auto
    have c: "st_tip st < n \<or> missing_roots st" and d: "\<not> \<not> (a \<or> b)" using True p(3) by simp_all
    have lt: "pending_input st2 < pending_input st" using poll_roots_input [OF r] poll_tip_input [OF t] p by auto
    have e: "fetch_loop n st = fetch_loop n st2"
      by (subst fetch_loop.simps) (use True p in \<open>simp add: r t\<close>)
    note ih = "1.IH" [OF c r [symmetric] p(1) t [symmetric] p(2) d ok2(1)]
    show ?thesis
    proof (cases "fetch_loop n st2 :: ('a Poll \<times> StreamAttestation) + StreamAttestation")
      case (Inl q)
      then show ?thesis using ih by (simp add: e split: prod.splits)
    next
      case (Inr st')
      then show ?thesis using ih lt ok2(2) unfolding e by fastforce
    qed
  next
    case False
    then show ?thesis using "1.prems" ok1 ok2
      by (subst fetch_loop.simps) (auto simp: r t not_less split: option.splits)
  qed
qed

lemma last_cache:
  assumes "stream_ok st" and "st_cache st \<noteq> []"
  shows "unat (ri_height (last (st_cache st))) = unat (ai_height (st_prev st)) + length (st_cache st)"
    and "unat (ri_height (hd (st_cache st))) = Suc (unat (ai_height (st_prev st)))"
  using assms by (auto simp: stream_ok_def cache_from_def last_conv_nth hd_conv_nth)

lemma unat_start_catchup:
  assumes "stream_ok st"
  shows "unat (saturating_add (computed_start st) (st_max_catchup st)) \<ge> unat (ai_height (st_prev st)) + unat (st_interval st)"
    and "unat (saturating_add (ai_height (st_prev st)) (st_interval st)) = unat (ai_height (st_prev st)) + unat (st_interval st)"
  using assms by (auto simp: stream_defs heights_fit_def unat_saturating_add word_le_nat_alt)

lemma next_target_above:
  assumes "stream_ok st"
  shows "unat (computed_end st) < unat (next_target st)"
proof -
  let ?x = "saturating_add (computed_end st) (st_interval st)"
  have x: "unat ?x = unat (computed_end st) + unat (st_interval st)"
    using assms by (auto simp: stream_defs heights_fit_def unat_saturating_add)
  have "?x mod st_interval st \<le> ?x" by (simp add: word_le_nat_alt unat_mod)
  then have "unat (next_target st) = unat ?x - unat ?x mod unat (st_interval st)"
    by (simp add: next_target_def Let_def unat_sub unat_mod)
  moreover have "unat ?x mod unat (st_interval st) < unat (st_interval st)"
    using assms by (auto simp: stream_ok_def word_less_nat_alt)
  ultimately show ?thesis using x by simp
qed

lemma advance_ok:
  assumes "stream_ok st" and "next_target st \<le> st_tip st" and "\<not> missing_roots st"
  shows "stream_ok (advance st)"
proof -
  let ?h = "unat (ai_height (st_prev st))"
  have tip: "unat (computed_end st) < unat (st_tip st)"
    using next_target_above [OF assms(1)] assms(2) by (simp add: word_le_nat_alt)
  have stop: "unat (catchup_stop st) = min (unat (saturating_add (computed_start st) (st_max_catchup st))) (unat (st_tip st))"
    by (simp add: catchup_stop_def min_def word_le_nat_alt)
  have "0 < unat (st_interval st)" using assms(1) by (simp add: stream_ok_def word_less_nat_alt)
  then have "0 < unat (catchup_stop st)" using stop tip unat_start_catchup(1) [OF assms(1)] by auto
  then have ne: "st_cache st \<noteq> []" using assms(3) by (auto simp: missing_roots_def word_less_nat_alt)
  then have "unat (catchup_stop st) \<le> ?h + length (st_cache st)"
    using assms(3) last_cache(1) [OF assms(1) ne] by (simp add: missing_roots_def word_less_nat_alt not_less)
  moreover have "?h \<le> unat (catchup_stop st)"
    using stop tip unat_start_catchup(1) [OF assms(1)] assms(1) by (auto simp: stream_defs word_le_nat_alt)
  ultimately show ?thesis using assms(1) by (auto simp: stream_defs advance_def word_le_nat_alt max_def)
qed

lemma clamp_cursor_ok: "stream_ok st \<Longrightarrow> stream_ok (clamp_cursor st)"
  by (auto simp: stream_defs clamp_cursor_def)

lemma stream_ok_flags [simp]:
  "stream_ok (st\<lparr>st_waker := b\<rparr>) = stream_ok st" "stream_ok (st\<lparr>st_fetching := b\<rparr>) = stream_ok st"
  by (simp_all add: stream_defs)

lemma fetching_flag [simp]:
  "missing_roots (st\<lparr>st_fetching := b\<rparr>) = missing_roots st" "next_target (st\<lparr>st_fetching := b\<rparr>) = next_target st"
  by (simp_all add: missing_roots_def catchup_stop_def next_target_def)

lemma fetch_frame_next: "fetch_frame st = fetch_frame st' \<Longrightarrow> next_target st = next_target st'"
  by (simp add: fetch_frame_def next_target_def)

section \<open>What is produced\<close>

lemma push_blocks_roots: "map blk_root (fold (push_block kc d) xs bs) = map blk_root bs @ map ri_root xs"
  by (induction xs arbitrary: bs) (simp_all add: push_block_def Let_def Block_new_from_prev_digest_def)

lemma push_blocks_hd: "bs \<noteq> [] \<Longrightarrow> fold (push_block kc d) xs bs \<noteq> [] \<and> hd (fold (push_block kc d) xs bs) = hd bs"
proof (induction xs arbitrary: bs)
  case (Cons x xs)
  have "push_block kc d x bs \<noteq> []" "hd (push_block kc d x bs) = hd bs"
    using Cons.prems by (simp_all add: push_block_def Let_def)
  with Cons.IH show ?case by simp
qed simp

lemma from_push_blocks:
  "from_blocks (fold (push_block kc d) xs []) = \<lparr>lower_endpoint_digest = (if xs = [] then 0 else d), roots = map ri_root xs\<rparr>"
proof (cases xs)
  case Nil
  then show ?thesis by (simp add: from_blocks_def)
next
  case (Cons x xs')
  let ?bs = "fold (push_block kc d) xs []"
  have b: "push_block kc d x [] \<noteq> []" "blk_prev_digest (hd (push_block kc d x [])) = d"
    by (simp_all add: push_block_def Let_def Block_new_from_prev_digest_def)
  then have "?bs \<noteq> []" "blk_prev_digest (hd ?bs) = d" using push_blocks_hd [OF b(1), of kc d xs'] Cons by simp_all
  then show ?thesis using push_blocks_roots [of kc d xs "[]"] Cons by (cases ?bs) (simp_all add: from_blocks_def)
qed

text \<open>The roots between the last finalized attestation and a height.\<close>

definition roots_below :: "StreamAttestation \<Rightarrow> u64 \<Rightarrow> H256 list" where
  "roots_below st t = map ri_root (take (unat t - Suc (unat (ai_height (st_prev st)))) (st_cache st))"

definition produced_for :: "keccak \<Rightarrow> StreamAttestation \<Rightarrow> u64 \<Rightarrow> ('id, 'sr, 'bs) Attestation \<Rightarrow> bool" where
  "produced_for kc st t a \<longleftrightarrow>
    att_chain_key (ua_data a) = st_chain_key st \<and> att_header_number (ua_data a) = t \<and>
    att_prev_digest (ua_data a) =
      Some (digest_chain kc (ai_height (st_prev st) + 1) (ai_digest (st_prev st)) (roots_below st t)) \<and>
    roots (ua_continuity_proof a) = roots_below st t \<and>
    (roots_below st t \<noteq> [] \<longrightarrow> lower_endpoint_digest (ua_continuity_proof a) = ai_digest (st_prev st))"

lemma generate_attestation_ok:
  assumes "stream_ok st" and "computed_start st < t" and "t \<le> computed_end st"
  shows "\<exists>a. generate_attestation kc sg t st = Inr a \<and> produced_for kc st t a"
proof -
  let ?h = "unat (ai_height (st_prev st))"
  let ?i = "unat t - Suc ?h"
  have lo: "?h < unat t" and hi: "unat t \<le> ?h + length (st_cache st)"
    using assms by (auto simp: stream_defs word_le_nat_alt word_less_nat_alt)
  then have ne: "st_cache st \<noteq> []" by auto
  note last = last_cache [OF assms(1) ne]
  have first: "ri_height (hd (st_cache st)) = ai_height (st_prev st) + 1"
    using last(2) unat_less_2p [of "ri_height (hd (st_cache st))"] by (simp add: word_unat_eq_iff unat_word_ariths)
  have i: "?i < length (st_cache st)" using lo hi by simp
  have at: "ri_height (st_cache st ! ?i) = t"
    using assms(1) i lo by (simp add: stream_ok_def cache_from_def word_unat_eq_iff)
  have "hd (st_cache st) = st_cache st ! 0" using ne by (rule hd_conv_nth)
  then have guards: "\<not> t < ri_height (hd (st_cache st))" "\<not> ri_height (last (st_cache st)) < t"
      "unat t - unat (ri_height (hd (st_cache st))) = ?i"
    using last lo hi by (simp_all add: word_less_nat_alt)
  show ?thesis using assms(2,3) ne i at guards
    by (auto simp: generate_attestation_def Let_def not_less from_push_blocks produced_for_def sign_attestation_def roots_below_def
        compute_continuity_digest_chain first)
qed

text \<open>A round never panics; it returns an attestation that is due, or waits, or goes on.\<close>

definition round_ok :: "keccak \<Rightarrow> ('id, 'sr, 'bs) Attestation Poll \<Rightarrow> StreamAttestation \<Rightarrow> bool" where
  "round_ok kc r st' \<longleftrightarrow> stream_ok st' \<and>
    (\<forall>a. r = Ready (Some a) \<longrightarrow> st_cache st' \<noteq> [] \<and>
      (\<exists>t. produced_for kc st' t a \<and> saturating_add (ai_height (st_prev st')) (st_interval st') \<le> t \<and>
        unat t \<le> unat (ai_height (st_prev st')) + length (st_cache st')))"

lemma poll_round_yield:
  assumes "stream_ok st" and "st_cursor (clamp_cursor st) > computed_start (clamp_cursor st)"
  shows "\<exists>r st'. poll_round kc sg st = Inl (Inr (r, st')) \<and> round_ok kc r st'"
proof -
  let ?st = "clamp_cursor st" and ?t = "st_cursor (clamp_cursor st)"
  have ok: "stream_ok ?st" using assms(1) by (rule clamp_cursor_ok)
  have e: "?t \<le> computed_end ?st" using ok assms(2) by (auto simp: stream_defs max_def split: if_splits)
  obtain a where a: "generate_attestation kc sg ?t ?st = Inr a" "produced_for kc ?st ?t a"
    using generate_attestation_ok [OF ok assms(2) e] by blast
  have hi: "unat ?t \<le> unat (ai_height (st_prev ?st)) + length (st_cache ?st)" "?t > ai_height (st_prev ?st)"
    using ok e assms(2) by (auto simp: stream_defs word_le_nat_alt word_less_nat_alt)
  then have ne: "st_cache ?st \<noteq> []" by (auto simp: word_less_nat_alt)
  have due: "saturating_add (ai_height (st_prev ?st)) (st_interval ?st) \<le> ?t"
    using assms(2) by (auto simp: clamp_cursor_def split: if_splits)
  let ?st' = "?st\<lparr>st_cursor := saturating_sub ?t (st_interval ?st)\<rparr>"
  have "ri_height (last (st_cache ?st)) \<ge> ?t" using last_cache(1) [OF ok ne] hi by (simp add: word_le_nat_alt)
  then have "poll_round kc sg st = Inl (Inr (Ready (Some a), ?st'))"
    using assms(2) ne a(1) by (simp add: poll_round_def Let_def)
  moreover have "saturating_sub ?t (st_interval ?st) \<le> ?t" by (simp add: word_le_nat_alt unat_saturating_sub)
  then have "stream_ok ?st'" using ok by (auto simp: stream_defs)
  moreover have "produced_for kc ?st' ?t a" using a(2) by (simp add: produced_for_def roots_below_def)
  ultimately show ?thesis using due hi(1) ne by (auto simp: round_ok_def)
qed

lemma poll_round_wait:
  assumes "stream_ok st" and "\<not> st_cursor (clamp_cursor st) > computed_start (clamp_cursor st)"
  shows "(\<exists>r st'. poll_round kc sg st = Inl (Inr (r, st')) \<and> round_ok kc r st') \<or>
    (\<exists>st1. poll_round kc sg st = Inr (advance st1) \<and> stream_ok (advance st1) \<and> next_target st1 \<le> st_tip st1 \<and>
      stream_ok st1 \<and> fetch_frame st1 = fetch_frame (clamp_cursor st) \<and>
      (st_tip st1 = st_tip st \<and> pending_input st1 = pending_input st \<or> pending_input st1 < pending_input st))"
proof (cases "\<not> st_fetching (clamp_cursor st) \<and> length (st_cache (clamp_cursor st)) > unat (st_max_catchup (clamp_cursor st))")
  case True
  have "stream_ok ((clamp_cursor st)\<lparr>st_waker := True\<rparr>)"
    using clamp_cursor_ok [OF assms(1)] by simp
  then show ?thesis using True assms(2) by (simp add: poll_round_def Let_def round_ok_def)
next
  case False
  let ?st = "clamp_cursor st" and ?n = "next_target (clamp_cursor st)"
  let ?f = "fetch_loop ?n (?st\<lparr>st_fetching := True\<rparr>) ::
    (('a, 'b, 'c) Attestation Poll \<times> StreamAttestation) + StreamAttestation"
  have "stream_ok (?st\<lparr>st_fetching := True\<rparr>)" using clamp_cursor_ok [OF assms(1)] by simp
  note f = fetch_loop_ok [OF this, of ?n, where 'a = "('a, 'b, 'c) Attestation"]
  have inp: "pending_input (?st\<lparr>st_fetching := True\<rparr>) = pending_input st" "st_tip ?st = st_tip st"
    by (simp_all add: clamp_cursor_def)
  show ?thesis
  proof (cases ?f)
    case (Inl q)
    obtain r st' where q: "q = (r, st')" by (cases q)
    show ?thesis using f Inl q False assms(2) by (auto simp: poll_round_def Let_def round_ok_def)
  next
    case (Inr st1)
    let ?s = "st1\<lparr>st_fetching := False\<rparr>"
    have ok: "stream_ok st1" and fr: "fetch_frame st1 = fetch_frame ?st" and t: "?n \<le> st_tip st1" and m: "\<not> missing_roots st1"
      and c: "st1 = ?st\<lparr>st_fetching := True\<rparr> \<or> pending_input st1 < pending_input st"
      using f Inr inp by (auto simp: fetch_frame_def)
    have s: "stream_ok ?s" "\<not> missing_roots ?s" "next_target ?s \<le> st_tip ?s"
      using ok m t fetch_frame_next [OF fr] by simp_all
    have "unat (st_max_catchup st1 + 1) = Suc (unat (st_max_catchup st1))"
      using ok by (simp add: stream_ok_def heights_fit_def unat_word_ariths)
    then have "poll_round kc sg st = Inr (advance ?s)"
      using Inr False assms(2) ok by (simp add: poll_round_def Let_def stream_ok_def)
    moreover have "st_tip ?s = st_tip st \<and> pending_input ?s = pending_input st \<or> pending_input ?s < pending_input st"
      using c inp by auto
    ultimately show ?thesis using advance_ok [OF s(1,3,2)] s(1,3) fr by (auto simp: fetch_frame_def)
  qed
qed

section \<open>Polling returns\<close>

text \<open>A round that reads nothing and goes on only moves the range.\<close>

lemma going_on_waits:
  assumes "stream_ok st" and "poll_round kc sg st = Inr st'"
  shows "\<not> st_cursor (clamp_cursor st) > computed_start (clamp_cursor st)"
proof
  assume "st_cursor (clamp_cursor st) > computed_start (clamp_cursor st)"
  from poll_round_yield [OF assms(1) this, of kc sg] assms(2) show False by auto
qed

lemma idle_round:
  assumes "stream_ok st" and "poll_round kc sg st = Inr st'" and "\<not> pending_input st' < pending_input st"
  shows "stream_ok st'" and "computed_start st' = computed_end st" and "computed_end st' = catchup_stop st"
    and "st_cursor st' = catchup_stop st" and "st_tip st' = st_tip st" and "pending_input st' = pending_input st"
    and "st_prev st' = st_prev st" and "st_interval st' = st_interval st" and "st_max_catchup st' = st_max_catchup st"
    and "unat (computed_end st) < unat (st_tip st)"
proof -
  note w = going_on_waits [OF assms(1,2)]
  obtain st1 where st1: "st' = advance st1" "stream_ok (advance st1)" "next_target st1 \<le> st_tip st1" "stream_ok st1"
      "fetch_frame st1 = fetch_frame (clamp_cursor st)" "st_tip st1 = st_tip st" "pending_input st1 = pending_input st"
    using poll_round_wait [OF assms(1) w, of kc sg] assms(2,3) by (auto simp: advance_def)
  have f: "computed_start st1 = computed_start st" "computed_end st1 = computed_end st" "st_prev st1 = st_prev st"
      "st_interval st1 = st_interval st" "st_max_catchup st1 = st_max_catchup st"
    using st1(5) by (simp_all add: fetch_frame_def clamp_cursor_def split: if_splits)
  then have "catchup_stop st1 = catchup_stop st" using st1(6) by (simp add: catchup_stop_def)
  then show "stream_ok st'" "computed_start st' = computed_end st" "computed_end st' = catchup_stop st"
    "st_cursor st' = catchup_stop st" "st_tip st' = st_tip st" "pending_input st' = pending_input st"
    "st_prev st' = st_prev st" "st_interval st' = st_interval st" "st_max_catchup st' = st_max_catchup st"
    using st1 f by (simp_all add: advance_def)
  show "unat (computed_end st) < unat (st_tip st)"
    using next_target_above [OF st1(4)] st1(3,6) f(2) by (simp add: word_le_nat_alt)
qed

text \<open>So after two such rounds the third one yields an attestation.\<close>

lemma third_round_returns:
  assumes "stream_ok st" and r1: "poll_round kc sg st = Inr st1" and i1: "\<not> pending_input st1 < pending_input st"
    and r2: "poll_round kc sg st1 = Inr st2" and i2: "\<not> pending_input st2 < pending_input st1"
  shows "\<exists>r. poll_round kc sg st2 = Inl r"
proof -
  note a = idle_round [OF assms(1) r1 i1]
  note b = idle_round [OF a(1) r2 i2]
  let ?due = "unat (ai_height (st_prev st)) + unat (st_interval st)"
  have stop: "unat (catchup_stop x) = min (unat (saturating_add (computed_start x) (st_max_catchup x))) (unat (st_tip x))" for x
    by (simp add: catchup_stop_def min_def word_le_nat_alt)
  have s1: "unat (catchup_stop st) < unat (st_tip st)" using b(10) a(3,5) by simp
  have d1: "?due \<le> unat (saturating_add (computed_start st) (st_max_catchup st))" by (rule unat_start_catchup(1) [OF assms(1)])
  have d2: "?due \<le> unat (saturating_add (computed_start st1) (st_max_catchup st1))"
    using unat_start_catchup(1) [OF a(1)] a(7,8) by simp
  have due1: "?due \<le> unat (catchup_stop st)" using stop [of st] s1 d1 by (simp split: if_splits)
  then have due: "?due \<le> unat (catchup_stop st1)" using stop [of st1] s1 d2 a(5) by simp
  have "clamp_cursor st1 = st1"
    using due1 unat_start_catchup(2) [OF a(1)] a by (simp add: clamp_cursor_def word_less_nat_alt)
  then have le: "unat (catchup_stop st) \<le> unat (computed_end st)"
    using going_on_waits [OF a(1) r2] a by (simp add: word_less_nat_alt)
  have "unat (computed_end st) < unat (saturating_add (computed_end st) (st_max_catchup st))"
    using assms(1) by (auto simp: stream_defs heights_fit_def unat_saturating_add word_less_nat_alt word_le_nat_alt)
  then have gt: "unat (catchup_stop st) < unat (catchup_stop st1)"
    using le stop [of st1] s1 a by simp
  have c: "clamp_cursor st2 = st2"
    using due unat_start_catchup(2) [OF b(1)] a b by (simp add: clamp_cursor_def word_less_nat_alt)
  have "st_cursor (clamp_cursor st2) > computed_start (clamp_cursor st2)"
    unfolding c using gt a b by (simp add: word_less_nat_alt)
  then show ?thesis using poll_round_yield [OF b(1), of kc sg] by blast
qed

text \<open>Fuel for three rounds and for three more for every answer that can be read is enough.\<close>

lemma poll_next_result:
  assumes "stream_ok st" and "3 * pending_input st + 3 \<le> fuel"
  shows "\<exists>r st'. poll_next fuel kc sg st = Some (Inr (r, st')) \<and> round_ok kc r st'"
  using assms
proof (induction "pending_input st" arbitrary: st fuel rule: less_induct)
  case less
  have ret: "\<exists>r st''. poll_next (Suc f) kc sg st' = Some (Inr (r, st'')) \<and> round_ok kc r st''"
    if "stream_ok st'" "poll_round kc sg st' = Inl x" for f st' x
    using poll_round_yield [OF that(1), of kc sg] poll_round_wait [OF that(1), of kc sg] that(2)
    by (fastforce simp: round_ok_def)
  have ok: "stream_ok st'" if "stream_ok s" "poll_round kc sg s = Inr st'" for s st'
    using poll_round_wait [OF that(1) going_on_waits [OF that], of kc sg] that(2) by auto
  have ih: "\<exists>r st''. poll_next f kc sg st' = Some (Inr (r, st'')) \<and> round_ok kc r st''"
    if "stream_ok st'" "pending_input st' < pending_input st" "3 * pending_input st \<le> f" for f st'
    using less.hyps [OF that(2) that(1), of f] that(2,3) by (auto simp: round_ok_def)
  obtain f where f: "fuel = Suc (Suc (Suc f))" "3 * pending_input st \<le> f"
    using less.prems(2) by (metis Suc3_eq_add_3 add.commute le_Suc_ex add_le_cancel_left le_add2 add_leE)
  show ?case
  proof (cases "poll_round kc sg st")
    case (Inl x)
    then show ?thesis using ret [OF less.prems(1) Inl] f(1) by simp
  next
    case r1: (Inr st1)
    note ok1 = ok [OF less.prems(1) r1]
    show ?thesis
    proof (cases "pending_input st1 < pending_input st")
      case True
      then show ?thesis using ih [OF ok1 True, of "Suc (Suc f)"] f r1 by simp
    next
      case i1: False
      show ?thesis
      proof (cases "poll_round kc sg st1")
        case (Inl x)
        then show ?thesis using ret [OF ok1 Inl] f(1) r1 by simp
      next
        case r2: (Inr st2)
        note ok2 = ok [OF ok1 r2] and p1 = idle_round(6) [OF less.prems(1) r1 i1]
        show ?thesis
        proof (cases "pending_input st2 < pending_input st1")
          case True
          then show ?thesis using ih [OF ok2, of "Suc f"] f r1 r2 p1 by simp
        next
          case False
          then obtain x where "poll_round kc sg st2 = Inl x"
            using third_round_returns [OF less.prems(1) r1 i1 r2] by blast
          then show ?thesis using ret [OF ok2] f(1) r1 r2 by simp
        qed
      qed
    qed
  qed
qed

lemma poll_next_keeps:
  "poll_next fuel kc sg st = Some (Inr (r, st')) \<Longrightarrow> stream_ok st \<Longrightarrow> round_ok kc r st'"
proof (induction fuel arbitrary: st)
  case (Suc fuel)
  show ?case
  proof (cases "poll_round kc sg st")
    case (Inl x)
    then show ?thesis
      using Suc.prems poll_round_yield [OF Suc.prems(2), of kc sg] poll_round_wait [OF Suc.prems(2), of kc sg] by fastforce
  next
    case (Inr st1)
    have "stream_ok st1"
      using poll_round_wait [OF Suc.prems(2) going_on_waits [OF Suc.prems(2) Inr], of kc sg] Inr by auto
    then show ?thesis using Suc.IH Suc.prems(1) Inr by simp
  qed
qed simp

section \<open>Runs of the stream\<close>

text \<open>A stream of roots that is reset starts at the height it is reset to.\<close>

definition resets_follow :: "(AttestationInfo \<Rightarrow> RootInfo Poll list) \<Rightarrow> bool" where
  "resets_follow reset_roots \<longleftrightarrow> (\<forall>info. \<exists>p \<le> unat (ai_height info). upcoming p (reset_roots info))"

definition stream_init :: "StreamAttestation \<Rightarrow> bool" where
  "stream_init st \<longleftrightarrow> (\<exists>config p. st = stream_new config \<and> 0 < cf_attestation_interval config \<and>
    heights_fit (ai_height (cf_attestation_prev config)) (st_max_catchup st) (cf_attestation_interval config) \<and>
    p \<le> Suc (unat (ai_height (cf_attestation_prev config))) \<and> upcoming p (cf_stream_roots config))"

inductive stream_step ::
  "keccak \<Rightarrow> ('id, 'sr, 'bs) Signer \<Rightarrow> (AttestationInfo \<Rightarrow> RootInfo Poll list) \<Rightarrow> (AttestationInfo \<Rightarrow> u64 Poll list) \<Rightarrow>
   StreamAttestation \<Rightarrow> StreamAttestation \<Rightarrow> bool"
  for kc :: keccak and sg :: "('id, 'sr, 'bs) Signer" and rr :: "AttestationInfo \<Rightarrow> RootInfo Poll list"
    and rt :: "AttestationInfo \<Rightarrow> u64 Poll list" where
  arrival: "roots_follow (st\<lparr>st_roots := st_roots st @ rs\<rparr>) \<Longrightarrow>
    stream_step kc sg rr rt st (st\<lparr>st_roots := st_roots st @ rs, st_tips := st_tips st @ ts\<rparr>)"
| polling: "poll_next fuel kc sg st = Some (Inr (r, st')) \<Longrightarrow> stream_step kc sg rr rt st st'"
| finalization: "heights_fit (ai_height info) (st_max_catchup st) (st_interval st) \<Longrightarrow>
    stream_step kc sg rr rt st (fst (stream_note_attestation_finalization info st))"
| interval_change: "0 < interval \<Longrightarrow> heights_fit (ai_height (st_prev st)) (align_catchup (st_max_catchup st) interval) interval \<Longrightarrow>
    stream_step kc sg rr rt st (stream_note_attestation_interval_change rr rt interval st)"
| catchup_change: "heights_fit (ai_height (st_prev st)) (align_catchup catchup (st_interval st)) (st_interval st) \<Longrightarrow>
    stream_step kc sg rr rt st (stream_note_max_catchup_change rr rt catchup st)"
| reversion: "heights_fit (ai_height info) (align_catchup (st_max_catchup st) (st_interval st)) (st_interval st) \<Longrightarrow>
    stream_step kc sg rr rt st (stream_note_attestation_chain_reversion rr rt info st)"

lemma align_catchup_bounds:
  assumes "0 < i"
  shows "i \<le> align_catchup c i" and "unat (align_catchup c i) \<le> max (unat c) (unat i)"
proof -
  have i: "0 < unat i" using assms by (simp add: word_less_nat_alt)
  have "unat c \<le> 2 ^ 64 - 1" using unat_less_2p [of c] by simp
  then have le: "unat i * (unat c div unat i) \<le> 2 ^ 64 - 1" by (rule order_trans [rotated]) simp
  have "unat i \<le> 2 ^ 64 - 1" using unat_less_2p [of i] by simp
  then have u: "unat (align_catchup c i) = (if unat c div unat i = 0 then unat i else unat i * (unat c div unat i))"
    using le by (auto simp: align_catchup_def Let_def unat_saturating_mul unat_div word_unat_eq_iff min_def)
  then show "unat (align_catchup c i) \<le> max (unat c) (unat i)" by (simp add: le_max_iff_disj)
  show "i \<le> align_catchup c i" using u by (simp add: word_le_nat_alt)
qed

lemma stream_new_ok:
  assumes "0 < cf_attestation_interval c" and "p \<le> Suc (unat (ai_height (cf_attestation_prev c)))" and "upcoming p (cf_stream_roots c)"
    and "heights_fit (ai_height (cf_attestation_prev c)) (st_max_catchup (stream_new c)) (cf_attestation_interval c)"
  shows "stream_ok (stream_new c)"
  using assms align_catchup_bounds(1) [OF assms(1)] by (auto simp: stream_defs stream_new_def cache_from_def)

lemma finalization_ok:
  assumes "stream_ok st" and "heights_fit (ai_height info) (st_max_catchup st) (st_interval st)"
  shows "stream_ok (fst (stream_note_attestation_finalization info st))"
proof (cases "ai_height (st_prev st) \<le> ai_height info")
  case True
  let ?h = "unat (ai_height (st_prev st))" and ?g = "unat (ai_height info)" and ?c = "st_cache st"
  have le: "?h \<le> ?g" using True by (simp add: word_le_nat_alt)
  have c: "st_cache (fst (stream_note_attestation_finalization info st)) = drop (?g - ?h) ?c"
  proof (cases ?c)
    case (Cons x xs)
    then have x: "unat (ri_height x) = Suc ?h" using last_cache(2) [OF assms(1)] by simp
    show ?thesis using True le x Cons by (auto simp: stream_note_attestation_finalization_def Let_def word_le_nat_alt min_def Suc_diff_le drop_Cons')
  qed (use True in \<open>simp add: stream_note_attestation_finalization_def Let_def\<close>)
  have "cache_from ?g (drop (?g - ?h) ?c)" using assms(1) le by (auto simp: stream_ok_def cache_from_def)
  moreover have "unat (max (ai_height info) (computed_end st)) \<le> ?g + length (drop (?g - ?h) ?c)"
    using assms(1) le by (auto simp: stream_defs max_def word_le_nat_alt)
  moreover obtain p where p: "upcoming p (st_roots st)" "if ?c = [] then p \<le> Suc ?h else p = Suc (?h + length ?c)"
    using assms(1) unfolding stream_defs by blast
  moreover have "if drop (?g - ?h) ?c = [] then p \<le> Suc ?g else p = Suc (?g + length (drop (?g - ?h) ?c))"
    using p(2) le by (cases "length ?c \<le> ?g - ?h") (auto split: if_splits)
  ultimately show ?thesis using assms True c
    by (auto simp: stream_defs stream_note_attestation_finalization_def Let_def)
qed (use assms in \<open>simp add: stream_note_attestation_finalization_def\<close>)

lemma next_info_height: "heights_fit h c i \<Longrightarrow> unat (h + 1) = Suc (unat h)"
  by (simp add: heights_fit_def unat_word_ariths)

lemma rebuilt_ok:
  assumes "resets_follow rr" and "0 < cf_attestation_interval c" and "cf_stream_roots c = rr i"
    and "unat (ai_height i) \<le> Suc (unat (ai_height (cf_attestation_prev c)))"
    and "heights_fit (ai_height (cf_attestation_prev c)) (st_max_catchup (stream_new c)) (cf_attestation_interval c)"
  shows "stream_ok (stream_new c)"
proof -
  obtain p where "p \<le> unat (ai_height i)" "upcoming p (rr i)" using assms(1) unfolding resets_follow_def by blast
  then show ?thesis using assms by (intro stream_new_ok [of c p]) auto
qed

lemma stream_step_ok:
  assumes "stream_step kc sg rr rt st st'" and "resets_follow rr" and "stream_ok st"
  shows "stream_ok st'"
  using assms(1)
proof cases
  case (arrival rs ts)
  then show ?thesis using assms(3) by (auto simp: stream_defs)
next
  case (polling fuel r)
  then show ?thesis using poll_next_keeps assms(3) unfolding round_ok_def by blast
next
  case (finalization info)
  then show ?thesis using assms(3) finalization_ok by blast
next
  case (interval_change interval)
  note h = next_info_height [OF interval_change(3)]
  show ?thesis unfolding interval_change(1) stream_note_attestation_interval_change_def Let_def
    by (rule rebuilt_ok [OF assms(2), where i = "next_info (st_prev st)"])
      (use interval_change h in \<open>simp_all add: stream_config_def stream_new_def next_info_def\<close>)
next
  case (catchup_change catchup)
  note h = next_info_height [OF catchup_change(2)]
  show ?thesis unfolding catchup_change(1) stream_note_max_catchup_change_def Let_def
    by (rule rebuilt_ok [OF assms(2), where i = "next_info (st_prev st)"])
      (use catchup_change assms(3) h in \<open>simp_all add: stream_config_def stream_new_def next_info_def stream_ok_def\<close>)
next
  case (reversion info)
  show ?thesis unfolding reversion(1) stream_note_attestation_chain_reversion_def stream_reset_def
    by (rule rebuilt_ok [OF assms(2), where i = info])
      (use reversion assms(3) in \<open>simp_all add: stream_config_def stream_new_def stream_ok_def\<close>)
qed

lemma stream_init_ok: "stream_init st \<Longrightarrow> stream_ok st"
  unfolding stream_init_def using stream_new_ok by blast

interpretation stream_sys: invariant_system stream_init
  "\<lambda>st st'. resets_follow rr \<and> stream_step kc sg rr rt st st'" stream_ok
  by unfold_locales (blast intro: stream_init_ok stream_step_ok)+

lemma stream_reachable_ok:
  assumes "resets_follow rr" and "stream_init st0" and "(stream_step kc sg rr rt)\<^sup>*\<^sup>* st0 st"
  shows "stream_ok st"
  using stream_sys.reachable_inv [OF assms(2), of rr kc sg rt st] assms(1,3) by simp

end
