(* ===== verification/StreamAcceptance.thy ===== *)
theory StreamAcceptance
  imports AttestationStream AttestationInv
begin

text \<open>The properties of the attestation stream: it never panics and its cache stays bounded, whatever
  arrives and whatever is finalized; polling always returns; and the attestations that it produces
  pass the continuity check of the pallet as long as both agree on the last finalized attestation.\<close>

section \<open>Safety\<close>

text \<open>C15: Whatever arrives, is finalized, is reverted or changes its parameters, polling the stream
  returns without a panic, and never more than one root above the maximal catch-up is cached.\<close>

theorem polling_never_panics:
  assumes "resets_follow rr" and "stream_init st0" and "(stream_step kc sg rr rt)\<^sup>*\<^sup>* st0 st"
    and "3 * pending_input st + 3 \<le> fuel"
  shows "\<exists>r st'. poll_next fuel kc sg st = Some (Inr (r, st')) \<and> length (st_cache st') \<le> Suc (unat (st_max_catchup st'))"
  using poll_next_result [OF stream_reachable_ok [OF assms(1-3)] assms(4), of kc sg] unfolding round_ok_def stream_ok_def by blast

section \<open>The pallet accepts what is produced\<close>

text \<open>The attestation that the pallet extends next.\<close>

definition finalized_tip :: "('c, 'z) StoreState_scheme \<Rightarrow> ChainKey \<Rightarrow> AttestationInfo \<Rightarrow> bool" where
  "finalized_tip s k info \<longleftrightarrow> last_digest s k = Some (ai_digest info) \<and>
    (case get_attestation s k (ai_digest info) of
       Some a \<Rightarrow> sa_header_number a = ai_height info
     | None \<Rightarrow> LastCheckpoint s k = Some \<lparr>cp_block_number = ai_height info, cp_digest = ai_digest info\<rparr>)"

lemma finalized_tip_linked: "finalized_tip s k info \<Longrightarrow> linked_header s k (ai_digest info) e = Inr (ai_height info)"
  by (auto simp: finalized_tip_def linked_header_def split: option.splits)

lemma digest_chain_nonzero:
  "0 \<notin> kc ` chain_inputs kc n d rs \<Longrightarrow> d \<noteq> 0 \<Longrightarrow> digest_chain kc n d rs \<noteq> 0"
  by (induction rs arbitrary: n d) (auto simp: hash_payload_alt)

lemma produced_is_accepted:
  assumes "produced_for kc st t a" and "attestation x = ua_data a" and "continuity_proof x = ua_continuity_proof a"
    and "finalized_tip s (st_chain_key st) (st_prev st)"
    and "ai_height (st_prev st) < t" and "unat t \<le> unat (ai_height (st_prev st)) + length (st_cache st)"
    and "attestation_chain_genesis_block_number cfg s (st_chain_key st) \<le> ai_height (st_prev st)"
    and "length (st_cache st) \<le> Suc (as_usize w (max (ucast (max_catchup cfg s (st_chain_key st))) (chain_attestation_interval cfg s (st_chain_key st))))"
    and "0 \<notin> kc ` chain_inputs kc (ai_height (st_prev st) + 1) (ai_digest (st_prev st)) (roots (continuity_proof x))"
    and "ai_digest (st_prev st) \<noteq> 0"
  shows "validate_attestation_continuity w kc cfg s x = Inr ()"
proof -
  let ?k = "st_chain_key st" and ?i = "st_prev st" and ?rs = "roots_below st t"
  have x: "sa_chain_key x = ?k" "sa_header_number x = t" "roots (continuity_proof x) = ?rs"
      "sa_prev_digest x = Some (digest_chain kc (ai_height ?i + 1) (ai_digest ?i) ?rs)"
      "?rs \<noteq> [] \<Longrightarrow> lower_endpoint_digest (continuity_proof x) = ai_digest ?i"
    using assms(1-3) by (auto simp: produced_for_def sa_chain_key_def sa_header_number_def sa_prev_digest_def)
  have lt: "unat (ai_height ?i) < unat t" using assms(5) by (simp add: word_less_nat_alt)
  have len: "length ?rs = unat t - Suc (unat (ai_height ?i))" using assms(6) by (simp add: roots_below_def)
  have succ: "unat (ai_height ?i + 1) = Suc (unat (ai_height ?i))"
    using lt unat_less_2p [of t] by (simp add: unat_word_ariths)
  have gen: "t \<noteq> attestation_chain_genesis_block_number cfg s ?k" using assms(5,7) by auto
  have nz: "digest_chain kc (ai_height ?i + 1) (ai_digest ?i) ?rs \<noteq> 0" using assms(9,10) unfolding x(3) by (rule digest_chain_nonzero)
  have last: "last_digest s ?k = Some (ai_digest ?i)" using assms(4) by (simp add: finalized_tip_def)
  note linked = finalized_tip_linked [OF assms(4)]
  show ?thesis
  proof (cases "?rs = []")
    case True
    then have "t = ai_height ?i + 1" using len lt succ by (simp add: word_unat_eq_iff)
    then show ?thesis using True gen nz last linked
      by (simp add: validate_attestation_continuity_def Let_def x)
  next
    case False
    have "unat (len64 ?rs) = length ?rs" using len unat_less_2p [of t] by (intro unat_len64) simp
    then have start: "start_block_number (continuity_proof x) t = ai_height ?i + 1"
      using len lt succ by (simp add: start_block_number_def word_unat_eq_iff unat_saturating_sub x(3) len64_def)
    have "checked_sub (ai_height ?i + 1) 1 = Some (ai_height ?i)"
      using succ by (simp add: checked_sub_Some)
    then show ?thesis using False gen nz last linked assms(6,8) len start
      by (simp add: validate_attestation_continuity_def Let_def x tail_prev_digest_def compute_continuity_digest_chain)
  qed
qed

text \<open>C5: As long as the stream and the pallet agree on the last finalized attestation and on the
  parameters of the chain, every attestation that the stream produces is at least an interval
  above the last one and passes the continuity check of the pallet.  The last finalized attestation
  is at or above the genesis block of the chain, the maximal catch-up and the interval fit \<open>usize\<close>,
  and since the pallet takes a zero digest for a missing one, the digest of the last attestation
  is not zero and Keccak does not give zero on the payloads of the continuity proof.\<close>

theorem produced_attestations_accepted:
  assumes "resets_follow rr" and "stream_init st0" and "(stream_step kc sg rr rt)\<^sup>*\<^sup>* st0 st"
    and "poll_next fuel kc sg st = Some (Inr (Ready (Some a), st'))"
    and "attestation x = ua_data a" and "continuity_proof x = ua_continuity_proof a"
    and "k = st_chain_key st'" and "finalized_tip s k (st_prev st')"
    and "st_interval st' = chain_attestation_interval cfg s k"
    and "st_max_catchup st' = align_catchup (ucast (max_catchup cfg s k)) (chain_attestation_interval cfg s k)"
    and "unat (max (ucast (max_catchup cfg s k)) (chain_attestation_interval cfg s k)) < 2 ^ w"
    and "attestation_chain_genesis_block_number cfg s k \<le> ai_height (st_prev st')"
    and "0 \<notin> kc ` chain_inputs kc (ai_height (st_prev st') + 1) (ai_digest (st_prev st')) (roots (continuity_proof x))"
    and "ai_digest (st_prev st') \<noteq> 0"
  shows "validate_attestation_continuity w kc cfg s x = Inr () \<and>
    saturating_add (ai_height (st_prev st')) (chain_attestation_interval cfg s k) \<le> sa_header_number x"
proof -
  note r = poll_next_keeps [OF assms(4) stream_reachable_ok [OF assms(1-3)]]
  then have ok: "stream_ok st'" by (simp add: round_ok_def)
  obtain t where t: "produced_for kc st' t a" "saturating_add (ai_height (st_prev st')) (st_interval st') \<le> t"
      "unat t \<le> unat (ai_height (st_prev st')) + length (st_cache st')"
    using r by (auto simp: round_ok_def)
  have i: "0 < chain_attestation_interval cfg s k" using ok assms(9) by (simp add: stream_ok_def)
  have "unat (st_max_catchup st') \<le> as_usize w (max (ucast (max_catchup cfg s k)) (chain_attestation_interval cfg s k))"
    using align_catchup_bounds(2) [OF i, of "ucast (max_catchup cfg s k)"] assms(10,11)
    by (simp add: as_usize_def max_def word_le_nat_alt split: if_splits)
  then have "length (st_cache st') \<le> Suc (as_usize w (max (ucast (max_catchup cfg s k)) (chain_attestation_interval cfg s k)))"
    using ok by (simp add: stream_ok_def)
  moreover have "ai_height (st_prev st') < t"
    using t(2) unat_start_catchup(2) [OF ok] i assms(9) by (simp add: word_le_nat_alt word_less_nat_alt)
  ultimately have "validate_attestation_continuity w kc cfg s x = Inr ()"
    using produced_is_accepted [OF t(1) assms(5,6)] t(3) assms(7,8,12-14) by blast
  moreover have "sa_header_number x = t" using t(1) assms(5) by (simp add: produced_for_def sa_header_number_def)
  ultimately show ?thesis using t(2) assms(9) by simp
qed

text \<open>A change of the interval starts from the aligned maximal catch-up, not from the configured one: after
  a large interval the stream does not return to the configured bound.\<close>

theorem interval_change_loses_catchup:
  assumes "cf_max_catchup c = 500" and "cf_attestation_interval c = 10"
  shows "st_max_catchup (stream_new c) = 500"
    and "st_max_catchup (stream_note_attestation_interval_change rr rt 10
      (stream_note_attestation_interval_change rr rt 300 (stream_new c))) = 300"
  using assms by (simp_all add: stream_new_def stream_note_attestation_interval_change_def stream_config_def align_catchup_def Let_def
      saturating_mul_def)

section \<open>An example\<close>

text \<open>The stream of a chain with an interval of two: two roots above the checkpoint at height 0, and the
  tip at the second.\<close>

definition example_root :: "u64 \<Rightarrow> RootInfo" where
  "example_root n = \<lparr>ri_height = n, ri_root = 4, ri_hash = 0\<rparr>"

definition example_state :: "RootInfo Poll list \<Rightarrow> u64 Poll list \<Rightarrow> bool \<Rightarrow> RootInfo list \<Rightarrow> u64 \<Rightarrow> u64 \<Rightarrow> u64 \<Rightarrow> StreamAttestation" where
  "example_state rs ts fetching cache stop newest cur =
    \<lparr>st_chain_key = 7, st_roots = rs, st_tips = ts, st_fetching = fetching, st_cache = cache, st_max_catchup = 1000, st_interval = 2,
     st_prev = \<lparr>ai_height = 0, ai_digest = 5\<rparr>, computed_start = 0, computed_end = stop, st_tip = newest, st_cursor = cur,
     st_waker = False\<rparr>"

definition example_stream :: StreamAttestation where
  "example_stream = stream_new \<lparr>cf_chain_key = 7,
     cf_stream_roots = [Ready (Some (example_root 1)), Ready (Some (example_root 2))],
     cf_stream_tip = [Ready (Some 2)], cf_attestation_interval = 2,
     cf_attestation_prev = \<lparr>ai_height = 0, ai_digest = 5\<rparr>, cf_max_catchup = 1000\<rparr>"

definition example_signer :: "(unit, unit, unit) Signer" where
  "example_signer = \<lparr>attestor_id = (), sign_sr = (\<lambda>_. ()), sign_bls = (\<lambda>_. ())\<rparr>"

definition example_produced :: "(unit, unit, unit) Attestation" where
  "example_produced = \<lparr>
     ua_data = \<lparr>att_chain_key = 7, att_header_number = 2, att_header_hash = 0, att_root = 4, att_prev_digest = Some 77\<rparr>,
     ua_attestor = (), ua_signature = (), ua_signature_bls = (),
     ua_continuity_proof = \<lparr>lower_endpoint_digest = 5, roots = [4]\<rparr>\<rparr>"

definition example_interval_store :: "lock_table StoreState" where
  "example_interval_store = example_store\<lparr>ChainAttestationInterval := [7 \<mapsto> 2]\<rparr>"

lemma example_resets: "resets_follow (\<lambda>_. [])"
  by (auto simp: resets_follow_def)

lemma example_stream_state:
  "example_stream = example_state [Ready (Some (example_root 1)), Ready (Some (example_root 2))] [Ready (Some 2)] False [] 0 0 0"
  by (simp add: example_stream_def example_state_def stream_new_def align_catchup_def Let_def saturating_mul_def)

lemma example_stream_init: "stream_init example_stream"
  unfolding stream_init_def
proof (intro exI conjI)
  show "example_stream = stream_new \<lparr>cf_chain_key = 7,
     cf_stream_roots = [Ready (Some (example_root 1)), Ready (Some (example_root 2))],
     cf_stream_tip = [Ready (Some 2)], cf_attestation_interval = 2,
     cf_attestation_prev = \<lparr>ai_height = 0, ai_digest = 5\<rparr>, cf_max_catchup = 1000\<rparr>" by (rule example_stream_def)
qed (simp_all add: example_stream_state example_state_def heights_fit_def example_root_def)

lemma example_fetch_1:
  "fetch_loop 2 (example_state [Ready (Some (example_root 1)), Ready (Some (example_root 2))] [Ready (Some 2)] True [] 0 0 0) =
    fetch_loop 2 (example_state [Ready (Some (example_root 2))] [] True [example_root 1] 0 2 0)"
  by (subst fetch_loop.simps)
    (simp add: poll_roots_def poll_tip_def poll_stream_def has_space_left_def example_state_def example_root_def)

lemma example_fetch_2:
  "fetch_loop 2 (example_state [Ready (Some (example_root 2))] [] True [example_root 1] 0 2 0) =
    fetch_loop 2 (example_state [] [] True [example_root 1, example_root 2] 0 2 0)"
  by (subst fetch_loop.simps)
    (simp add: poll_roots_def poll_tip_def poll_stream_def has_space_left_def missing_roots_def catchup_stop_def
      saturating_add_def example_state_def example_root_def)

lemma example_fetch_3:
  "fetch_loop 2 (example_state [] [] True [example_root 1, example_root 2] 0 2 0) =
    Inr (example_state [] [] True [example_root 1, example_root 2] 0 2 0)"
  by (subst fetch_loop.simps)
    (simp add: missing_roots_def catchup_stop_def saturating_add_def example_state_def example_root_def)

lemma example_round_1:
  "poll_round kc sg example_stream = Inr (example_state [] [] False [example_root 1, example_root 2] 2 2 2)"
proof -
  let ?st = "example_state [Ready (Some (example_root 1)), Ready (Some (example_root 2))] [Ready (Some 2)] False [] 0 0 0"
  have c: "clamp_cursor ?st = ?st" by (simp add: clamp_cursor_def saturating_add_def example_state_def)
  have n: "next_target ?st = 2" by (simp add: next_target_def saturating_add_def example_state_def)
  have f: "?st\<lparr>st_fetching := True\<rparr> =
      example_state [Ready (Some (example_root 1)), Ready (Some (example_root 2))] [Ready (Some 2)] True [] 0 0 0"
    by (simp add: example_state_def)
  have g: "\<not> st_cursor ?st > computed_start ?st" "st_cache ?st = []" by (simp_all add: example_state_def)
  show ?thesis unfolding example_stream_state poll_round_def c Let_def n f example_fetch_1 example_fetch_2 example_fetch_3
    using g by (simp add: advance_def catchup_stop_def saturating_add_def) (simp add: example_state_def)
qed

lemma example_round_2:
  "poll_round (\<lambda>_. 77) example_signer (example_state [] [] False [example_root 1, example_root 2] 2 2 2) =
    Inl (Inr (Ready (Some example_produced), example_state [] [] False [example_root 1, example_root 2] 2 2 0))"
  by (simp add: poll_round_def clamp_cursor_def saturating_add_def saturating_sub_def generate_attestation_def Let_def
      example_state_def example_root_def push_block_def Block_new_from_prev_digest_def from_blocks_def sign_attestation_def
      example_signer_def example_produced_def compute_continuity_digest_def hash_payload_def compute_digest_for_def)

lemma example_poll:
  "poll_next 12 (\<lambda>_. 77) example_signer example_stream =
    Some (Inr (Ready (Some example_produced), example_state [] [] False [example_root 1, example_root 2] 2 2 0))"
  by (simp add: numeral_eq_Suc example_round_1 example_round_2)

theorem polling_never_panics_witness:
  "\<exists>r st'. poll_next 12 (\<lambda>_. 77) example_signer example_stream = Some (Inr (r, st')) \<and>
    length (st_cache st') \<le> Suc (unat (st_max_catchup st'))"
  by (rule polling_never_panics [OF example_resets example_stream_init rtranclp.rtrancl_refl [of "stream_step _ _ _ (\<lambda>_. [])"]])
    (simp add: example_stream_state example_state_def)

lemma example_interval_params:
  "max_catchup example_pallet_config example_interval_store 7 = 1000"
  "chain_attestation_interval example_pallet_config example_interval_store 7 = 2"
  "attestation_chain_genesis_block_number example_pallet_config example_interval_store 7 = 0"
proof -
  have "max_catchup example_pallet_config example_interval_store 7 = max_catchup example_pallet_config example_store 7"
    by (simp add: max_catchup_def example_interval_store_def del: example_store_simps)
  then show "max_catchup example_pallet_config example_interval_store 7 = 1000" by simp
  have "attestation_chain_genesis_block_number example_pallet_config example_interval_store 7 =
      attestation_chain_genesis_block_number example_pallet_config example_store 7"
    by (simp add: attestation_chain_genesis_block_number_def example_interval_store_def del: example_store_simps)
  then show "attestation_chain_genesis_block_number example_pallet_config example_interval_store 7 = 0" by simp
  show "chain_attestation_interval example_pallet_config example_interval_store 7 = 2"
    by (simp add: chain_attestation_interval_def example_interval_store_def map_get_def)
qed

lemma example_finalized_tip: "finalized_tip example_interval_store 7 \<lparr>ai_height = 0, ai_digest = 5\<rparr>"
  by (simp add: finalized_tip_def last_digest_def get_attestation_def attestations_stable_def example_interval_store_def)

theorem produced_attestations_accepted_witness:
  "validate_attestation_continuity 32 (\<lambda>_. 77) example_pallet_config example_interval_store
    \<lparr>attestation = ua_data example_produced, signature = 1, attestors = [2], continuity_proof = ua_continuity_proof example_produced\<rparr> = Inr ()"
    (is "validate_attestation_continuity 32 ?kc ?cfg ?s ?x = _")
proof -
  let ?st = "example_state [] [] False [example_root 1, example_root 2] 2 2 0"
  have "validate_attestation_continuity 32 ?kc ?cfg ?s ?x = Inr () \<and>
      saturating_add (ai_height (st_prev ?st)) (chain_attestation_interval ?cfg ?s 7) \<le> sa_header_number ?x"
    by (rule produced_attestations_accepted [OF example_resets example_stream_init
          rtranclp.rtrancl_refl [of "stream_step _ _ _ (\<lambda>_. [])"] example_poll])
      (simp_all add: example_state_def example_interval_params example_finalized_tip align_catchup_def saturating_mul_def
        image_constant_conv)
  then show ?thesis ..
qed

end
