(* ===== verification/Archiver.thy ===== *)
theory Archiver
  imports Prelude
begin

text \<open>The root store of the archiver (\<open>archiver/src/store.rs\<close>) and the reconciliation of its tail
  with the source chain (\<open>archiver/src/anchor.rs\<close>).

  The key-value tree of sled is an ordered association list from heights to values; its keys are
  the big-endian bytes of the heights, whose lexicographic order is the order of the heights
  (\<open>be_key_order\<close>).  The values are the bytes that the store writes, in the layout with and the one
  without a block hash.  The metadata tree is the two fields that the store keeps there.  Errors
  of the disk are not modelled, nor is the allocation of the vector that \<open>get_range\<close> reserves for the
  whole range, which panics for ranges of more than about \<open>2 ^ 56\<close> heights.  The fetch of a canonical
  block hash is a parameter; each height is fetched at most once, so it is a function of the height.

  The properties are that a write never changes the root or the known hash of a stored height,
  that the gaps reported for a range are exactly the heights that are missing, and that the
  reconciliation leaves a tip that is on the canonical chain.\<close>

section \<open>Values\<close>

record StoredRoot =
  sr_root :: H256
  sr_block_hash :: H256

datatype StoreError =
    ReorgDetected u64 H256 H256 H256 H256
  | ChainIdMismatch u64 u64
  | AnchorMismatch u64 H256 H256
  | InvalidStoredLength nat

text \<open>\<open>H256::from_slice\<close>: the bytes of a hash, most significant first.\<close>

fun from_le :: "bytes \<Rightarrow> H256" where
  "from_le [] = 0"
| "from_le (b # bs) = or (ucast b) (push_bit 8 (from_le bs))"

definition from_slice :: "bytes \<Rightarrow> H256" where
  "from_slice bs = from_le (rev bs)"

definition encode_value :: "H256 \<Rightarrow> H256 \<Rightarrow> bytes" where
  "encode_value root block_hash = as_bytes root @ as_bytes block_hash"

definition parse_stored :: "bytes \<Rightarrow> StoreError + StoredRoot" where
  "parse_stored value =
    (if length value = 64 then Inr \<lparr>sr_root = from_slice (take 32 value), sr_block_hash = from_slice (drop 32 value)\<rparr>
     else if length value = 32 then Inr \<lparr>sr_root = from_slice value, sr_block_hash = 0\<rparr>
     else Inl (InvalidStoredLength (length value)))"

section \<open>The store\<close>

type_synonym tree = "(u64 \<times> bytes) list"

fun tree_insert :: "u64 \<Rightarrow> bytes \<Rightarrow> tree \<Rightarrow> tree" where
  "tree_insert k v [] = [(k, v)]"
| "tree_insert k v ((a, b) # t) =
    (if k < a then (k, v) # (a, b) # t else if k = a then (k, v) # t else (a, b) # tree_insert k v t)"

record RootStore =
  db :: tree
  meta_count :: "u64 option"
  meta_chain_id :: "u64 option"
  entry_count :: u64

definition store_open :: "tree \<Rightarrow> u64 option \<Rightarrow> u64 option \<Rightarrow> RootStore" where
  "store_open t stored_count stored_chain_id =
    (let initial_count = (case stored_count of Some n \<Rightarrow> n | None \<Rightarrow> len64 t) in
     \<lparr>db = t, meta_count = Some initial_count, meta_chain_id = stored_chain_id, entry_count = initial_count\<rparr>)"

definition archive_chain_id :: "RootStore \<Rightarrow> u64 option" where
  "archive_chain_id s = meta_chain_id s"

definition pin_chain_id :: "u64 \<Rightarrow> RootStore \<Rightarrow> StoreError + u64 option \<times> RootStore" where
  "pin_chain_id live s =
    (case archive_chain_id s of
       Some stored \<Rightarrow> if stored \<noteq> live then Inl (ChainIdMismatch stored live) else Inr (Some stored, s)
     | None \<Rightarrow> Inr (None, s\<lparr>meta_chain_id := Some live\<rparr>))"

fun put_loop :: "tree \<Rightarrow> (u64 \<times> H256 \<times> H256) list \<Rightarrow> StoreError + nat \<times> (u64 \<times> bytes) list" where
  "put_loop t [] = Inr (0, [])"
| "put_loop t ((height, incoming_root, incoming_hash) # rows) =
    (case map_of t height of
       Some value \<Rightarrow>
         and_then (parse_stored value) (\<lambda>existing.
         let hash_conflict = (sr_block_hash existing \<noteq> 0 \<and> incoming_hash \<noteq> 0 \<and> sr_block_hash existing \<noteq> incoming_hash) in
         ensure (sr_root existing = incoming_root \<and> \<not> hash_conflict)
           (ReorgDetected height (sr_root existing) (sr_block_hash existing) incoming_root incoming_hash)
           (let block_hash = (if incoming_hash = 0 then sr_block_hash existing else incoming_hash) in
            and_then (put_loop t rows) (\<lambda>(new_entries, batch).
            Inr (new_entries, (height, encode_value incoming_root block_hash) # batch))))
     | None \<Rightarrow>
         and_then (put_loop t rows) (\<lambda>(new_entries, batch).
         Inr (Suc new_entries, (height, encode_value incoming_root incoming_hash) # batch)))"

definition apply_batch :: "(u64 \<times> bytes) list \<Rightarrow> tree \<Rightarrow> tree" where
  "apply_batch batch t = fold (\<lambda>(k, v). tree_insert k v) batch t"

definition put_roots :: "(u64 \<times> H256 \<times> H256) list \<Rightarrow> RootStore \<Rightarrow> StoreError + RootStore" where
  "put_roots rows s =
    and_then (put_loop (db s) rows) (\<lambda>(new_entries, batch).
    Inr (s\<lparr>db := apply_batch batch (db s), entry_count := entry_count s + of_nat new_entries,
           meta_count := Some (saturating_add (entry_count s) (of_nat new_entries))\<rparr>))"

definition truncate_above :: "u64 \<Rightarrow> RootStore \<Rightarrow> u64 \<times> RootStore" where
  "truncate_above keep_through s =
    (case checked_add keep_through 1 of
       None \<Rightarrow> (0, s)
     | Some first_removed \<Rightarrow>
         let removed = len64 (filter (\<lambda>(h, _). first_removed \<le> h) (db s)) in
         if removed = 0 then (0, s)
         else (removed, s\<lparr>db := filter (\<lambda>(h, _). \<not> first_removed \<le> h) (db s), entry_count := entry_count s - removed,
           meta_count := Some (saturating_sub (entry_count s) removed)\<rparr>))"

fun parse_rows :: "tree \<Rightarrow> StoreError + (u64 \<times> StoredRoot) list" where
  "parse_rows [] = Inr []"
| "parse_rows ((height, value) # rows) =
    and_then (parse_stored value) (\<lambda>stored. and_then (parse_rows rows) (\<lambda>results. Inr ((height, stored) # results)))"

definition get_range :: "u64 \<Rightarrow> u64 \<Rightarrow> RootStore \<Rightarrow> StoreError + (u64 \<times> StoredRoot) list" where
  "get_range from to s = parse_rows (filter (\<lambda>(h, _). from \<le> h \<and> h \<le> to) (db s))"

definition latest_height :: "RootStore \<Rightarrow> u64 option" where
  "latest_height s = (if db s = [] then None else Some (fst (last (db s))))"

definition first_height :: "RootStore \<Rightarrow> u64 option" where
  "first_height s = (if db s = [] then None else Some (fst (hd (db s))))"

fun gap_loop :: "u64 option \<Rightarrow> u64 list \<Rightarrow> (u64 \<times> u64) list \<times> u64 option" where
  "gap_loop expected [] = ([], expected)"
| "gap_loop expected (height # heights) =
    (let (gaps, rest) = gap_loop (Some (height + 1)) heights in
     (case expected of
        Some exp \<Rightarrow> if height > exp then (exp, height - 1) # gaps else gaps
      | None \<Rightarrow> gaps, rest))"

definition find_gaps :: "u64 option \<Rightarrow> u64 option \<Rightarrow> RootStore \<Rightarrow> (u64 \<times> u64) list" where
  "find_gaps start_height end_height s =
    (let from = (case start_height of Some h \<Rightarrow> h | None \<Rightarrow> 0) in
     if (case end_height of Some stop \<Rightarrow> from > stop | None \<Rightarrow> False) then []
     else
       let heights = (case end_height of
             Some stop \<Rightarrow> filter (\<lambda>h. from \<le> h \<and> h \<le> stop) (map fst (db s)) | None \<Rightarrow> map fst (db s));
           (gaps, expected) = gap_loop start_height heights in
       case end_height of
         Some stop \<Rightarrow>
           let tail_start = (case expected of Some e \<Rightarrow> e | None \<Rightarrow> 0) in
           if tail_start \<le> stop then gaps @ [(tail_start, stop)] else gaps
       | None \<Rightarrow> gaps)"

definition count_outside :: "u64 \<Rightarrow> u64 \<Rightarrow> RootStore \<Rightarrow> u64 \<times> u64" where
  "count_outside start_height end_height s =
    (len64 (filter (\<lambda>(h, _). h < start_height) (db s)), len64 (filter (\<lambda>(h, _). end_height < h) (db s)))"

definition archive_count :: "RootStore \<Rightarrow> u64" where
  "archive_count s = entry_count s"

section \<open>Reconciliation\<close>

datatype Anchor = Empty | Verified u64 | Unverifiable u64 | Reanchored u64 u64

fun resume_from :: "Anchor \<Rightarrow> u64 option" where
  "resume_from Empty = None"
| "resume_from (Verified t) = Some (t + 1)"
| "resume_from (Unverifiable t) = Some (t + 1)"
| "resume_from (Reanchored t removed) = Some (t + 1)"

datatype ReconcileError = Store StoreError | Fetch u64 string | Panic

text \<open>The walk over the candidates, highest first.  The mismatch at the tip is remembered.\<close>

fun reconcile_loop ::
  "(u64 \<Rightarrow> string + H256) \<Rightarrow> u64 \<Rightarrow> (H256 \<times> H256) option \<Rightarrow> (u64 \<times> StoredRoot) list \<Rightarrow> RootStore \<Rightarrow>
   ReconcileError + Anchor \<times> RootStore" where
  "reconcile_loop canonical_hash tip tip_mismatch [] s =
    (case tip_mismatch of
       Some (stored_hash, canonical) \<Rightarrow> Inl (Store (AnchorMismatch tip stored_hash canonical))
     | None \<Rightarrow> Inl Panic)"
| "reconcile_loop canonical_hash tip tip_mismatch ((height, stored) # candidates) s =
    (if sr_block_hash stored = 0 then
       (if height = tip then Inr (Unverifiable tip, s)
        else reconcile_loop canonical_hash tip tip_mismatch [] s)
     else case canonical_hash height of
       Inl e \<Rightarrow> Inl (Fetch height e)
     | Inr canonical \<Rightarrow>
         if canonical = sr_block_hash stored then
           (if height = tip then Inr (Verified tip, s)
            else let (removed, s') = truncate_above height s in Inr (Reanchored height removed, s'))
         else reconcile_loop canonical_hash tip
           (if height = tip then Some (sr_block_hash stored, canonical) else tip_mismatch) candidates s)"

definition reconcile :: "(u64 \<Rightarrow> string + H256) \<Rightarrow> u64 \<Rightarrow> RootStore \<Rightarrow> ReconcileError + Anchor \<times> RootStore" where
  "reconcile canonical_hash max_depth s =
    (case latest_height s of
       None \<Rightarrow> Inr (Empty, s)
     | Some tip \<Rightarrow>
         let floor = saturating_sub tip max_depth in
         (case get_range floor tip s of
            Inl e \<Rightarrow> Inl (Store e)
          | Inr candidates \<Rightarrow> reconcile_loop canonical_hash tip None (rev candidates) s))"

section \<open>Values round trip\<close>

lemma le_bytes_Suc: "le_bytes (Suc n) w = ucast w # le_bytes n (drop_bit 8 w)"
  by (simp add: le_bytes_def map_upt_Suc drop_bit_drop_bit add.commute del: upt_Suc)

lemma from_le_le_bytes: "from_le (le_bytes n (w :: H256)) = take_bit (8 * n) w"
proof (induction n arbitrary: w)
  case 0
  then show ?case by (simp add: le_bytes_def)
next
  case (Suc n)
  have "or (ucast (ucast w :: u8)) (push_bit 8 (take_bit (8 * n) (drop_bit 8 w))) = take_bit (8 * Suc n) w"
    by (rule bit_word_eqI) (auto simp: bit_simps)
  then show ?case by (simp add: le_bytes_Suc Suc.IH)
qed

lemma from_slice_as_bytes [simp]: "from_slice (as_bytes h) = h"
  by (simp add: from_slice_def as_bytes_def be_bytes_def from_le_le_bytes take_bit_word_eq_self)

lemma parse_encode_value: "parse_stored (encode_value r h) = Inr \<lparr>sr_root = r, sr_block_hash = h\<rparr>"
  by (simp add: parse_stored_def encode_value_def)

section \<open>The order of the keys\<close>

fun be_value :: "bytes \<Rightarrow> nat" where
  "be_value [] = 0"
| "be_value (b # bs) = unat b * 256 ^ length bs + be_value bs"

lemma be_value_less: "be_value bs < 256 ^ length bs"
proof (induction bs)
  case (Cons b bs)
  have "unat b \<le> 255" using unat_less_2p [of b] by simp
  then have "unat b * 256 ^ length bs \<le> 255 * 256 ^ length bs" by (rule mult_right_mono) simp
  then have "unat b * 256 ^ length bs + be_value bs < 255 * 256 ^ length bs + 256 ^ length bs"
    using Cons by (rule add_le_less_mono)
  then show ?case by simp
qed simp

lemma lexordp_be_value:
  "length xs = length ys \<Longrightarrow> ord_class.lexordp xs ys \<longleftrightarrow> be_value xs < be_value ys"
proof (induction xs ys rule: list_induct2)
  case (Cons x xs y ys)
  let ?m = "256 ^ length ys"
  have b: "be_value xs < ?m" "be_value ys < ?m" using be_value_less [of xs] be_value_less [of ys] Cons.hyps by simp_all
  have step: "p * ?m + be_value us < q * ?m + be_value vs" if "p < q" "be_value us < ?m" for p q us vs
  proof -
    have "(p + 1) * ?m \<le> q * ?m" using that(1) by (intro mult_right_mono) simp_all
    then show ?thesis using that(2) by simp
  qed
  show ?case
  proof (cases x y rule: linorder_cases)
    case less
    then show ?thesis using step [of "unat x" "unat y" xs ys] b Cons.hyps by (simp add: word_less_nat_alt)
  next
    case equal
    then show ?thesis using Cons by simp
  next
    case greater
    then have "be_value (y # ys) < be_value (x # xs)"
      using step [of "unat y" "unat x" ys xs] b Cons.hyps by (simp add: word_less_nat_alt)
    then show ?thesis using greater by auto
  qed
qed simp

lemma be_bytes_Suc: "be_bytes (Suc n) w = ucast (drop_bit (8 * n) w) # be_bytes n w"
  by (simp add: be_bytes_def le_bytes_def)

lemma be_value_be_bytes: "be_value (be_bytes n (w :: u64)) = unat w mod 256 ^ n"
proof (induction n)
  case (Suc n)
  have p: "(2 :: nat) ^ (8 * n) = 256 ^ n" by (simp add: power_mult)
  have "unat (drop_bit (8 * n) w) = unat w div 2 ^ (8 * n)"
    unfolding unsigned_drop_bit_eq using unat_less_2p [of w] by (simp add: drop_bit_eq_div take_bit_nat_eq_self)
  then have u: "unat (ucast (drop_bit (8 * n) w) :: u8) = unat w div 256 ^ n mod 256"
    unfolding unsigned_ucast_eq p by (simp add: take_bit_eq_mod)
  have "unat w mod (256 ^ n * 256) = 256 ^ n * (unat w div 256 ^ n mod 256) + unat w mod 256 ^ n" by (rule mod_mult2_eq)
  then show ?case unfolding be_bytes_Suc be_value.simps length_be_bytes u Suc by (simp only: power_Suc2 mult.commute)
qed (simp add: be_bytes_def le_bytes_def)

lemma be_key_order: "ord_class.lexordp (u64_to_be_bytes a) (u64_to_be_bytes b) \<longleftrightarrow> a < b"
proof -
  have "unat (x :: u64) mod 256 ^ 8 = unat x" for x using unat_less_2p [of x] by simp
  then show ?thesis by (simp add: lexordp_be_value u64_to_be_bytes_def be_value_be_bytes word_less_nat_alt)
qed

section \<open>The tree\<close>

lemma map_of_tree_insert: "map_of (tree_insert k v t) = (map_of t)(k \<mapsto> v)"
  by (induction t) (auto simp: fun_eq_iff)

lemma set_tree_insert: "set (map fst (tree_insert k v t)) = insert k (set (map fst t))"
proof (induction t)
  case (Cons x t)
  obtain a b where "x = (a, b)" by (cases x)
  then show ?case using Cons.IH by (simp add: insert_commute)
qed simp

lemma sorted_tree_insert: "sorted_wrt (<) (map fst t) \<Longrightarrow> sorted_wrt (<) (map fst (tree_insert k v t))"
proof (induction t)
  case (Cons x t)
  obtain a b where x: "x = (a, b)" by (cases x)
  have m: "set (map fst (tree_insert k v t)) = insert k (set (map fst t))" by (rule set_tree_insert)
  show ?case
  proof (cases "k < a")
    case True
    then show ?thesis using Cons.prems x by (auto intro: less_trans)
  next
    case False
    then show ?thesis using Cons x m by (auto simp del: set_map)
  qed
qed simp

lemma sorted_apply_batch: "sorted_wrt (<) (map fst t) \<Longrightarrow> sorted_wrt (<) (map fst (apply_batch b t))"
  unfolding apply_batch_def by (induction b arbitrary: t) (auto simp: sorted_tree_insert)

lemma map_of_apply_batch: "map_of (apply_batch b t) = (\<lambda>h. case map_of (rev b) h of Some v \<Rightarrow> Some v | None \<Rightarrow> map_of t h)"
  unfolding apply_batch_def
proof (induction b arbitrary: t)
  case (Cons x b)
  then show ?case by (auto simp: map_of_tree_insert map_add_def fun_eq_iff split: option.splits prod.splits)
qed simp

text \<open>What is stored at a height.\<close>

definition root_at :: "RootStore \<Rightarrow> u64 \<Rightarrow> StoredRoot option" where
  "root_at s h = (case map_of (db s) h of None \<Rightarrow> None | Some v \<Rightarrow> (case parse_stored v of Inl _ \<Rightarrow> None | Inr e \<Rightarrow> Some e))"

definition archive_ok :: "RootStore \<Rightarrow> bool" where
  "archive_ok s \<longleftrightarrow> sorted_wrt (<) (map fst (db s)) \<and> (\<forall>row \<in> set (db s). \<exists>e. parse_stored (snd row) = Inr e)"

lemma sorted_distinct: "sorted_wrt (<) xs \<Longrightarrow> distinct (xs :: u64 list)"
  by (induction xs) auto

lemma archive_okD:
  assumes "archive_ok s"
  shows "distinct (map fst (db s))" and "(h, v) \<in> set (db s) \<Longrightarrow> \<exists>e. parse_stored v = Inr e \<and> root_at s h = Some e"
    and "root_at s h = None \<longleftrightarrow> h \<notin> set (map fst (db s))"
proof -
  show d: "distinct (map fst (db s))" using assms sorted_distinct by (auto simp: archive_ok_def)
  show ex: "\<exists>e. parse_stored v = Inr e \<and> root_at s h = Some e" if "(h, v) \<in> set (db s)" for h v
  proof -
    have "map_of (db s) h = Some v" using d that by simp
    moreover have "\<exists>e. parse_stored (snd (h, v)) = Inr e" using assms that by (simp only: archive_ok_def)
    ultimately show ?thesis by (auto simp: root_at_def)
  qed
  show "root_at s h = None \<longleftrightarrow> h \<notin> set (map fst (db s))"
  proof (cases "map_of (db s) h")
    case None
    moreover from this have "h \<notin> set (map fst (db s))" by (simp add: map_of_eq_None_iff)
    ultimately show ?thesis by (simp add: root_at_def)
  next
    case (Some v)
    then have "(h, v) \<in> set (db s)" by (rule map_of_SomeD)
    then show ?thesis using ex [of h v] by force
  qed
qed

section \<open>Writes\<close>

lemma put_loop_batch:
  assumes "put_loop t rows = Inr (n, batch)"
  shows "map fst batch = map fst rows \<and> (\<forall>(h, v) \<in> set batch. \<exists>r bh. v = encode_value r bh \<and>
    (\<forall>val e. map_of t h = Some val \<and> parse_stored val = Inr e \<longrightarrow> sr_root e = r \<and> (sr_block_hash e \<noteq> 0 \<longrightarrow> bh = sr_block_hash e)))"
  using assms
proof (induction rows arbitrary: n batch)
  case (Cons row rows)
  obtain h r ih where row: "row = (h, r, ih)" by (cases row)
  show ?case
  proof (cases "map_of t h")
    case None
    then obtain n' b where "put_loop t rows = Inr (n', b)" "batch = (h, encode_value r ih) # b"
      using Cons.prems row by (auto simp: res_simps)
    then show ?thesis using Cons.IH None row by auto
  next
    case (Some val)
    obtain e n' b where e: "parse_stored val = Inr e" "put_loop t rows = Inr (n', b)" "sr_root e = r"
        "\<not> (sr_block_hash e \<noteq> 0 \<and> ih \<noteq> 0 \<and> sr_block_hash e \<noteq> ih)"
        "batch = (h, encode_value r (if ih = 0 then sr_block_hash e else ih)) # b"
      using Cons.prems row Some by (auto simp: res_simps Let_def)
    then show ?thesis using Cons.IH [OF e(2)] Some row by auto
  qed
qed simp

text \<open>C24: A write that is accepted keeps every stored height, its root, and its block hash if that was
  known; the heights it adds are the ones of the batch.  The store stays ordered and readable.\<close>

theorem put_roots_keeps_entries:
  assumes "put_roots rows s = Inr s'" and "archive_ok s"
  shows "archive_ok s' \<and>
    (\<forall>h e. root_at s h = Some e \<longrightarrow>
      (\<exists>e'. root_at s' h = Some e' \<and> sr_root e' = sr_root e \<and> (sr_block_hash e \<noteq> 0 \<longrightarrow> sr_block_hash e' = sr_block_hash e))) \<and>
    (\<forall>h. root_at s' h \<noteq> None \<longleftrightarrow> root_at s h \<noteq> None \<or> h \<in> fst ` set rows)"
proof -
  obtain n batch where b: "put_loop (db s) rows = Inr (n, batch)" and s': "db s' = apply_batch batch (db s)"
    using assms(1) by (auto simp: put_roots_def res_simps)
  note B = put_loop_batch [OF b]
  have srt: "sorted_wrt (<) (map fst (db s'))" using assms(2) sorted_apply_batch s' by (simp add: archive_ok_def)
  note look = map_of_apply_batch [of batch "db s", folded s']
  have batch: "\<exists>r bh. v = encode_value r bh \<and> (\<forall>e. root_at s h = Some e \<longrightarrow> sr_root e = r \<and> (sr_block_hash e \<noteq> 0 \<longrightarrow> bh = sr_block_hash e))"
    if "map_of (rev batch) h = Some v" for h v
    using B map_of_SomeD [OF that] by (fastforce simp: root_at_def split: option.splits sum.splits)
  have parse: "\<exists>e. parse_stored v = Inr e" if "map_of (db s') h = Some v" for h v
    using that batch [of h] map_of_SomeD [of "db s" h v] assms(2) parse_encode_value
    by (fastforce simp: look archive_ok_def split: option.splits)
  have ok: "archive_ok s'"
    using srt parse sorted_distinct [OF srt] by (auto simp: archive_ok_def)
  have keep: "\<exists>e'. root_at s' h = Some e' \<and> sr_root e' = sr_root e \<and> (sr_block_hash e \<noteq> 0 \<longrightarrow> sr_block_hash e' = sr_block_hash e)"
    if "root_at s h = Some e" for h e
  proof (cases "map_of (rev batch) h")
    case None
    then show ?thesis using that by (auto simp: root_at_def look)
  next
    case (Some v)
    then show ?thesis using that batch [OF Some] parse_encode_value by (auto simp: root_at_def [of s'] look)
  qed
  have "root_at s' h \<noteq> None \<longleftrightarrow> root_at s h \<noteq> None \<or> h \<in> fst ` set rows" for h
  proof -
    have "h \<in> set (map fst (db s')) \<longleftrightarrow> map_of (db s') h \<noteq> None" by (simp add: map_of_eq_None_iff)
    also have "\<dots> \<longleftrightarrow> map_of (rev batch) h \<noteq> None \<or> map_of (db s) h \<noteq> None" by (auto simp: look split: option.splits)
    also have "\<dots> \<longleftrightarrow> h \<in> set (map fst batch) \<or> h \<in> set (map fst (db s))" by (simp add: map_of_eq_None_iff)
    finally show ?thesis using B archive_okD(3) [OF ok, of h] archive_okD(3) [OF assms(2), of h] by auto
  qed
  with ok keep show ?thesis by blast
qed

text \<open>Heights that occur twice in a batch are only compared with what was stored before it: both are
  counted as new, and the last one is kept even if they differ.\<close>

theorem put_roots_repeated_height:
  "\<exists>s'. put_roots [(1, 5, 6), (1, 7, 8)] (store_open [] None None) = Inr s' \<and> archive_count s' = 2 \<and> length (db s') = 1 \<and>
    root_at s' 1 = Some \<lparr>sr_root = 7, sr_block_hash = 8\<rparr>"
  by (simp add: put_roots_def store_open_def apply_batch_def archive_count_def len64_def root_at_def parse_encode_value)

section \<open>Gaps\<close>

lemma le_pred:
  assumes "0 < (h :: u64)"
  shows "n \<le> h - 1 \<longleftrightarrow> n < h"
proof -
  have "0 < unat h" using assms by (simp add: word_less_nat_alt)
  then have "1 \<le> h" by (simp add: word_le_nat_alt)
  then have "unat (h - 1) = unat h - 1" by (simp add: unat_sub)
  then show ?thesis using \<open>0 < unat h\<close> by (auto simp: word_le_nat_alt word_less_nat_alt)
qed

lemma succ_le:
  assumes "h < (- 1 :: u64)"
  shows "h + 1 \<le> n \<longleftrightarrow> h < n"
proof -
  have "unat h < 2 ^ 64 - 1" using assms unfolding word_less_nat_alt unat_max_value by simp
  then have "unat (h + 1) = Suc (unat h)" by (simp add: unat_word_ariths)
  then show ?thesis by (auto simp: word_le_nat_alt word_less_nat_alt)
qed

text \<open>The heights of the reported ranges.\<close>

definition in_gaps :: "(u64 \<times> u64) list \<Rightarrow> u64 \<Rightarrow> bool" where
  "in_gaps gaps n \<longleftrightarrow> (\<exists>(a, b) \<in> set gaps. a \<le> n \<and> n \<le> b)"

lemma gap_loop_covers:
  assumes "sorted_wrt (<) hs" and "\<forall>h \<in> set hs. e \<le> h \<and> h < - 1" and "gap_loop (Some e) hs = (gaps, rest)"
  shows "\<exists>e'. rest = Some e' \<and> e \<le> e' \<and> (\<forall>h \<in> set hs. h < e') \<and> (\<forall>n. in_gaps gaps n \<longleftrightarrow> e \<le> n \<and> n < e' \<and> n \<notin> set hs) \<and>
    (hs = [] \<and> e' = e \<or> (\<exists>h \<in> set hs. e' = h + 1))"
  using assms
proof (induction hs arbitrary: e gaps rest)
  case (Cons h hs)
  obtain g r where g: "gap_loop (Some (h + 1)) hs = (g, r)" by (cases "gap_loop (Some (h + 1)) hs")
  have h: "e \<le> h" "h < - 1" using Cons.prems(2) by auto
  have "\<forall>x \<in> set hs. h + 1 \<le> x \<and> x < - 1" using Cons.prems(1,2) succ_le [OF h(2)] by auto
  then obtain e' where e': "r = Some e'" "h + 1 \<le> e'" "\<forall>x \<in> set hs. x < e'"
      "\<And>n. in_gaps g n \<longleftrightarrow> h + 1 \<le> n \<and> n < e' \<and> n \<notin> set hs" "hs = [] \<and> e' = h + 1 \<or> (\<exists>x \<in> set hs. e' = x + 1)"
    using Cons.IH [OF _ _ g] Cons.prems(1) by auto
  have he: "h < e'" using e'(2) succ_le [OF h(2)] by simp
  have gaps: "gaps = (if h > e then (e, h - 1) # g else g)" "rest = Some e'"
    using Cons.prems(3) g e'(1) by auto
  have "in_gaps gaps n \<longleftrightarrow> e \<le> n \<and> n < h \<or> in_gaps g n" for n
  proof (cases "e < h")
    case True
    then have "0 < h" by (rule le_less_trans [rotated]) simp
    then show ?thesis using True le_pred [of h n] by (simp add: gaps(1) in_gaps_def)
  next
    case False
    then show ?thesis by (auto simp: gaps(1))
  qed
  moreover have "n \<notin> set hs" if "n \<le> h" for n using that Cons.prems(1) by auto
  ultimately have "in_gaps gaps n \<longleftrightarrow> e \<le> n \<and> n < e' \<and> n \<notin> set (h # hs)" for n
    using e'(4) [of n] succ_le [OF h(2), of n] h(1) he by (cases n h rule: linorder_cases) auto
  moreover have "e' = h + 1 \<or> (\<exists>x \<in> set hs. e' = x + 1)"
    using e'(5) by auto
  ultimately show ?case using gaps(2) he h(1) e'(3) by auto
qed (auto simp: in_gaps_def)

text \<open>C25: For a range that ends below the largest \<open>u64\<close> the reported gaps cover exactly the heights of the
  range that are not stored.  At the largest \<open>u64\<close> the successor of a stored height would wrap.\<close>

theorem find_gaps_exact:
  assumes "archive_ok s" and "b < - 1"
  shows "in_gaps (find_gaps (Some a) (Some b) s) n \<longleftrightarrow> a \<le> n \<and> n \<le> b \<and> root_at s n = None"
proof (cases "a > b")
  case True
  then show ?thesis by (auto simp: find_gaps_def in_gaps_def)
next
  case False
  let ?hs = "filter (\<lambda>h. a \<le> h \<and> h \<le> b) (map fst (db s))"
  obtain gaps rest where g: "gap_loop (Some a) ?hs = (gaps, rest)" by (cases "gap_loop (Some a) ?hs")
  have "sorted_wrt (<) ?hs" using assms(1) by (simp add: archive_ok_def sorted_wrt_filter)
  moreover have "\<forall>h \<in> set ?hs. a \<le> h \<and> h < - 1" using assms(2) by auto
  ultimately obtain e where e: "rest = Some e" "a \<le> e" "\<forall>h \<in> set ?hs. h < e"
      "\<And>n. in_gaps gaps n \<longleftrightarrow> a \<le> n \<and> n < e \<and> n \<notin> set ?hs" "?hs = [] \<and> e = a \<or> (\<exists>h \<in> set ?hs. e = h + 1)"
    using gap_loop_covers [OF _ _ g] by blast
  have f: "find_gaps (Some a) (Some b) s = (if e \<le> b then gaps @ [(e, b)] else gaps)"
    using False g e(1) by (simp add: find_gaps_def Let_def)
  have "in_gaps (find_gaps (Some a) (Some b) s) n \<longleftrightarrow> in_gaps gaps n \<or> e \<le> n \<and> n \<le> b"
    by (auto simp: f in_gaps_def)
  moreover have "n \<le> b" if "n < e"
    using e(5)
  proof
    assume "?hs = [] \<and> e = a"
    then show ?thesis using that False by simp
  next
    assume "\<exists>h \<in> set ?hs. e = h + 1"
    then obtain h where h: "h \<le> b" "e = h + 1" by auto
    have "h < - 1" using h(1) assms(2) by (rule le_less_trans)
    then have "\<not> h < n" using that h(2) succ_le [of h n] leD by blast
    then show ?thesis using h(1) by simp
  qed
  ultimately show ?thesis using e(2-4) archive_okD(3) [OF assms(1), of n] by (cases "n < e") auto
qed

section \<open>Reconciliation\<close>

lemma parse_rows_Inr:
  "parse_rows t = Inr rs \<Longrightarrow> map fst rs = map fst t \<and> (\<forall>x \<in> set rs. \<exists>v. (fst x, v) \<in> set t \<and> parse_stored v = Inr (snd x))"
  by (induction t arbitrary: rs) (fastforce simp: res_simps)+

lemma get_range_entries:
  assumes "archive_ok s" and "get_range from to s = Inr rs"
  shows "map fst rs = filter (\<lambda>h. from \<le> h \<and> h \<le> to) (map fst (db s))" and "x \<in> set rs \<Longrightarrow> root_at s (fst x) = Some (snd x)"
proof -
  note r = parse_rows_Inr [OF assms(2) [unfolded get_range_def]]
  show "map fst rs = filter (\<lambda>h. from \<le> h \<and> h \<le> to) (map fst (db s))"
    using r by (simp add: filter_map comp_def case_prod_unfold)
  assume "x \<in> set rs"
  with r obtain v where v: "(fst x, v) \<in> set (db s)" "parse_stored v = Inr (snd x)" by auto
  then show "root_at s (fst x) = Some (snd x)" using archive_okD(2) [OF assms(1) v(1)] by simp
qed

text \<open>What the walk over the candidates ends with.\<close>

definition off_chain :: "(u64 \<Rightarrow> string + H256) \<Rightarrow> u64 \<times> StoredRoot \<Rightarrow> bool" where
  "off_chain ch x \<longleftrightarrow> (\<exists>c. ch (fst x) = Inr c \<and> c \<noteq> sr_block_hash (snd x))"

lemma reconcile_loop_Inr:
  assumes "reconcile_loop ch tip mm L s = Inr (a, s')"
  shows "(\<exists>e. (tip, e) \<in> set L \<and> s' = s \<and>
      (a = Unverifiable tip \<and> sr_block_hash e = 0 \<or> a = Verified tip \<and> ch tip = Inr (sr_block_hash e))) \<or>
    (\<exists>pre t e suf removed. L = pre @ (t, e) # suf \<and> t \<noteq> tip \<and> ch t = Inr (sr_block_hash e) \<and> (\<forall>x \<in> set pre. off_chain ch x) \<and>
      truncate_above t s = (removed, s') \<and> a = Reanchored t removed)"
  using assms
proof (induction L arbitrary: mm)
  case (Cons x L)
  obtain h e where x: "x = (h, e)" by (cases x)
  show ?case
  proof (cases "sr_block_hash e \<noteq> 0 \<and> (\<exists>c. ch h = Inr c \<and> c \<noteq> sr_block_hash e)")
    case True
    then have o: "off_chain ch x" by (auto simp: off_chain_def x)
    have "\<exists>mm'. reconcile_loop ch tip mm' L s = Inr (a, s')" using Cons.prems True x by (auto split: if_splits)
    then obtain mm' where "reconcile_loop ch tip mm' L s = Inr (a, s')" ..
    from Cons.IH [OF this] show ?thesis
    proof
      assume "\<exists>pre t e suf removed. L = pre @ (t, e) # suf \<and> t \<noteq> tip \<and> ch t = Inr (sr_block_hash e) \<and> (\<forall>x \<in> set pre. off_chain ch x) \<and>
        truncate_above t s = (removed, s') \<and> a = Reanchored t removed"
      then obtain pre t e' suf removed where "L = pre @ (t, e') # suf" and r: "t \<noteq> tip" "ch t = Inr (sr_block_hash e')"
          "\<forall>x \<in> set pre. off_chain ch x" "truncate_above t s = (removed, s')" "a = Reanchored t removed" by blast
      then have "x # L = (x # pre) @ (t, e') # suf" "\<forall>y \<in> set (x # pre). off_chain ch y" using o by auto
      with r show ?thesis by blast
    qed auto
  next
    case False
    show ?thesis
    proof (cases "h = tip \<or> sr_block_hash e = 0")
      case True
      then show ?thesis using Cons.prems False x by (auto split: if_splits sum.splits option.splits)
    next
      case ne: False
      then have "ch h = Inr (sr_block_hash e)" using Cons.prems False x by (auto split: sum.splits)
      moreover obtain removed where "truncate_above h s = (removed, s')" "a = Reanchored h removed"
        using Cons.prems False ne x calculation by (auto split: prod.splits)
      ultimately show ?thesis using ne x
        by (intro disjI2 exI [of _ "[]"] exI [of _ h] exI [of _ e] exI [of _ L] exI [of _ removed]) simp
    qed
  qed
qed (auto split: option.splits)

lemma reconcile_loop_mismatch: "reconcile_loop ch tip (Some m) L s \<noteq> Inl Panic"
proof (induction L arbitrary: m)
  case (Cons x L)
  then show ?case by (cases x) (auto split: sum.splits prod.splits)
qed (simp split: prod.splits)

lemma reconcile_loop_no_panic: "reconcile_loop ch tip mm ((tip, e) # L) s \<noteq> Inl Panic"
  using reconcile_loop_mismatch [of ch tip _ L s] by (auto split: sum.splits)

lemma truncate_above_entries:
  assumes "archive_ok s" and "truncate_above t s = (removed, s')" and "length (db s) < 2 ^ 64"
  shows "db s' = filter (\<lambda>row. fst row \<le> t) (db s)"
proof (cases "checked_add t 1")
  case None
  then have "t = - 1" by (auto simp: checked_add_def word_unat_eq_iff unat_max_value split: if_splits) (use unat_less_2p [of t] in simp)
  then show ?thesis using None assms(2) by (simp add: truncate_above_def)
next
  case (Some f)
  then have "t < - 1" unfolding word_less_nat_alt unat_max_value by (auto simp: checked_add_def split: if_splits)
  then have le: "f \<le> h \<longleftrightarrow> t < h" for h using succ_le Some by (auto simp: checked_add_def split: if_splits)
  have keep: "filter (\<lambda>(h, _). \<not> f \<le> h) (db s) = filter (\<lambda>row. fst row \<le> t) (db s)"
    by (rule filter_cong) (auto simp: le)
  have "unat (len64 (filter (\<lambda>(h, _). f \<le> h) (db s))) = length (filter (\<lambda>(h, _). f \<le> h) (db s))"
    using assms(3) by (intro unat_len64) (simp add: le_less_trans [OF length_filter_le])
  then have z: "len64 (filter (\<lambda>(h, _). f \<le> h) (db s)) = 0 \<longleftrightarrow> filter (\<lambda>(h, _). f \<le> h) (db s) = []"
    by (simp add: word_unat_eq_iff)
  show ?thesis
  proof (cases "filter (\<lambda>(h, _). f \<le> h) (db s) = []")
    case True
    then have "filter (\<lambda>row. fst row \<le> t) (db s) = db s" by (auto simp: filter_empty_conv filter_id_conv le)
    then show ?thesis using assms(2) Some True z by (simp add: truncate_above_def Let_def)
  next
    case False
    then show ?thesis using assms(2) Some z keep by (auto simp: truncate_above_def Let_def)
  qed
qed

lemma last_filter_le:
  "sorted_wrt (<) hs \<Longrightarrow> t \<in> set hs \<Longrightarrow> filter (\<lambda>h. h \<le> t) hs \<noteq> [] \<and> last (filter (\<lambda>h. h \<le> t) hs) = (t :: u64)"
proof (induction hs)
  case (Cons h hs)
  show ?case
  proof (cases "t = h")
    case True
    then have "filter (\<lambda>x. x \<le> t) hs = []" using Cons.prems by (auto simp: filter_empty_conv)
    then show ?thesis using True by simp
  next
    case False
    then show ?thesis using Cons by auto
  qed
qed simp

text \<open>The candidates end with the tip.\<close>

lemma candidates_tip:
  assumes "archive_ok s" and "latest_height s = Some tip" and "get_range (saturating_sub tip d) tip s = Inr rs"
  obtains e L where "rev rs = (tip, e) # L"
proof -
  have ne: "db s \<noteq> []" and tip: "tip = last (map fst (db s))"
    using assms(2) by (auto simp: latest_height_def last_map split: if_splits)
  let ?hs = "map fst (db s)"
  have hs: "?hs = butlast ?hs @ [tip]" using ne tip by simp
  have "saturating_sub tip d \<le> tip" by (simp add: word_le_nat_alt unat_saturating_sub)
  then have "filter (\<lambda>h. saturating_sub tip d \<le> h \<and> h \<le> tip) (butlast ?hs @ [tip]) =
      filter (\<lambda>h. saturating_sub tip d \<le> h \<and> h \<le> tip) (butlast ?hs) @ [tip]" by simp
  then have "map fst rs = filter (\<lambda>h. saturating_sub tip d \<le> h \<and> h \<le> tip) (butlast ?hs) @ [tip]"
    using get_range_entries(1) [OF assms(1,3)] hs by metis
  then have "map fst (rev rs) = tip # rev (filter (\<lambda>h. saturating_sub tip d \<le> h \<and> h \<le> tip) (butlast ?hs))"
    unfolding rev_map [symmetric] by simp
  then show ?thesis using that by (cases "rev rs") auto
qed

lemma map_of_filter_le: "map_of (filter (\<lambda>row. fst row \<le> t) xs) h = (if h \<le> t then map_of xs h else None)"
  for t :: u64
  by (induction xs) auto

lemma sorted_last_max: "sorted_wrt (<) hs \<Longrightarrow> h \<in> set hs \<Longrightarrow> h \<le> (last hs :: u64)"
  by (induction hs rule: rev_induct) (auto simp: sorted_wrt_append intro: less_imp_le)

lemma reanchored_result:
  assumes "archive_ok s" and "length (db s) < 2 ^ 64" and "latest_height s = Some tip"
    and "get_range (saturating_sub tip d) tip s = Inr rs" and "rev rs = pre @ (t, e) # suf"
    and "ch t = Inr (sr_block_hash e)" and "\<forall>x \<in> set pre. off_chain ch x" and "truncate_above t s = (removed, s')"
  shows "latest_height s' = Some t \<and> (\<exists>e. root_at s' t = Some e \<and> ch t = Inr (sr_block_hash e)) \<and>
    (\<forall>tip. latest_height s = Some tip \<longrightarrow> unat tip \<le> unat t + unat d) \<and>
    (\<forall>h. root_at s' h = (if h \<le> t then root_at s h else None)) \<and>
    (\<forall>h e. t < h \<and> root_at s h = Some e \<longrightarrow> (\<exists>c. ch h = Inr c \<and> c \<noteq> sr_block_hash e))"
proof -
  let ?hs = "map fst (db s)" and ?f = "saturating_sub tip d"
  have srt: "sorted_wrt (<) ?hs" using assms(1) by (simp add: archive_ok_def)
  have hs: "rev (filter (\<lambda>h. ?f \<le> h \<and> h \<le> tip) ?hs) = map fst pre @ t # map fst suf"
    unfolding get_range_entries(1) [OF assms(1,4), symmetric] using arg_cong [OF assms(5), of "map fst"] by (simp add: rev_map)
  have "t \<in> set (rev (filter (\<lambda>h. ?f \<le> h \<and> h \<le> tip) ?hs))" unfolding hs by simp
  then have mem: "t \<in> set ?hs" "?f \<le> t" by auto
  have db: "db s' = filter (\<lambda>row. fst row \<le> t) (db s)" using assms(1,8,2) by (rule truncate_above_entries)
  then have "map fst (db s') = filter (\<lambda>h. h \<le> t) ?hs" by (simp add: filter_map comp_def)
  then have "latest_height s' = Some t"
    using last_filter_le [OF srt mem(1)] by (auto simp: latest_height_def last_map [symmetric])
  moreover have look: "root_at s' h = (if h \<le> t then root_at s h else None)" for h
  proof -
    have "map_of (db s') h = (if h \<le> t then map_of (db s) h else None)"
      unfolding db by (rule map_of_filter_le)
    then show ?thesis by (simp add: root_at_def)
  qed
  moreover have e: "root_at s t = Some e" using get_range_entries(2) [OF assms(1,4), of "(t, e)"] assms(5)
    by (metis fst_conv in_set_conv_decomp set_rev snd_conv)
  moreover have "unat tip \<le> unat t + unat d" using mem(2) by (simp add: word_le_nat_alt unat_saturating_sub)
  moreover have "\<exists>c. ch h = Inr c \<and> c \<noteq> sr_block_hash x" if "t < h" "root_at s h = Some x" for h x
  proof -
    have "h \<in> set ?hs" using that(2) archive_okD(3) [OF assms(1), of h] by auto
    moreover have "h \<le> tip" using calculation assms(3) srt sorted_last_max [of ?hs] by (auto simp: latest_height_def last_map split: if_splits)
    ultimately have "h \<in> set (map fst pre @ t # map fst suf)" using that(1) mem(2) unfolding hs [symmetric] by auto
    moreover have "sorted_wrt (<) (rev (map fst pre @ t # map fst suf))" unfolding hs [symmetric] using srt by (simp add: sorted_wrt_filter)
    ultimately have "h \<in> set (map fst pre)" using that(1) by (auto simp: sorted_wrt_append)
    then obtain y where y: "(h, y) \<in> set pre" by auto
    then have "(h, y) \<in> set rs" using assms(5) by (metis Un_iff set_append set_rev)
    then have "y = x" using get_range_entries(2) [OF assms(1,4)] that(2) by fastforce
    then show ?thesis using y assms(7) by (force simp: off_chain_def)
  qed
  ultimately show ?thesis using assms(3,6) by auto
qed

text \<open>C7: The reconciliation of a store never panics, allocation apart, and when it returns, the stream resumes above a
  block that is on the canonical chain, or one whose hash was never stored: the tip itself, or,
  after dropping everything above it, the highest of the stored blocks within the allowed depth that
  is still canonical.  Everything up to that block is kept.\<close>

theorem reconcile_anchors:
  assumes "archive_ok s" and "length (db s) < 2 ^ 64"
  shows "reconcile ch d s \<noteq> Inl Panic \<and>
    (\<forall>a s'. reconcile ch d s = Inr (a, s') \<longrightarrow>
      (case a of
         Empty \<Rightarrow> s' = s \<and> db s = []
       | Unverifiable t \<Rightarrow> s' = s \<and> latest_height s = Some t \<and> (\<exists>e. root_at s t = Some e \<and> sr_block_hash e = 0)
       | Verified t \<Rightarrow> s' = s \<and> latest_height s = Some t \<and> (\<exists>e. root_at s t = Some e \<and> ch t = Inr (sr_block_hash e))
       | Reanchored t removed \<Rightarrow> latest_height s' = Some t \<and> (\<exists>e. root_at s' t = Some e \<and> ch t = Inr (sr_block_hash e)) \<and>
           (\<forall>tip. latest_height s = Some tip \<longrightarrow> unat tip \<le> unat t + unat d) \<and>
           (\<forall>h. root_at s' h = (if h \<le> t then root_at s h else None)) \<and>
           (\<forall>h e. t < h \<and> root_at s h = Some e \<longrightarrow> (\<exists>c. ch h = Inr c \<and> c \<noteq> sr_block_hash e))))"
proof (cases "latest_height s")
  case None
  then show ?thesis by (auto simp: reconcile_def latest_height_def split: if_splits)
next
  case (Some tip)
  show ?thesis
  proof (cases "get_range (saturating_sub tip d) tip s")
    case (Inl e)
    then show ?thesis using Some by (simp add: reconcile_def Let_def)
  next
    case (Inr rs)
    obtain e L where L: "rev rs = (tip, e) # L" using candidates_tip [OF assms(1) Some Inr] by blast
    have r: "reconcile ch d s = reconcile_loop ch tip None (rev rs) s" using Some Inr by (simp add: reconcile_def Let_def)
    note entries = get_range_entries(2) [OF assms(1) Inr]
    have "reconcile ch d s \<noteq> Inl Panic" unfolding r L by (rule reconcile_loop_no_panic)
    moreover have "case a of
         Empty \<Rightarrow> s' = s \<and> db s = []
       | Unverifiable t \<Rightarrow> s' = s \<and> latest_height s = Some t \<and> (\<exists>e. root_at s t = Some e \<and> sr_block_hash e = 0)
       | Verified t \<Rightarrow> s' = s \<and> latest_height s = Some t \<and> (\<exists>e. root_at s t = Some e \<and> ch t = Inr (sr_block_hash e))
       | Reanchored t removed \<Rightarrow> latest_height s' = Some t \<and> (\<exists>e. root_at s' t = Some e \<and> ch t = Inr (sr_block_hash e)) \<and>
           (\<forall>tip. latest_height s = Some tip \<longrightarrow> unat tip \<le> unat t + unat d) \<and>
           (\<forall>h. root_at s' h = (if h \<le> t then root_at s h else None)) \<and>
           (\<forall>h e. t < h \<and> root_at s h = Some e \<longrightarrow> (\<exists>c. ch h = Inr c \<and> c \<noteq> sr_block_hash e))"
      if "reconcile ch d s = Inr (a, s')" for a s'
      using reconcile_loop_Inr [OF that [unfolded r]]
    proof
      assume "\<exists>e. (tip, e) \<in> set (rev rs) \<and> s' = s \<and>
        (a = Unverifiable tip \<and> sr_block_hash e = 0 \<or> a = Verified tip \<and> ch tip = Inr (sr_block_hash e))"
      then show ?thesis using Some entries by fastforce
    next
      assume "\<exists>pre t e suf removed. rev rs = pre @ (t, e) # suf \<and> t \<noteq> tip \<and> ch t = Inr (sr_block_hash e) \<and>
        (\<forall>x \<in> set pre. off_chain ch x) \<and> truncate_above t s = (removed, s') \<and> a = Reanchored t removed"
      then obtain pre t e suf removed where t: "rev rs = pre @ (t, e) # suf" "ch t = Inr (sr_block_hash e)"
          "\<forall>x \<in> set pre. off_chain ch x" "truncate_above t s = (removed, s')" "a = Reanchored t removed" by blast
      show ?thesis unfolding t(5) Anchor.case
        by (rule reanchored_result [OF assms Some Inr t(1-4)])
    qed
    ultimately show ?thesis by blast
  qed
qed

section \<open>An example\<close>

definition example_archive :: RootStore where
  "example_archive = store_open [(3, encode_value 5 6), (5, encode_value 7 8)] None None"

lemma example_archive_ok: "archive_ok example_archive"
  by (simp add: archive_ok_def example_archive_def store_open_def Let_def parse_encode_value)

lemma example_archive_db: "db example_archive = [(3, encode_value 5 6), (5, encode_value 7 8)]"
  by (simp add: example_archive_def store_open_def Let_def)

theorem put_roots_keeps_entries_witness:
  "\<exists>s' e'. put_roots [(4, 1, 2)] example_archive = Inr s' \<and> root_at s' 3 = Some e' \<and> sr_root e' = 5 \<and> sr_block_hash e' = 6"
proof -
  obtain s' where s': "put_roots [(4, 1, 2)] example_archive = Inr s'" by (simp add: put_roots_def example_archive_db)
  have "root_at example_archive 3 = Some \<lparr>sr_root = 5, sr_block_hash = 6\<rparr>"
    by (simp add: root_at_def example_archive_db parse_encode_value)
  then show ?thesis using put_roots_keeps_entries [OF s' example_archive_ok] s' by fastforce
qed

theorem find_gaps_exact_witness:
  "in_gaps (find_gaps (Some 2) (Some 6) example_archive) 4 \<and> \<not> in_gaps (find_gaps (Some 2) (Some 6) example_archive) 5"
proof -
  have "root_at example_archive 4 = None" "root_at example_archive 5 \<noteq> None"
    by (simp_all add: root_at_def example_archive_db parse_encode_value)
  then show ?thesis
    using find_gaps_exact [OF example_archive_ok, of 6 2 4] find_gaps_exact [OF example_archive_ok, of 6 2 5] by simp
qed

theorem reconcile_anchors_witness:
  "\<exists>s' removed. reconcile (\<lambda>_. Inr 6) 2 example_archive = Inr (Reanchored 3 removed, s') \<and> latest_height s' = Some 3"
proof -
  have "\<exists>s' removed. reconcile (\<lambda>_. Inr 6) 2 example_archive = Inr (Reanchored 3 removed, s')"
    by (simp add: reconcile_def latest_height_def get_range_def example_archive_db parse_encode_value saturating_sub_def split: prod.splits)
  then show ?thesis using reconcile_anchors [OF example_archive_ok, of "\<lambda>_. Inr 6" 2] by (fastforce simp: example_archive_db)
qed

end
