(* ===== verification/Spec2Isabelle.thy ===== *)
theory Spec2Isabelle
  imports Primitives Merkle SupportedChains Randomness Extension Ladder Removal BlockProver ChainInfo PoolInv
    AttestorStash StreamAcceptance Archiver
begin

text \<open>A verification library for the Creditcoin attestation system.

  \<^bold>\<open>The program.\<close>  Creditcoin is a Substrate chain on which registered attestors attest to blocks of
  other chains.  The supported-chains pallet keeps the list of source chains, the randomness pallet
  stores the randomness of the latest epochs and announces a new epoch, and the attestation pallet
  registers attestors, elects the active ones at every epoch, accepts attestations signed by a
  quorum of them and condenses the attestations into checkpoints.  A transaction of a source chain
  is later proved against an attestation or a checkpoint by a Merkle proof inside its block and a
  continuity proof from the block to the attested digest, and contracts ask the chain-info precompile
  which heights are attested.  Off the chain, an attestor turns the roots of source blocks into
  attestations in its attestation stream and collects the votes of the others in its pool, and the
  archiver stores the roots.

  \<^bold>\<open>The theories and the code they model.\<close>
  \<^item> \<open>Prelude\<close>: machine integers and their saturating and checked operations, lists, byte encodings.
  \<^item> \<open>Primitives\<close>: \<open>primitives/attestor/src\<close>; attestation data, digests, quorum arithmetic and
    continuity proofs (\<open>ContinuityProof\<close>, \<open>Block\<close>).
  \<^item> \<open>Merkle\<close>: \<open>common/merkle/src\<close>; \<open>KeccakMerkleTree\<close> and \<open>TransactionMerkleProof\<close>.
  \<^item> \<open>Frame\<close>: what the pallets use of FRAME; origins, errors, storage defaults, the enumeration order
    of a storage map as a locale, and the reachability argument shared by the state machines.
  \<^item> \<open>SupportedChains\<close>: \<open>pallets/supported-chains/src\<close> and \<open>primitives/supported-chains/src\<close>.
  \<^item> \<open>Randomness\<close>: \<open>pallets/randomness/src/lib.rs\<close>.
  \<^item> \<open>PalletTypes\<close>, \<open>Params\<close>: the configuration, errors and events of \<open>pallets/attestation/src/lib.rs\<close>,
    its per-chain parameters and the calls that change them.
  \<^item> \<open>Ledger\<close>: \<open>ledger.rs\<close> and the bonding functions of \<open>impls.rs\<close>.
  \<^item> \<open>Registry\<close>, \<open>RegistryInv\<close>: registration, activation, chilling, election and withdrawal
    (\<open>impls.rs\<close> and the calls of \<open>lib.rs\<close>), and their invariants.
  \<^item> \<open>Attestations\<close>, \<open>AttestationInv\<close>: \<open>commit_attestation\<close> with its validation (\<open>impls.rs\<close>,
    \<open>continuity.rs\<close>) and the creation of checkpoints, and their properties.
  \<^item> \<open>Extension\<close>: the admission check of \<open>extensions.rs\<close>, related to the call it guards.
  \<^item> \<open>Cleanup\<close>, \<open>Draining\<close>: \<open>revert_to\<close> and the pruning of checkpoints in \<open>clear_or_revert.rs\<close>; the
    second holds the argument, a locale, that work handled in batches over many blocks ends.
  \<^item> \<open>Ladder\<close>: \<open>import_checkpoints\<close> and \<open>forward_patch_checkpoints\<close> (\<open>impls.rs\<close>), the checkpoints of the
    genesis builder (\<open>lib.rs\<close>), and the transition system of everything that writes checkpoints.
  \<^item> \<open>Removal\<close>: \<open>on_supported_chain_removed\<close> and the block hook \<open>on_initialize\<close>.
  \<^item> \<open>BlockProver\<close>: \<open>precompiles/block-prover/src\<close>; the verification of queries by contracts.
  \<^item> \<open>Pool\<close>, \<open>PoolInv\<close>: \<open>attestor/pool/src\<close>; the pool in which an attestor collects the votes of the
    others, and its properties.
  \<^item> \<open>ChainInfo\<close>: \<open>precompiles/chain-info/src/lib.rs\<close>; what contracts can ask about the registered
    chains and the attested heights.
  \<^item> \<open>AttestorStash\<close>: \<open>precompiles/attestor-stash/src/lib.rs\<close>; the calls and queries of a stash that lives
    in the EVM.
  \<^item> \<open>AttestationStream\<close>, \<open>StreamAcceptance\<close>: \<open>common/streams/attestation/src/lib.rs\<close>; the stream in which
    an attestor produces attestations, its invariant, and that the pallet accepts what it produces.
  \<^item> \<open>Archiver\<close>: \<open>archiver/src/store.rs\<close> and \<open>archiver/src/anchor.rs\<close>; the store of the roots of the
    source chain and its reconciliation with the chain.

  \<^bold>\<open>State.\<close>  A pallet's storage is a record with one field per storage item; a map is a partial
  function, read with its default by \<open>map_get\<close>.  The attestation pallet's record is built by
  extension (\<open>ParamsState\<close>, \<open>LedgerState\<close>, \<open>RegistryState\<close>, \<open>StoreState\<close>), so that an operation of a
  lower layer works on the states of the higher ones.  A call returns an error or the new state
  with its events; \<open>commit\<close> is the rollback of a failed call.  Integers keep their width, and the
  additions the code does not check wrap, since release builds have no overflow checks.

  \<^bold>\<open>Parameters.\<close> Keccak-256, the BLS library, the currency, the era, the block number, the order
  in which a map is enumerated, the clearing of a storage prefix, the handle of the EVM with its
  ABI encoding, the clock, the answers of the polled streams, the signer, the fetch of a canonical
  block hash and the width of \<open>usize\<close> are arguments. Where a property needs more of them it says
  so: that the hash does not collide on the byte strings at hand, that it does not give zero on
  the payloads of a proof, since the pallet takes a zero digest for a missing one, that the
  enumeration lists every key once (\<open>storage_iteration\<close>, \<open>chain_iteration\<close>), how a prefix is
  cleared (\<open>removal_host\<close>), how the currency keeps locks (\<open>lockable_currency\<close>), that the EVM has
  gas for the verification (\<open>affordable\<close>, \<open>view_affordable\<close>, \<open>stash_affordable\<close>), that a failed
  dispatch reverts (\<open>dispatch_reverts\<close>), that the rows of a map are listed (\<open>row_iteration\<close>), and
  that a stream of roots is consecutive and starts where it is reset to (\<open>roots_follow\<close>,
  \<open>resets_follow\<close>).

  \<^bold>\<open>What is shown.\<close> Two quorums overlap in more than a third of the committee; of two continuity
  proofs that reach the same digest the shorter is the end of the longer; the ways to compute
  digests agree; Merkle proofs are complete and sound; the chain registry stays consistent and
  never reuses the key of a removed chain; the randomness history holds the latest epochs;
  parameters stay within their bounds; the attestor registry stays consistent, BLS keys are never
  shared and elections select exactly the admitted attestors; ledgers add up and are backed by
  locks, and withdrawals release what has matured; a committed attestation has a quorum of
  distinct keys, extends the finalised chain and advances it; checkpointing keeps its maps and
  queue in order and terminates; the extension refuses only commits that would fail and tags only
  valid ones; a revert hides the later checkpoints at once and keeps the earlier ones, and its
  pruning ends; whatever writes checkpoints keeps them, their buckets and the last one consistent;
  the cleanup of a removed chain ends with nothing of its attestors left; a query the precompile
  accepts is a transaction of the source chain, and a batch is accepted exactly when its queries
  are; the vote pool keeps a table of votes, offers the dominant digest of the greatest height, no
  decided height again before it is reopened, and misses no wake-up; the bounds that the
  chain-info precompile reports are anchors, a transaction between them is accepted by the block
  prover, and its search for checkpoints is exact; what a contract calls is the call of the pallet
  by its own account, on its own attestors, and a withdrawal unlocks what it was told is
  withdrawable; the attestation stream never panics, polling it returns, and the pallet accepts
  what it produces; the archive never changes a stored root, finds exactly its gaps, and resumes
  above a canonical block.

  \<^bold>\<open>Bounds.\<close>  Only the main loop of the attestation stream's \<open>poll_next\<close> has fuel: three rounds, and three
  more for every answer its sources still hold, are proved to be enough.  The stream assumes that
  heights stay below \<open>2 ^ 64\<close> by the catch-up and the interval (\<open>heights_fit\<close>).
  The loop that creates checkpoints at every boundary is a partial function, and it is proved to return whenever the attested height is a checkpoint width below
  \<open>2 ^ 64\<close>; nearer to it the next boundary saturates and need not advance.  The properties of a commit
  assume twice that distance (\<open>commit_room\<close>), which keeps the unchecked \<open>checkpoint_width * 2 + 1\<close>
  from wrapping.  The pruning ends if no height to prune is the largest \<open>u64\<close> (\<open>prunable\<close>): there the
  next bucket saturates and the loop stays in place.

  \<^bold>\<open>Not modelled.\<close>  Weights and fees; the storage migrations; the signature and
  transfer precompiles, which forward to libraries; the runtime's wiring; and
  the other off-chain programs, which are networking, databases and I/O.\<close>

end
